(* ===== verification/Qdp_Prelude.thy ===== *)
theory Qdp_Prelude
  imports Main "HOL-Library.Word"
begin

unbundle bit_operations_syntax

text \<open>
  Shared vocabulary of the development.

  \<^item> The Go values the sources use: bytes, \<open>uint32\<close>, strings as byte sequences, error values,
    and the outcome of an operation that may panic.
  \<^item> Go slices: bounds-checked slicing, \<open>copy\<close>, and \<open>encoding/binary.LittleEndian\<close>.
  \<^item> Lemma collections (\<open>go_simps\<close>, \<open>slice_simps\<close>) used by the component proofs.

  Go's \<open>int\<close> is 64 bits wide on the supported platforms and every \<open>int\<close> of the sources is a
  buffer offset or a length, so it is a \<open>nat\<close> here; \<open>uint32\<close> values keep their width, because
  the code's header arithmetic wraps around.
\<close>

named_theorems go_simps \<open>sequencing of Go outcomes\<close>
named_theorems slice_simps \<open>bounds-checked slices, copy and little-endian integers\<close>

section \<open>Go values\<close>

type_synonym byte = "8 word"
type_synonym u16 = "16 word"
type_synonym u32 = "32 word"

text \<open>
  Error values. \<open>ErrInvalidMessage\<close> and \<open>ErrCRCMismatch\<close> are the package's own; \<open>EOF\<close> is
  \<open>io.EOF\<close>; \<open>Canceled\<close> and \<open>DeadlineExceeded\<close> are those of package \<open>context\<close>;
  \<open>ErrText\<close> is \<open>errors.New\<close>, or any error of a foreign package, with its text;
  \<open>Wrapf\<close> is \<open>fmt.Errorf("prefix: %w", err)\<close>.
\<close>

datatype go_error =
    ErrInvalidMessage
  | ErrCRCMismatch
  | EOF
  | Canceled
  | DeadlineExceeded
  | ErrText string
  | Wrapf string go_error

text \<open>The outcome of a Go call: it returns a value, or it panics.\<close>

datatype 'a go = Ret 'a | Panic

primrec go_bind :: "'a go \<Rightarrow> ('a \<Rightarrow> 'b go) \<Rightarrow> 'b go" where
  "go_bind (Ret x) f = f x"
| "go_bind Panic f = Panic"

lemma go_bind_eq_Ret [go_simps]:
  "go_bind m f = Ret y \<longleftrightarrow> (\<exists>x. m = Ret x \<and> f x = Ret y)"
  by (cases m) auto

lemma go_bind_eq_Panic [go_simps]:
  "go_bind m f = Panic \<longleftrightarrow> m = Panic \<or> (\<exists>x. m = Ret x \<and> f x = Panic)"
  by (cases m) auto

lemma go_bind_assoc [go_simps]:
  "go_bind (go_bind m f) g = go_bind m (\<lambda>x. go_bind (f x) g)"
  by (cases m) auto

section \<open>Strings and bytes\<close>

text \<open>
  A Go string is an immutable byte sequence; \<open>string\<close> (a list of 8-bit characters) has the same
  values. \<open>[]byte(s)\<close> and \<open>string(b)\<close> convert byte by byte.
\<close>

definition byte_of_char :: "char \<Rightarrow> byte" where
  "byte_of_char c = word_of_nat (of_char c)"

definition char_of_byte :: "byte \<Rightarrow> char" where
  "char_of_byte b = char_of (unat b)"

definition string_bytes :: "string \<Rightarrow> byte list" where
  "string_bytes s = map byte_of_char s"

definition bytes_string :: "byte list \<Rightarrow> string" where
  "bytes_string bs = map char_of_byte bs"

lemma char_of_byte_of_char [simp]: "char_of_byte (byte_of_char c) = c"
proof -
  have "of_char c < (256 :: nat)"
    using of_char_of [of "of_char c :: nat"] by (metis char_of_char mod_less_divisor zero_less_numeral)
  then have "unat (byte_of_char c) = of_char c"
    by (simp add: byte_of_char_def unat_of_nat)
  then show ?thesis
    by (simp add: char_of_byte_def)
qed

lemma byte_of_char_of_byte [simp]: "byte_of_char (char_of_byte b) = b"
proof -
  have "unat b < 256"
    using unsigned_less [of b] by simp
  then have "of_char (char_of (unat b)) = unat b"
    by (simp add: of_char_of)
  then show ?thesis
    by (simp add: byte_of_char_def char_of_byte_def)
qed

lemma bytes_string_bytes [simp]: "bytes_string (string_bytes s) = s"
  by (simp add: bytes_string_def string_bytes_def map_idI)

lemma string_bytes_string [simp]: "string_bytes (bytes_string bs) = bs"
  by (simp add: bytes_string_def string_bytes_def map_idI)

lemma length_string_bytes [simp]: "length (string_bytes s) = length s"
  by (simp add: string_bytes_def)

lemma length_bytes_string [simp]: "length (bytes_string bs) = length bs"
  by (simp add: bytes_string_def)

lemma string_bytes_eq_iff [simp]: "string_bytes s = string_bytes t \<longleftrightarrow> s = t"
  by (metis bytes_string_bytes)

section \<open>Slices\<close>

text \<open>
  \<open>s[lo:hi]\<close> panics unless \<open>lo \<le> hi \<le> len(s)\<close> (the sources slice only arrays whose capacity is
  their length). \<open>s[lo:]\<close> is \<open>s[lo:len(s)]\<close>.
\<close>

definition go_slice :: "'a list \<Rightarrow> nat \<Rightarrow> nat \<Rightarrow> 'a list go" where
  "go_slice xs lo hi =
     (if lo \<le> hi \<and> hi \<le> length xs then Ret (take (hi - lo) (drop lo xs)) else Panic)"

text \<open>
  \<open>copy(buf[off:], src)\<close>: panics when \<open>off\<close> is out of range, otherwise copies as many bytes as
  fit and leaves the rest of the buffer as it was.
\<close>

definition copy_at :: "'a list \<Rightarrow> nat \<Rightarrow> 'a list \<Rightarrow> 'a list go" where
  "copy_at buf off src =
     (if off \<le> length buf
      then Ret (take off buf @ take (length buf - off) src @ drop (off + length src) buf)
      else Panic)"

lemma go_slice_ok [slice_simps]:
  "lo \<le> hi \<Longrightarrow> hi \<le> length xs \<Longrightarrow> go_slice xs lo hi = Ret (take (hi - lo) (drop lo xs))"
  by (simp add: go_slice_def)

lemma go_slice_eq_Ret:
  "go_slice xs lo hi = Ret ys \<longleftrightarrow> lo \<le> hi \<and> hi \<le> length xs \<and> ys = take (hi - lo) (drop lo xs)"
  by (auto simp: go_slice_def)

lemma go_slice_eq_Panic: "go_slice xs lo hi = Panic \<longleftrightarrow> hi < lo \<or> length xs < hi"
  by (auto simp: go_slice_def)

lemma copy_at_length: "copy_at buf off src = Ret buf' \<Longrightarrow> length buf' = length buf"
  by (auto simp: copy_at_def split: if_splits)

lemma copy_at_fits [slice_simps]:
  "length (pre @ mid) = off + length src \<Longrightarrow> length pre = off \<Longrightarrow>
   copy_at (pre @ mid @ post) off src = Ret (pre @ src @ post)"
  by (simp add: copy_at_def)

section \<open>Little-endian integers\<close>

text \<open>
  \<open>binary.LittleEndian.PutUint32(b, v)\<close> stores four bytes, the least significant first, and
  panics when \<open>b\<close> is shorter; \<open>binary.LittleEndian.Uint32(b)\<close> reads them back.
\<close>

definition le_bytes :: "u32 \<Rightarrow> byte list" where
  "le_bytes v = [ucast v, ucast (drop_bit 8 v), ucast (drop_bit 16 v), ucast (drop_bit 24 v)]"

definition le_word :: "byte \<Rightarrow> byte \<Rightarrow> byte \<Rightarrow> byte \<Rightarrow> u32" where
  "le_word b0 b1 b2 b3 =
     ucast b0 OR push_bit 8 (ucast b1) OR push_bit 16 (ucast b2) OR push_bit 24 (ucast b3)"

fun Uint32 :: "byte list \<Rightarrow> u32 go" where
  "Uint32 (b0 # b1 # b2 # b3 # _) = Ret (le_word b0 b1 b2 b3)"
| "Uint32 _ = Panic"

definition PutUint32 :: "byte list \<Rightarrow> nat \<Rightarrow> u32 \<Rightarrow> byte list go" where
  "PutUint32 buf off v =
     (if off + 4 \<le> length buf then copy_at buf off (le_bytes v) else Panic)"

lemma length_le_bytes [simp]: "length (le_bytes v) = 4"
  by (simp add: le_bytes_def)

lemma le_word_le_bytes:
  "le_word (ucast v) (ucast (drop_bit 8 v)) (ucast (drop_bit 16 v)) (ucast (drop_bit 24 v)) = v"
  for v :: u32
proof (rule bit_word_eqI)
  fix n
  assume "n < LENGTH(32)"
  then have "n < 8 \<or> n = 8 + (n - 8) \<and> n - 8 < 8 \<or> n = 16 + (n - 16) \<and> n - 16 < 8
      \<or> n = 24 + (n - 24) \<and> n - 24 < 8"
    by auto
  then consider "n < 8" | k where "n = 8 + k" "k < 8" | k where "n = 16 + k" "k < 8"
    | k where "n = 24 + k" "k < 8"
    by blast
  then show "bit (le_word (ucast v) (ucast (drop_bit 8 v)) (ucast (drop_bit 16 v))
      (ucast (drop_bit 24 v))) n \<longleftrightarrow> bit v n"
    by cases (auto simp: le_word_def bit_simps)
qed

lemma bit_byte_beyond: "8 \<le> n \<Longrightarrow> \<not> bit (b :: byte) n"
  using bit_imp_le_length [of b n] by auto

lemma le_bytes_le_word: "le_bytes (le_word b0 b1 b2 b3) = [b0, b1, b2, b3]"
  by (auto simp: le_bytes_def le_word_def bit_simps bit_byte_beyond intro!: bit_word_eqI)

lemma Uint32_le_bytes [simp]: "Uint32 (le_bytes v @ xs) = Ret v"
  by (simp add: le_bytes_def le_word_le_bytes)

lemma Uint32_le_bytes_Nil [simp]: "Uint32 (le_bytes v) = Ret v"
  using Uint32_le_bytes [of v "[]"] by simp

lemma le_bytes_inject [simp]: "le_bytes v = le_bytes w \<longleftrightarrow> v = w"
  by (metis Uint32_le_bytes_Nil go.inject)

lemma four_bytes_cases:
  assumes "length xs = 4"
  obtains b0 b1 b2 b3 where "xs = [b0, b1, b2, b3]"
  using assms by (auto simp: numeral_eq_Suc length_Suc_conv)

text \<open>A read of at least four bytes succeeds, and its bytes are those of the value read.\<close>

lemma Uint32_take:
  assumes "4 \<le> length xs"
  shows "\<exists>v. Uint32 xs = Ret v \<and> take 4 xs = le_bytes v"
proof -
  have "length (take 4 xs) = 4"
    using assms by simp
  then obtain b0 b1 b2 b3 where t: "take 4 xs = [b0, b1, b2, b3]"
    by (rule four_bytes_cases)
  then have "xs = b0 # b1 # b2 # b3 # drop 4 xs"
    by (metis append_Cons append_Nil append_take_drop_id)
  then have "Uint32 xs = Ret (le_word b0 b1 b2 b3)"
    by (metis Uint32.simps(1))
  then show ?thesis
    using t by (simp add: le_bytes_le_word)
qed

lemma Uint32_not_Panic: "4 \<le> length xs \<Longrightarrow> Uint32 xs \<noteq> Panic"
  using Uint32_take [of xs] by auto

lemma Uint32_eq_Ret_bytes: "Uint32 xs = Ret v \<Longrightarrow> take 4 xs = le_bytes v"
proof -
  assume h: "Uint32 xs = Ret v"
  then have "4 \<le> length xs"
    by (cases xs rule: Uint32.cases) auto
  then show ?thesis
    using h Uint32_take [of xs] by auto
qed

lemma PutUint32_fits [slice_simps]:
  "length pre = off \<Longrightarrow> length mid = 4 \<Longrightarrow>
   PutUint32 (pre @ mid @ post) off v = Ret (pre @ le_bytes v @ post)"
  by (simp add: PutUint32_def copy_at_fits)

section \<open>Lists\<close>

lemma take_append_length [simp]: "length xs = n \<Longrightarrow> take n (xs @ ys) = xs"
  by simp

lemma drop_append_length [simp]: "length xs = n \<Longrightarrow> drop n (xs @ ys) = ys"
  by simp

text \<open>A prefix of known length, read at an offset.\<close>

lemma take_drop_middle:
  "length xs = i \<Longrightarrow> length ys = n \<Longrightarrow> take n (drop i (xs @ ys @ zs)) = ys"
  by simp

lemma append_eq_longer:
  assumes "xs @ ys = zs @ ws" and "length zs \<le> length xs"
  shows "\<exists>u. xs = zs @ u \<and> u @ ys = ws"
proof -
  have "take (length zs) xs = zs"
    using arg_cong [OF assms(1), of "take (length zs)"] assms(2) by simp
  then have "xs = zs @ drop (length zs) xs"
    by (metis append_take_drop_id)
  then show ?thesis
    using assms(1) by (metis append.assoc same_append_eq)
qed

lemma unat_u32_less: "unat (v :: u32) < 2 ^ 32"
  using unsigned_less [where w = v and 'a = nat] by simp

lemma unat_of_nat_u32 [simp]: "n < 2 ^ 32 \<Longrightarrow> unat (word_of_nat n :: u32) = n"
  by (simp add: unat_of_nat)

end
