(* ===== verification/Qdp_Crc.thy ===== *)
theory Qdp_Crc
  imports Qdp_Prelude
begin

unbundle bit_operations_syntax

text \<open>
  The CRC-32 of \<open>lib/go/qdp.go\<close>: the lookup table built by \<open>init\<close> and the byte-wise loop of
  \<open>calculateCRC32\<close>. The lemmas show that the table-driven loop computes the bit-serial
  shift-register CRC, that the register update is injective, and that every change confined to
  four consecutive bytes (a burst of at most 32 bits) changes the checksum.
\<close>

section \<open>Definitions\<close>

text \<open>The body of the inner loop of \<open>init\<close>: one bit of polynomial division.\<close>

definition polynomial :: u32 where
  "polynomial = 0xEDB88320"

definition crc_shift :: "u32 \<Rightarrow> u32" where
  "crc_shift crc = (if crc AND 1 \<noteq> 0 then drop_bit 1 crc XOR polynomial else drop_bit 1 crc)"

text \<open>The table: for every \<open>i < 256\<close> the inner loop runs eight times from \<open>i\<close>.\<close>

primrec crc_shifts :: "nat \<Rightarrow> u32 \<Rightarrow> u32" where
  "crc_shifts 0 crc = crc"
| "crc_shifts (Suc j) crc = crc_shifts j (crc_shift crc)"

definition crc32Table :: "u32 list" where
  "crc32Table = map (\<lambda>i. crc_shifts 8 (word_of_nat i)) [0..<256]"

text \<open>The loop body of \<open>calculateCRC32\<close>; a byte indexes a table of 256 entries, so the lookup
  is always in range.\<close>

definition crc_update :: "u32 \<Rightarrow> byte \<Rightarrow> u32" where
  "crc_update crc b = drop_bit 8 crc XOR crc32Table ! unat (ucast crc XOR b)"

definition calculateCRC32 :: "byte list \<Rightarrow> u32" where
  "calculateCRC32 data = foldl crc_update 0xFFFFFFFF data XOR 0xFFFFFFFF"

text \<open>
  The specification: a bit-serial register. Bits enter least significant first; the register is
  shifted right, and the polynomial is subtracted when the bit shifted out differs from the bit
  that enters.
\<close>

fun crc_serial :: "u32 \<Rightarrow> bool list \<Rightarrow> u32" where
  "crc_serial crc [] = crc"
| "crc_serial crc (t # ts) =
     crc_serial (drop_bit 1 crc XOR (if odd crc \<noteq> t then polynomial else 0)) ts"

definition byte_bits :: "byte \<Rightarrow> bool list" where
  "byte_bits b = map (bit b) [0..<8]"

definition crc_spec :: "byte list \<Rightarrow> u32" where
  "crc_spec data = NOT (crc_serial (NOT 0) (concat (map byte_bits data)))"

section \<open>The register update\<close>

lemma and_one_neq_zero [simp]: "crc AND 1 \<noteq> 0 \<longleftrightarrow> odd crc" for crc :: u32
  by (simp add: and_one_eq odd_iff_mod_2_eq_one)

lemma xor_right_cancel [simp]: "x XOR z = y XOR z \<longleftrightarrow> x = y" for x y z :: u32
proof
  assume "x XOR z = y XOR z"
  then have "(x XOR z) XOR z = (y XOR z) XOR z"
    by (rule arg_cong)
  then show "x = y"
    by (simp only: xor.assoc xor_self_eq xor.right_neutral)
qed simp

lemma crc_shift_alt: "crc_shift crc = drop_bit 1 crc XOR (if odd crc then polynomial else 0)"
  by (simp add: crc_shift_def)

lemma crc_shift_0 [simp]: "crc_shift 0 = 0"
  by (simp add: crc_shift_def)

lemma odd_xor: "odd (x XOR y) \<longleftrightarrow> odd x \<noteq> odd y" for x y :: u32
  by (simp add: even_xor_iff)

lemma crc_shift_xor: "crc_shift (x XOR y) = crc_shift x XOR crc_shift y"
proof -
  have "drop_bit 1 (x XOR y) = drop_bit 1 x XOR drop_bit 1 y"
    by simp
  then show ?thesis
    unfolding crc_shift_alt odd_xor
    by (cases "odd x"; cases "odd y") (simp_all add: ac_simps)
qed

text \<open>The top bit of the result says whether the polynomial was added, so the shift can be undone.\<close>

lemma bit_31_crc_shift: "bit (crc_shift x) 31 \<longleftrightarrow> odd x"
proof -
  have "\<not> bit (drop_bit 1 x) 31"
    using bit_imp_le_length [of x 32] by (auto simp: bit_drop_bit_eq)
  moreover have "bit polynomial 31"
    by (simp add: polynomial_def)
  ultimately show ?thesis
    by (simp add: crc_shift_alt bit_xor_iff)
qed

lemma odd_drop_eq:
  fixes x y :: u32
  assumes "odd x \<longleftrightarrow> odd y" and "drop_bit 1 x = drop_bit 1 y"
  shows "x = y"
proof (rule bit_eqI)
  fix n
  show "bit x n = bit y n"
  proof (cases n)
    case 0
    then show ?thesis
      using assms(1) by (simp add: bit_0)
  next
    case (Suc m)
    then show ?thesis
      using assms(2) by (metis bit_drop_bit_eq comp_apply plus_1_eq_Suc)
  qed
qed

lemma crc_shift_inject: "crc_shift x = crc_shift y \<longleftrightarrow> x = y"
proof
  assume eq: "crc_shift x = crc_shift y"
  then have o: "odd x \<longleftrightarrow> odd y"
    by (metis bit_31_crc_shift)
  with eq have "drop_bit 1 x = drop_bit 1 y"
    by (auto simp: crc_shift_alt split: if_splits)
  with o show "x = y"
    by (rule odd_drop_eq)
qed simp

lemma crc_shifts_0 [simp]: "crc_shifts n 0 = 0"
  by (induction n) simp_all

lemma crc_shifts_xor: "crc_shifts n (x XOR y) = crc_shifts n x XOR crc_shifts n y"
  by (induction n arbitrary: x y) (simp_all add: crc_shift_xor)

lemma crc_shifts_inject: "crc_shifts n x = crc_shifts n y \<longleftrightarrow> x = y"
  by (induction n arbitrary: x y) (simp_all add: crc_shift_inject)

lemma crc_shifts_add: "crc_shifts (m + n) x = crc_shifts n (crc_shifts m x)"
  by (induction m arbitrary: x) simp_all

text \<open>Zero bits at the low end are shifted out without effect.\<close>

lemma crc_shifts_low_zero:
  "(\<forall>i < n. \<not> bit x i) \<Longrightarrow> crc_shifts n x = drop_bit n x"
proof (induction n arbitrary: x)
  case (Suc n)
  then have "even x"
    by (auto simp: bit_0 dest!: spec [of _ 0])
  then have "crc_shift x = drop_bit 1 x"
    by (simp add: crc_shift_alt)
  moreover have "\<forall>i < n. \<not> bit (drop_bit 1 x) i"
    using Suc.prems by (simp add: bit_drop_bit_eq)
  ultimately show ?case
    using Suc.IH [of "drop_bit 1 x"] by simp
qed simp

lemma crc32Table_nth: "crc32Table ! unat b = crc_shifts 8 (ucast b)" for b :: byte
proof -
  have "unat b < 256"
    using unsigned_less [of b] by simp
  then show ?thesis
    by (simp add: crc32Table_def unsigned_of_nat)
qed

text \<open>One table lookup is eight shifts of the register with the byte added at the low end.\<close>

lemma crc_update_shifts: "crc_update crc b = crc_shifts 8 (crc XOR ucast b)"
proof -
  define lo :: u32 where "lo = ucast (ucast crc XOR b :: byte)"
  define hi :: u32 where "hi = push_bit 8 (drop_bit 8 crc)"
  have split: "crc XOR ucast b = hi XOR lo"
    by (rule bit_word_eqI) (auto simp: lo_def hi_def bit_simps bit_byte_beyond)
  have "crc_shifts 8 hi = drop_bit 8 hi"
    by (rule crc_shifts_low_zero) (simp add: hi_def bit_simps)
  moreover have "drop_bit 8 hi = drop_bit 8 crc"
    by (rule bit_word_eqI) (auto simp: hi_def bit_simps dest: bit_imp_le_length)
  ultimately show ?thesis
    unfolding crc_update_def split crc_shifts_xor crc32Table_nth lo_def by simp
qed

lemma crc_update_inject_state: "crc_update c b = crc_update d b \<longleftrightarrow> c = d"
  by (simp only: crc_update_shifts crc_shifts_inject xor_right_cancel)

lemma foldl_crc_update_inject: "foldl crc_update c bs = foldl crc_update d bs \<longleftrightarrow> c = d"
  by (induction bs arbitrary: c d) (simp_all add: crc_update_inject_state)

section \<open>The table-driven loop is the bit-serial register\<close>

lemma crc_shift_push_drop: "crc_shift (push_bit 1 (take_bit n (drop_bit 1 x))) = take_bit n (drop_bit 1 x)"
proof -
  have "even (push_bit 1 (take_bit n (drop_bit 1 x)))"
    by simp
  moreover have "drop_bit 1 (push_bit 1 (take_bit n (drop_bit 1 x))) = take_bit n (drop_bit 1 x)"
    by (rule bit_word_eqI)
      (use bit_imp_le_length [of x] in \<open>fastforce simp: bit_simps simp del: push_bit_Suc One_nat_def\<close>)
  ultimately show ?thesis
    by (simp add: crc_shift_alt)
qed

lemma crc_serial_Cons: "crc_serial crc (t # ts) = crc_serial (crc_shift (crc XOR of_bool t)) ts"
proof -
  have "drop_bit 1 (of_bool t :: u32) = 0"
    by (cases t) simp_all
  then have "drop_bit 1 (crc XOR of_bool t) = drop_bit 1 crc"
    by simp
  then show ?thesis
    by (simp add: crc_shift_alt odd_xor)
qed

lemma take_bit_Suc_xor:
  "take_bit (Suc n) x = of_bool (odd x) XOR push_bit 1 (take_bit n (drop_bit 1 x))" for x :: u32
proof (rule bit_word_eqI)
  fix m
  assume "m < LENGTH(32)"
  then show "bit (take_bit (Suc n) x) m
      \<longleftrightarrow> bit (of_bool (odd x) XOR push_bit 1 (take_bit n (drop_bit 1 x))) m"
    by (cases m) (auto simp only: bit_simps bit_0, auto simp: even_xor_iff)
qed

lemma crc_serial_bits:
  "crc_serial crc (map (bit x) [0..<n]) = crc_shifts n (crc XOR take_bit n x)" for x :: u32
proof (induction n arbitrary: crc x)
  case (Suc n)
  let ?y = "drop_bit 1 x"
  have bits: "map (bit x) [0..<Suc n] = bit x 0 # map (bit ?y) [0..<n]"
    by (simp add: map_upt_Suc bit_drop_bit_eq comp_def del: upt_Suc)
  have "crc_shift (crc XOR take_bit (Suc n) x) = crc_shift (crc XOR of_bool (odd x)) XOR take_bit n ?y"
    unfolding take_bit_Suc_xor
    by (simp only: xor.assoc [symmetric] crc_shift_xor crc_shift_push_drop)
  then show ?case
    unfolding bits crc_serial_Cons by (simp add: Suc.IH bit_0)
qed simp

lemma crc_serial_byte: "crc_serial crc (byte_bits b) = crc_update crc b"
proof -
  have "map (bit b) [0..<8] = map (bit (ucast b :: u32)) [0..<8]"
    by (auto simp: bit_simps)
  moreover have "take_bit 8 (ucast b :: u32) = ucast b"
    by (rule bit_word_eqI) (use bit_imp_le_length [of b] in \<open>auto simp: bit_simps\<close>)
  ultimately show ?thesis
    using crc_serial_bits [of crc "ucast b" 8] by (simp only: byte_bits_def crc_update_shifts)
qed

lemma crc_serial_append: "crc_serial crc (xs @ ys) = crc_serial (crc_serial crc xs) ys"
  by (induction xs arbitrary: crc) simp_all

lemma crc_serial_bytes: "crc_serial crc (concat (map byte_bits data)) = foldl crc_update crc data"
  by (induction data arbitrary: crc) (simp_all add: crc_serial_append crc_serial_byte)

section \<open>Burst errors\<close>

text \<open>Up to four bytes as one little-endian register value.\<close>

fun le_value :: "byte list \<Rightarrow> u32" where
  "le_value [] = 0"
| "le_value (b # bs) = ucast b XOR push_bit 8 (le_value bs)"

lemma bit_le_value:
  "i < 32 \<Longrightarrow> bit (le_value bs) i \<longleftrightarrow> i div 8 < length bs \<and> bit (bs ! (i div 8)) (i mod 8)"
proof (induction bs arbitrary: i)
  case (Cons b bs)
  show ?case
  proof (cases "i < 8")
    case True
    then show ?thesis
      using Cons.prems by (simp add: bit_simps)
  next
    case False
    then have "i div 8 = Suc ((i - 8) div 8)" and "i mod 8 = (i - 8) mod 8"
      by (simp_all add: div_if mod_if)
    then show ?thesis
      using False Cons by (simp add: bit_simps bit_byte_beyond)
  qed
qed simp

lemma le_value_inject:
  assumes "length xs = length ys" and "length xs \<le> 4" and "le_value xs = le_value ys"
  shows "xs = ys"
proof (rule nth_equalityI [OF assms(1)])
  fix j
  assume j: "j < length xs"
  show "xs ! j = ys ! j"
  proof (rule bit_word_eqI)
    fix i
    assume "i < LENGTH(8)"
    then have "8 * j + i < 32" and "(8 * j + i) div 8 = j" and "(8 * j + i) mod 8 = i"
      using j assms(2) by auto
    then show "bit (xs ! j) i = bit (ys ! j) i"
      using bit_le_value [of "8 * j + i" xs] bit_le_value [of "8 * j + i" ys] assms(1,3) j
      by simp
  qed
qed

lemma crc_shifts_push_le_value:
  assumes "length bs \<le> 3"
  shows "crc_shifts 8 (push_bit 8 (le_value bs)) = le_value bs"
proof -
  have beyond: "\<not> bit (le_value bs) i" if "24 \<le> i" for i
    using that assms bit_le_value [of i bs] bit_imp_le_length [of "le_value bs" i] by auto
  have "crc_shifts 8 (push_bit 8 (le_value bs)) = drop_bit 8 (push_bit 8 (le_value bs))"
    by (rule crc_shifts_low_zero) (simp add: bit_simps)
  also have "\<dots> = le_value bs"
    by (rule bit_word_eqI) (use beyond in \<open>auto simp: bit_simps not_le [symmetric]\<close>)
  finally show ?thesis .
qed

lemma foldl_crc_update_short:
  "length bs \<le> 4 \<Longrightarrow> foldl crc_update c bs = crc_shifts (8 * length bs) (c XOR le_value bs)"
proof (induction bs arbitrary: c)
  case (Cons b bs)
  have "crc_shifts 8 (c XOR le_value (b # bs)) = crc_update c b XOR le_value bs"
    using Cons.prems
    by (simp add: crc_update_shifts crc_shifts_xor crc_shifts_push_le_value xor.assoc [symmetric])
  then show ?case
    using Cons crc_shifts_add [of 8 "8 * length bs" "c XOR le_value (b # bs)"] by simp
qed simp

lemma xor_left_cancel: "z XOR x = z XOR y \<longleftrightarrow> x = y" for x y z :: u32
  by (simp only: xor.commute [of z] xor_right_cancel)

lemma foldl_crc_update_window:
  assumes "length xs = length ys" and "length xs \<le> 4" and "xs \<noteq> ys"
  shows "foldl crc_update c xs \<noteq> foldl crc_update c ys"
proof
  assume "foldl crc_update c xs = foldl crc_update c ys"
  then have "le_value xs = le_value ys"
    using assms by (simp add: foldl_crc_update_short crc_shifts_inject xor_left_cancel)
  then show False
    using le_value_inject assms by blast
qed

lemma calculateCRC32_window:
  assumes "length xs = length ys" and "length xs \<le> 4" and "xs \<noteq> ys"
  shows "calculateCRC32 (pre @ xs @ post) \<noteq> calculateCRC32 (pre @ ys @ post)"
  using foldl_crc_update_window [OF assms]
  by (simp add: calculateCRC32_def foldl_crc_update_inject)

section \<open>The residue of a checked frame\<close>

text \<open>A frame ends in the checksum of its body exactly when the register, run over the whole frame,
  ends in one fixed value. This makes the trailer subject to the same burst argument.\<close>

definition crc_residue :: u32 where
  "crc_residue = crc_shifts 32 0xFFFFFFFF"

lemma le_value_le_bytes: "le_value (le_bytes v) = v"
proof (rule bit_word_eqI)
  fix i
  assume i: "i < LENGTH(32)"
  then have j: "i div 8 < 4"
    by auto
  then have nth: "bit (le_value (le_bytes v)) i = bit (le_bytes v ! (i div 8)) (i mod 8)"
    using i bit_le_value [of i "le_bytes v"] by simp
  from j consider "i div 8 = 0" | "i div 8 = 1" | "i div 8 = 2" | "i div 8 = 3"
    by linarith
  then show "bit (le_value (le_bytes v)) i = bit v i"
    using i div_mult_mod_eq [of i 8] unfolding nth
    by cases (auto simp: le_bytes_def bit_simps div_eq_0_iff)
qed

lemma crc_residue_iff:
  assumes "length t = 4"
  shows "foldl crc_update 0xFFFFFFFF (body @ t) = crc_residue \<longleftrightarrow> t = le_bytes (calculateCRC32 body)"
proof -
  obtain v where t: "t = le_bytes v"
    using assms Uint32_take [of t] by auto
  let ?c = "foldl crc_update 0xFFFFFFFF body"
  have "foldl crc_update 0xFFFFFFFF (body @ t) = crc_shifts 32 (?c XOR v)"
    by (simp add: t foldl_crc_update_short le_value_le_bytes)
  then have "foldl crc_update 0xFFFFFFFF (body @ t) = crc_residue \<longleftrightarrow> ?c XOR v = 0xFFFFFFFF"
    by (simp only: crc_residue_def crc_shifts_inject)
  also have "\<dots> \<longleftrightarrow> ?c XOR (?c XOR v) = ?c XOR 0xFFFFFFFF"
    by (simp only: xor_left_cancel)
  also have "\<dots> \<longleftrightarrow> v = calculateCRC32 body"
    by (simp only: calculateCRC32_def xor.assoc [symmetric] xor_self_eq xor.left_neutral)
  finally show ?thesis
    by (simp add: t)
qed

lemma crc_residue_burst:
  assumes "length xs = length ys" and "length xs \<le> 4" and "xs \<noteq> ys"
    and "foldl crc_update c (pre @ xs @ post) = crc_residue"
  shows "foldl crc_update c (pre @ ys @ post) \<noteq> crc_residue"
proof
  assume "foldl crc_update c (pre @ ys @ post) = crc_residue"
  with assms(4) have "foldl crc_update (foldl crc_update c pre) xs
      = foldl crc_update (foldl crc_update c pre) ys"
    by (simp flip: assms(4) add: foldl_crc_update_inject)
  then show False
    using foldl_crc_update_window [OF assms(1-3)] by blast
qed

section \<open>Properties\<close>

text \<open>C35. The table-driven \<open>calculateCRC32\<close> computes, for every byte string, the bit-serial
  CRC-32 with the reflected polynomial \<open>0xEDB88320\<close>, an all-ones start value and a final
  complement, as the README describes it.\<close>

theorem calculateCRC32_correct: "calculateCRC32 data = crc_spec data"
proof -
  have "(0xFFFFFFFF :: u32) = - 1" and "NOT (0 :: u32) = - 1"
    by simp_all
  then show ?thesis
    by (simp only: calculateCRC32_def crc_spec_def crc_serial_bytes bit.xor_one_right)
qed

text \<open>Error detection: two byte strings of the same length that differ only inside a window of
  at most four consecutive bytes (a burst of at most 32 bits) have different checksums.\<close>

theorem calculateCRC32_burst:
  assumes "length xs = length ys" and "length xs \<le> 4" and "xs \<noteq> ys"
  shows "calculateCRC32 (pre @ xs @ post) \<noteq> calculateCRC32 (pre @ ys @ post)"
  by (rule calculateCRC32_window [OF assms])

theorem calculateCRC32_burst_witness:
  "calculateCRC32 ([1] @ [2, 3] @ [4]) \<noteq> calculateCRC32 ([1] @ [2, 7] @ [4])"
  by (rule calculateCRC32_burst) simp_all

end
