(* ===== verification/Qdp_Message.thy ===== *)
theory Qdp_Message
  imports Qdp_Crc
begin

unbundle bit_operations_syntax

text \<open>
  Messages and their wire format (\<open>lib/go/qdp.go\<close>): \<open>Message\<close>, \<open>Encode\<close>, \<open>Decode\<close> and
  \<open>writeMessage\<close>. The header fields are \<open>uint32\<close> and their sum wraps around, so every slice the
  code takes is bounds-checked in the model and may panic. \<open>wire\<close> is the layout of the README,
  the specification both encoders and the decoder are proved against.
\<close>

section \<open>Definitions\<close>

record message =
  Topic :: string
  Payload :: "byte list"

text \<open>The documented layout: \<open>[TOPIC_LENGTH] [PAYLOAD_LENGTH] [TOPIC] [PAYLOAD] [CRC]\<close>.\<close>

definition wire_body :: "message \<Rightarrow> byte list" where
  "wire_body m = le_bytes (word_of_nat (length (Topic m))) @ le_bytes (word_of_nat (length (Payload m)))
     @ string_bytes (Topic m) @ Payload m"

definition wire :: "message \<Rightarrow> byte list" where
  "wire m = wire_body m @ le_bytes (calculateCRC32 (wire_body m))"

definition wire_fits :: "message \<Rightarrow> bool" where
  "wire_fits m \<longleftrightarrow> 12 + length (Topic m) + length (Payload m) < 2 ^ 32"

text \<open>\<open>(*Message).Encode\<close>\<close>

definition Encode :: "message \<Rightarrow> (go_error + byte list) go" where
  "Encode m =
     (if Topic m = '''' then Ret (Inl ErrInvalidMessage)
      else
        let topicLen = word_of_nat (length (Topic m)) :: u32;
            payloadLen = word_of_nat (length (Payload m)) :: u32;
            totalSize = 8 + topicLen + payloadLen + 4;
            buf = replicate (unat totalSize) 0
        in
        go_bind (PutUint32 buf 0 topicLen) (\<lambda>buf.
        go_bind (PutUint32 buf 4 payloadLen) (\<lambda>buf.
        go_bind (copy_at buf 8 (string_bytes (Topic m))) (\<lambda>buf.
        let offset = 8 + unat topicLen in
        go_bind (copy_at buf offset (Payload m)) (\<lambda>buf.
        let offset = offset + unat payloadLen in
        go_bind (go_slice buf 0 offset) (\<lambda>data.
        go_bind (PutUint32 buf offset (calculateCRC32 data)) (\<lambda>buf.
        Ret (Inr buf))))))))"

text \<open>\<open>Decode\<close>\<close>

definition Decode :: "byte list \<Rightarrow> (go_error + message) go" where
  "Decode data =
     (if length data < 12 then Ret (Inl ErrInvalidMessage)
      else
        go_bind (go_bind (go_slice data 0 4) Uint32) (\<lambda>topicLen.
        go_bind (go_bind (go_slice data 4 8) Uint32) (\<lambda>payloadLen.
        let totalLen = 8 + topicLen + payloadLen + 4 in
        if word_of_nat (length data) \<noteq> totalLen then Ret (Inl ErrInvalidMessage)
        else
          go_bind (go_bind (go_slice data (unat (totalLen - 4)) (length data)) Uint32) (\<lambda>receivedCRC.
          go_bind (go_slice data 0 (unat (totalLen - 4))) (\<lambda>body.
          if receivedCRC \<noteq> calculateCRC32 body then Ret (Inl ErrCRCMismatch)
          else
            go_bind (go_slice data 8 (unat (8 + topicLen))) (\<lambda>topic.
            go_bind (go_slice data (unat (8 + topicLen)) (unat (totalLen - 4))) (\<lambda>payload.
            Ret (Inr \<lparr>Topic = bytes_string topic, Payload = payload\<rparr>))))))))"

text \<open>
  \<open>writeMessage\<close> builds the same frame, without the check for an empty topic, and hands it to an
  \<open>io.Writer\<close>: \<open>wr w bs\<close> gives the count of bytes written, the error, and the writer afterwards.
  The debug log slices \<open>msgData[:n]\<close>.
\<close>

definition write_frame :: "message \<Rightarrow> byte list go" where
  "write_frame m =
     (let topicLen = word_of_nat (length (Topic m)) :: u32;
          payloadLen = word_of_nat (length (Payload m)) :: u32;
          totalSize = 8 + topicLen + payloadLen + 4;
          msgData = replicate (unat totalSize) 0
      in
      go_bind (PutUint32 msgData 0 topicLen) (\<lambda>msgData.
      go_bind (PutUint32 msgData 4 payloadLen) (\<lambda>msgData.
      go_bind (copy_at msgData 8 (string_bytes (Topic m))) (\<lambda>msgData.
      go_bind (copy_at msgData (unat (8 + topicLen)) (Payload m)) (\<lambda>msgData.
      go_bind (go_slice msgData 0 (unat (totalSize - 4))) (\<lambda>data.
      PutUint32 msgData (unat (totalSize - 4)) (calculateCRC32 data)))))))"

definition writeMessage ::
  "('w \<Rightarrow> byte list \<Rightarrow> nat \<times> go_error option \<times> 'w) \<Rightarrow> 'w \<Rightarrow> message
     \<Rightarrow> (go_error option \<times> 'w) go" where
  "writeMessage wr w m =
     go_bind (write_frame m) (\<lambda>msgData.
       let (n, err, w') = wr w msgData
       in if n \<le> length msgData then Ret (err, w') else Panic)"

section \<open>The frame\<close>

lemma length_wire_body [simp]: "length (wire_body m) = 8 + length (Topic m) + length (Payload m)"
  by (simp add: wire_body_def)

lemma length_wire [simp]: "length (wire m) = 12 + length (Topic m) + length (Payload m)"
  by (simp add: wire_def)

lemma wire_fitsD:
  assumes "wire_fits m"
  shows "length (Topic m) < 2 ^ 32" and "length (Payload m) < 2 ^ 32"
    and "unat (8 + word_of_nat (length (Topic m)) :: u32) = 8 + length (Topic m)"
    and "unat (8 + word_of_nat (length (Topic m)) + word_of_nat (length (Payload m)) + 4 :: u32)
         = 12 + length (Topic m) + length (Payload m)"
    and "unat (8 + word_of_nat (length (Topic m)) + word_of_nat (length (Payload m)) + 4 - 4 :: u32)
         = 8 + length (Topic m) + length (Payload m)"
  using assms by (simp_all add: wire_fits_def unat_word_ariths)

text \<open>A zero-filled buffer of the frame's size, cut at the frame's fields.\<close>

lemma replicate_frame:
  "replicate (12 + t + p) (0 :: byte) =
     replicate 4 0 @ replicate 4 0 @ replicate t 0 @ replicate p 0 @ replicate 4 0"
  by (simp flip: replicate_add add: ac_simps)

lemma put_frame:
  assumes "length T = t" and "length P = p"
  shows "go_bind (PutUint32 (replicate (12 + t + p) 0) 0 tn) (\<lambda>buf.
         go_bind (PutUint32 buf 4 pn) (\<lambda>buf.
         go_bind (copy_at buf 8 T) (\<lambda>buf.
         go_bind (copy_at buf (8 + t) P) (\<lambda>buf.
         go_bind (go_slice buf 0 (8 + t + p)) (\<lambda>data.
         PutUint32 buf (8 + t + p) (calculateCRC32 data))))))
       = Ret ((le_bytes tn @ le_bytes pn @ T @ P)
              @ le_bytes (calculateCRC32 (le_bytes tn @ le_bytes pn @ T @ P)))"
proof -
  let ?Z = "replicate :: nat \<Rightarrow> byte \<Rightarrow> byte list"
  have 1: "PutUint32 (?Z 4 0 @ ?Z 4 0 @ ?Z t 0 @ ?Z p 0 @ ?Z 4 0) 0 tn
      = Ret (le_bytes tn @ ?Z 4 0 @ ?Z t 0 @ ?Z p 0 @ ?Z 4 0)"
    using PutUint32_fits [of "[]" 0 "?Z 4 0"] by simp
  have 2: "PutUint32 (le_bytes tn @ ?Z 4 0 @ ?Z t 0 @ ?Z p 0 @ ?Z 4 0) 4 pn
      = Ret (le_bytes tn @ le_bytes pn @ ?Z t 0 @ ?Z p 0 @ ?Z 4 0)"
    by (rule PutUint32_fits) simp_all
  have 3: "copy_at (le_bytes tn @ le_bytes pn @ ?Z t 0 @ ?Z p 0 @ ?Z 4 0) 8 T
      = Ret (le_bytes tn @ le_bytes pn @ T @ ?Z p 0 @ ?Z 4 0)"
    using copy_at_fits [of "le_bytes tn @ le_bytes pn" "?Z t 0" 8 T] assms by simp
  have 4: "copy_at (le_bytes tn @ le_bytes pn @ T @ ?Z p 0 @ ?Z 4 0) (8 + t) P
      = Ret (le_bytes tn @ le_bytes pn @ T @ P @ ?Z 4 0)"
    using copy_at_fits [of "le_bytes tn @ le_bytes pn @ T" "?Z p 0" "8 + t" P] assms by simp
  have 5: "go_slice (le_bytes tn @ le_bytes pn @ T @ P @ ?Z 4 0) 0 (8 + t + p)
      = Ret (le_bytes tn @ le_bytes pn @ T @ P)"
    using assms by (simp add: go_slice_def)
  have 6: "PutUint32 (le_bytes tn @ le_bytes pn @ T @ P @ ?Z 4 0) (8 + t + p) c
      = Ret (le_bytes tn @ le_bytes pn @ T @ P @ le_bytes c)" for c
    using PutUint32_fits [of "le_bytes tn @ le_bytes pn @ T @ P" "8 + t + p" "?Z 4 0" "[]" c] assms
    by simp
  show ?thesis
    unfolding replicate_frame by (simp only: 1 2 3 4 5 6 go_bind.simps append_assoc)
qed

lemma write_frame_wire: "wire_fits m \<Longrightarrow> write_frame m = Ret (wire m)"
  unfolding write_frame_def Let_def
  by (simp only: wire_fitsD put_frame length_string_bytes wire_def wire_body_def)

lemma Encode_wire: "wire_fits m \<Longrightarrow> Topic m \<noteq> '''' \<Longrightarrow> Encode m = Ret (Inr (wire m))"
proof -
  assume fits: "wire_fits m" and ne: "Topic m \<noteq> ''''"
  have "Encode m = go_bind (write_frame m) (\<lambda>buf. Ret (Inr buf))"
    unfolding Encode_def write_frame_def Let_def
    by (simp only: ne if_False wire_fitsD [OF fits] go_bind_assoc unat_of_nat_u32)
  then show ?thesis
    using fits by (simp add: write_frame_wire)
qed

section \<open>Decoding\<close>

text \<open>The header of twelve bytes or more can always be read.\<close>

lemma header_read:
  assumes "12 \<le> length data"
  obtains tn pn where "go_bind (go_slice data 0 4) Uint32 = Ret tn"
    and "go_bind (go_slice data 4 8) Uint32 = Ret pn"
    and "take 8 data = le_bytes tn @ le_bytes pn"
proof -
  have "4 \<le> length (take 4 data)" and "4 \<le> length (take 4 (drop 4 data))"
    using assms by simp_all
  then obtain tn pn where tn: "Uint32 (take 4 data) = Ret tn" "take 4 (take 4 data) = le_bytes tn"
    and pn: "Uint32 (take 4 (drop 4 data)) = Ret pn" "take 4 (take 4 (drop 4 data)) = le_bytes pn"
    using Uint32_take by blast
  have "take 8 data = take 4 data @ take 4 (drop 4 data)"
    using take_add [of 4 4 data] by simp
  then show ?thesis
    using that [of tn pn] assms tn pn by (simp add: go_slice_def)
qed

text \<open>\<open>Decode\<close> on data that passes the length check, with the header and the trailer named.\<close>

lemma Decode_body:
  assumes hdr: "take 8 data = le_bytes tn @ le_bytes pn"
    and len: "12 \<le> length data" "length data < 2 ^ 32"
  shows "Decode data =
     (if word_of_nat (length data) \<noteq> 8 + tn + pn + 4 then Ret (Inl ErrInvalidMessage)
      else if drop (length data - 4) data \<noteq> le_bytes (calculateCRC32 (take (length data - 4) data))
      then Ret (Inl ErrCRCMismatch)
      else go_bind (go_slice data 8 (unat (8 + tn))) (\<lambda>topic.
           go_bind (go_slice data (unat (8 + tn)) (length data - 4)) (\<lambda>payload.
           Ret (Inr \<lparr>Topic = bytes_string topic, Payload = payload\<rparr>))))"
proof -
  obtain tn' pn' where h: "go_bind (go_slice data 0 4) Uint32 = Ret tn'"
      "go_bind (go_slice data 4 8) Uint32 = Ret pn'" "take 8 data = le_bytes tn' @ le_bytes pn'"
    using header_read [OF len(1)] .
  then have [simp]: "tn' = tn" "pn' = pn"
    using hdr by simp_all
  have "4 \<le> length (drop (length data - 4) data)"
    using len by simp
  then obtain rc where rc: "Uint32 (drop (length data - 4) data) = Ret rc"
      "drop (length data - 4) data = le_bytes rc"
    using Uint32_take [of "drop (length data - 4) data"] by auto
  have "\<not> length data < 12"
    using len by simp
  moreover have "unat (8 + tn + pn + 4 - 4) = length data - 4"
    if "word_of_nat (length data) = 8 + tn + pn + 4"
    unfolding that [symmetric] using len by (simp add: unat_sub_if' word_le_nat_alt)
  moreover have "go_slice data (length data - 4) (length data) = Ret (drop (length data - 4) data)"
    "go_slice data 0 (length data - 4) = Ret (take (length data - 4) data)"
    using len by (simp_all add: go_slice_def)
  ultimately show ?thesis
    unfolding Decode_def by (simp add: h rc Let_def)
qed

lemma Decode_wire: "wire_fits m \<Longrightarrow> Decode (wire m) = Ret (Inr m)"
proof -
  assume fits: "wire_fits m"
  let ?tn = "word_of_nat (length (Topic m)) :: u32" and ?pn = "word_of_nat (length (Payload m)) :: u32"
  have "take 8 (wire m) = le_bytes ?tn @ le_bytes ?pn"
    by (simp add: wire_def wire_body_def)
  moreover have "12 \<le> length (wire m)" "length (wire m) < 2 ^ 32"
    using fits by (simp_all add: wire_fits_def)
  moreover have "word_of_nat (length (wire m)) = 8 + ?tn + ?pn + 4"
    by (simp add: algebra_simps)
  moreover have "drop (length (wire m) - 4) (wire m) = le_bytes (calculateCRC32 (wire_body m))"
    "take (length (wire m) - 4) (wire m) = wire_body m"
    by (simp_all add: wire_def)
  moreover have "go_slice (wire m) 8 (8 + length (Topic m)) = Ret (string_bytes (Topic m))"
    "go_slice (wire m) (8 + length (Topic m)) (length (wire m) - 4) = Ret (Payload m)"
    by (simp_all add: go_slice_def wire_def wire_body_def)
  ultimately show ?thesis
    using Decode_body [of "wire m" ?tn ?pn] wire_fitsD(3) [OF fits] by simp
qed

text \<open>A frame determines its message.\<close>

lemma wire_inject: "wire_fits m \<Longrightarrow> wire m = wire m' \<longleftrightarrow> m = m'"
proof
  assume fits: "wire_fits m" and eq: "wire m = wire m'"
  have "length (wire m) < 2 ^ 32"
    using fits by (simp add: wire_fits_def)
  then have "wire_fits m'"
    unfolding eq by (simp add: wire_fits_def)
  then have "Decode (wire m) = Ret (Inr m')"
    unfolding eq by (rule Decode_wire)
  then show "m = m'"
    unfolding Decode_wire [OF fits] by simp
qed simp

lemma unat_8_plus: "unat (8 + tn :: u32) = (if 8 + unat tn < 2 ^ 32 then 8 + unat tn else 8 + unat tn - 2 ^ 32)"
proof -
  have "unat (8 + tn) = (8 + unat tn) mod 2 ^ 32"
    by (simp add: unat_word_ariths)
  then show ?thesis
    using unat_u32_less [of tn] by (simp add: mod_if)
qed

lemma unat_total:
  "unat (8 + tn + pn + 4 :: u32) = (12 + unat tn + unat pn) mod 2 ^ 32"
  by (simp add: unat_word_ariths mod_simps add.assoc)

lemma total_len_iff:
  fixes tn pn :: u32
  assumes "n < 2 ^ 32"
  shows "word_of_nat n = 8 + tn + pn + 4 \<longleftrightarrow> n = (12 + unat tn + unat pn) mod 2 ^ 32"
proof -
  have "word_of_nat n = 8 + tn + pn + 4 \<longleftrightarrow> unat (word_of_nat n :: u32) = unat (8 + tn + pn + 4)"
    by (simp only: word_unat_eq_iff)
  then show ?thesis
    using assms by (simp only: unat_total unat_of_nat_u32)
qed

lemma Decode_sound:
  assumes "Decode data = Ret (Inr m)" and "length data < 2 ^ 32"
  shows "data = wire m"
proof -
  have len: "12 \<le> length data"
    using assms(1) by (auto simp: Decode_def split: if_splits)
  obtain tn pn where hdr: "take 8 data = le_bytes tn @ le_bytes pn"
    using header_read [OF len] .
  let ?n = "length data" and ?a = "unat (8 + tn)"
  have D: "word_of_nat ?n = 8 + tn + pn + 4" "drop (?n - 4) data = le_bytes (calculateCRC32 (take (?n - 4) data))"
    "8 \<le> ?a" "?a \<le> ?n - 4"
    "m = \<lparr>Topic = bytes_string (take (?a - 8) (drop 8 data)), Payload = take (?n - 4 - ?a) (drop ?a data)\<rparr>"
    using assms(1) unfolding Decode_body [OF hdr len assms(2)]
    by (auto simp: go_slice_def split: if_splits)
  have a: "?a = 8 + unat tn"
    using D(3) unat_u32_less [of tn] by (auto simp: unat_8_plus split: if_splits)
  have n: "?n = 12 + unat tn + unat pn"
  proof -
    have "?n = (12 + unat tn + unat pn) mod 2 ^ 32"
      using D(1) assms(2) by (simp only: total_len_iff)
    then show ?thesis
      using D(4) len a unat_u32_less [of tn] unat_u32_less [of pn] by (simp add: mod_if split: if_splits)
  qed
  have "wire_body m = take (?n - 4) data"
  proof -
    have "take (?n - 4) data = take 8 data @ take (unat tn) (drop 8 data) @ take (unat pn) (drop (8 + unat tn) data)"
      using n by (simp add: take_add add.assoc [symmetric])
    then show ?thesis
      using D(5) a n by (simp add: wire_body_def hdr)
  qed
  then have "wire m = take (?n - 4) data @ drop (?n - 4) data"
    using D(2) by (simp only: wire_def)
  then show ?thesis
    by simp
qed

lemma Decode_burst_error:
  assumes "wire_fits m" and "wire m = pre @ xs @ post"
    and "length xs = length ys" and "length xs \<le> 4" and "xs \<noteq> ys"
  shows "Decode (pre @ ys @ post) \<in> {Ret (Inl ErrInvalidMessage), Ret (Inl ErrCRCMismatch)}"
proof -
  let ?d = "pre @ ys @ post"
  have "length ?d = length (wire m)"
    unfolding assms(2) using assms(3) by simp
  then have len: "12 \<le> length ?d" "length ?d < 2 ^ 32"
    using assms(1) by (simp_all add: wire_fits_def)
  obtain tn pn where hdr: "take 8 ?d = le_bytes tn @ le_bytes pn"
    using header_read [OF len(1)] .
  have "foldl crc_update 0xFFFFFFFF (wire m) = crc_residue"
    by (simp only: wire_def crc_residue_iff length_le_bytes)
  then have "foldl crc_update 0xFFFFFFFF ?d \<noteq> crc_residue"
    unfolding assms(2) by (rule crc_residue_burst [OF assms(3-5)])
  then have "drop (length ?d - 4) ?d \<noteq> le_bytes (calculateCRC32 (take (length ?d - 4) ?d))"
    using crc_residue_iff [of "drop (length ?d - 4) ?d" "take (length ?d - 4) ?d"] len
    by (simp only: append_take_drop_id length_drop) simp
  then show ?thesis
    unfolding Decode_body [OF hdr len] by simp
qed

text \<open>The length check holds with a wrapped sum exactly once around.\<close>

lemma wrapped_total:
  fixes tn pn :: u32
  assumes "12 \<le> n" "n < 2 ^ 32" and "2 ^ 32 \<le> 12 + unat tn + unat pn"
  shows "n = (12 + unat tn + unat pn) mod 2 ^ 32 \<longleftrightarrow> n + 2 ^ 32 = 12 + unat tn + unat pn"
  using assms unat_u32_less [of tn] unat_u32_less [of pn] by (simp add: mod_if) linarith

lemma Decode_panic_iff:
  assumes hdr: "take 8 data = le_bytes tn @ le_bytes pn"
    and len: "12 \<le> length data" "length data < 2 ^ 32"
  shows "Decode data = Panic \<longleftrightarrow>
     length data + 2 ^ 32 = 12 + unat tn + unat pn \<and>
     drop (length data - 4) data = le_bytes (calculateCRC32 (take (length data - 4) data))"
proof -
  let ?n = "length data"
  have slices: "go_bind (go_slice data 8 (unat (8 + tn))) (\<lambda>topic.
        go_bind (go_slice data (unat (8 + tn)) (?n - 4)) (\<lambda>payload.
        Ret (Inr \<lparr>Topic = bytes_string topic, Payload = payload\<rparr> :: go_error + message))) = Panic
      \<longleftrightarrow> ?n + 2 ^ 32 = 12 + unat tn + unat pn"
    if n: "?n = (12 + unat tn + unat pn) mod 2 ^ 32"
  proof (cases "2 ^ 32 \<le> 12 + unat tn + unat pn")
    case True
    then have "?n + 2 ^ 32 = 12 + unat tn + unat pn"
      using n wrapped_total [OF len True] by blast
    then show ?thesis
      using unat_u32_less [of tn] unat_u32_less [of pn]
      by (auto simp: go_simps go_slice_def unat_8_plus)
  next
    case False
    then show ?thesis
      using n by (auto simp: go_simps go_slice_def unat_8_plus)
  qed
  have "?n = (12 + unat tn + unat pn) mod 2 ^ 32" if "?n + 2 ^ 32 = 12 + unat tn + unat pn"
    using that len by (metis mod_add_self2 mod_less)
  then show ?thesis
    unfolding Decode_body [OF hdr len] total_len_iff [OF len(2)] using slices by auto
qed

section \<open>Properties\<close>

text \<open>C1. Round trip: a message with a non-empty topic whose frame fits in 32 bits is encoded to the
  documented layout, and decoding that gives the message back.\<close>

theorem Encode_Decode_roundtrip:
  assumes "wire_fits m" and "Topic m \<noteq> ''''"
  shows "Encode m = Ret (Inr (wire m)) \<and> Decode (wire m) = Ret (Inr m)"
  using assms Encode_wire Decode_wire by blast

theorem Encode_Decode_roundtrip_witness:
  "Encode \<lparr>Topic = ''temp'', Payload = [50]\<rparr> = Ret (Inr (wire \<lparr>Topic = ''temp'', Payload = [50]\<rparr>))
   \<and> Decode (wire \<lparr>Topic = ''temp'', Payload = [50]\<rparr>) = Ret (Inr \<lparr>Topic = ''temp'', Payload = [50]\<rparr>)"
  by (rule Encode_Decode_roundtrip) (simp_all add: wire_fits_def)

text \<open>C2. The decoder accepts nothing but frames: below 4 GiB, \<open>Decode\<close> returns a message exactly
  when the data is, byte for byte, the documented frame of that message.\<close>

theorem Decode_accepts_iff:
  assumes "length data < 2 ^ 32"
  shows "Decode data = Ret (Inr m) \<longleftrightarrow> data = wire m"
proof
  show "Decode data = Ret (Inr m) \<Longrightarrow> data = wire m"
    using assms Decode_sound by blast
  assume "data = wire m"
  moreover from this assms have "wire_fits m"
    by (simp add: wire_fits_def)
  ultimately show "Decode data = Ret (Inr m)"
    by (simp add: Decode_wire)
qed

theorem Decode_accepts_iff_witness:
  "Decode (wire \<lparr>Topic = ''t'', Payload = [7]\<rparr>) = Ret (Inr \<lparr>Topic = ''t'', Payload = [7]\<rparr>)"
  using Decode_accepts_iff [of "wire \<lparr>Topic = ''t'', Payload = [7]\<rparr>" "\<lparr>Topic = ''t'', Payload = [7]\<rparr>"]
  by simp

text \<open>C36. Corruption is reported: when at most four consecutive bytes of a frame are changed,
  anywhere in it (header, topic, payload or checksum), \<open>Decode\<close> returns \<open>ErrInvalidMessage\<close> or
  \<open>ErrCRCMismatch\<close>; it neither delivers a message nor panics.\<close>

theorem Decode_rejects_burst:
  assumes "wire_fits m" and "wire m = pre @ xs @ post"
    and "length xs = length ys" and "length xs \<le> 4" and "xs \<noteq> ys"
  shows "Decode (pre @ ys @ post) \<in> {Ret (Inl ErrInvalidMessage), Ret (Inl ErrCRCMismatch)}"
  using assms by (rule Decode_burst_error)

theorem Decode_rejects_burst_witness:
  "Decode ((le_bytes 1 @ le_bytes 1) @ [117, 7]
       @ le_bytes (calculateCRC32 (wire_body \<lparr>Topic = ''t'', Payload = [7]\<rparr>)))
     \<in> {Ret (Inl ErrInvalidMessage), Ret (Inl ErrCRCMismatch)}"
proof -
  let ?m = "\<lparr>Topic = ''t'', Payload = [7]\<rparr>"
  have w: "wire ?m = (le_bytes 1 @ le_bytes 1) @ [116, 7] @ le_bytes (calculateCRC32 (wire_body ?m))"
    by (simp add: wire_def wire_body_def string_bytes_def byte_of_char_def)
  have "wire_fits ?m"
    by (simp add: wire_fits_def)
  from Decode_rejects_burst [OF this w, of "[117, 7]"] show ?thesis
    by simp
qed

text \<open>C37. When \<open>Decode\<close> panics: exactly on data whose two header lengths overflow the 32-bit sum
  and whose checksum is right. Such data passes the length check, and the topic or the payload
  slice is then out of range. Twelve bytes are enough.\<close>

theorem Decode_panics_iff:
  assumes "take 8 data = le_bytes tn @ le_bytes pn" and "12 \<le> length data" and "length data < 2 ^ 32"
  shows "Decode data = Panic \<longleftrightarrow>
     length data + 2 ^ 32 = 12 + unat tn + unat pn \<and>
     drop (length data - 4) data = le_bytes (calculateCRC32 (take (length data - 4) data))"
  using assms by (rule Decode_panic_iff)

theorem Decode_panics_iff_witness:
  "Decode (le_bytes 0xFFFFFFFF @ le_bytes 1 @ le_bytes (calculateCRC32 (le_bytes 0xFFFFFFFF @ le_bytes 1)))
   = Panic"
  by (subst Decode_panics_iff [of _ "0xFFFFFFFF" 1]) simp_all

text \<open>\<open>writeMessage\<close> hands exactly the documented frame to the writer, in one call, and returns
  the writer's error, wherever the frame fits in 32 bits; it does so for an empty topic too, which
  \<open>Encode\<close> refuses. The hypothesis on the writer is the contract of \<open>io.Writer\<close>: it reports at
  most as many bytes as it was given.\<close>

theorem writeMessage_writes_wire:
  assumes "wire_fits m" and "wr w (wire m) = (n, err, w')" and "n \<le> length (wire m)"
  shows "writeMessage wr w m = Ret (err, w')"
  using assms by (simp add: writeMessage_def write_frame_wire)

theorem writeMessage_writes_wire_witness:
  "writeMessage (\<lambda>w bs. (length bs, None, w @ bs)) [1] \<lparr>Topic = '''', Payload = [7]\<rparr>
   = Ret (None, [1] @ wire \<lparr>Topic = '''', Payload = [7]\<rparr>)"
  by (rule writeMessage_writes_wire [OF _ refl]) (simp_all add: wire_fits_def)

end
