(* ===== verification/Qdp_Reader.thy ===== *)
theory Qdp_Reader
  imports Qdp_Message
begin

unbundle bit_operations_syntax

text \<open>
  \<open>MessageReader\<close> of \<open>lib/go/qdp.go\<close>: a 2048-byte buffer in front of an \<open>io.Reader\<close>, scanned for
  frames. The loop of \<open>ReadMessage\<close> is a step function on a program counter (the top of the outer
  loop, or the inner loop at a start position) and the reader's state, run with fuel; running out
  of fuel is \<open>None\<close>. The foreign \<open>io.Reader\<close> is a parameter; its contract is the locale \<open>io_reader\<close>.

  The payload of a message that \<open>ReadMessage\<close> returns is a slice of the reader's own buffer, so
  the model returns its position, and \<open>load\<close> reads it in a given state of the buffer.
\<close>

section \<open>Definitions\<close>

text \<open>\<open>rd s n\<close>: a call \<open>Read(p)\<close> with \<open>len(p) = n\<close>; the bytes stored at the front of \<open>p\<close>, the error,
  and the reader afterwards.\<close>

type_synonym 'r io_read = "'r \<Rightarrow> nat \<Rightarrow> byte list \<times> go_error option \<times> 'r"

definition maxTopicSize :: u32 where
  "maxTopicSize = 64"

definition maxMessageSize :: u32 where
  "maxMessageSize = 1024"

record 'r message_reader =
  reader :: 'r
  buffer :: "byte list"
  pos :: nat
  count :: nat

definition NewMessageReader :: "'r \<Rightarrow> 'r message_reader" where
  "NewMessageReader r = \<lparr>reader = r, buffer = replicate 2048 0, pos = 0, count = 0\<rparr>"

text \<open>A parsed message: the topic is a fresh string, the payload a slice of the buffer.\<close>

record parsed =
  parsed_topic :: string
  parsed_off :: nat
  parsed_len :: nat

definition load :: "'r message_reader \<Rightarrow> parsed \<Rightarrow> message" where
  "load r m = \<lparr>Topic = parsed_topic m,
               Payload = take (parsed_len m) (drop (parsed_off m) (buffer r))\<rparr>"

text \<open>\<open>readMore\<close>: the shift of unread data to the front, then one call of the reader. A reader that
  claims more bytes than it was given room for violates the contract of \<open>io.Reader\<close>; the debug log
  of the received bytes is then out of range.\<close>

definition shift_buffer :: "'r message_reader \<Rightarrow> 'r message_reader go" where
  "shift_buffer r =
     (if length (buffer r) div 2 < count r then
        go_bind (go_slice (buffer r) (pos r) (count r)) (\<lambda>unread.
        go_bind (copy_at (buffer r) 0 unread) (\<lambda>buf.
        Ret (r\<lparr>buffer := buf, count := count r - pos r, pos := 0\<rparr>)))
      else Ret r)"

definition readMore :: "'r io_read \<Rightarrow> 'r message_reader \<Rightarrow> (go_error option \<times> 'r message_reader) go" where
  "readMore rd r =
     go_bind (shift_buffer r) (\<lambda>r.
     go_bind (go_slice (buffer r) (count r) (length (buffer r))) (\<lambda>p.
     let (bs, err, s) = rd (reader r) (length p) in
     if length p < length bs then Panic
     else
       go_bind (copy_at (buffer r) (count r) bs) (\<lambda>buf.
       let r = r\<lparr>reader := s, buffer := buf\<rparr> in
       if 0 < length bs then Ret (None, r\<lparr>count := count r + length bs\<rparr>)
       else Ret (err, r))))"

definition maxInt :: "int \<Rightarrow> int \<Rightarrow> int" where
  "maxInt a b = (if b < a then a else b)"

definition tryParseMessage ::
  "'r message_reader \<Rightarrow> nat \<Rightarrow> nat \<Rightarrow> (go_error + parsed) go" where
  "tryParseMessage r start totalLen =
     (if count r < start + totalLen then Ret (Inl ErrInvalidMessage)
      else
        go_bind (go_slice (buffer r) start (start + totalLen)) (\<lambda>data.
        go_bind (go_bind (go_slice data (totalLen - 4) (length data)) Uint32) (\<lambda>receivedCRC.
        go_bind (go_slice data 0 (totalLen - 4)) (\<lambda>body.
        if receivedCRC \<noteq> calculateCRC32 body then Ret (Inl ErrCRCMismatch)
        else
          go_bind (go_bind (go_slice data 0 4) Uint32) (\<lambda>topicLen.
          go_bind (go_bind (go_slice data 4 8) Uint32) (\<lambda>payloadLen.
          if maxTopicSize < topicLen \<or> maxMessageSize < payloadLen then Ret (Inl ErrInvalidMessage)
          else
            go_bind (go_slice data 8 (unat (8 + topicLen))) (\<lambda>topic.
            go_bind (go_slice data (unat (8 + topicLen)) (totalLen - 4)) (\<lambda>payload.
            Ret (Inr \<lparr>parsed_topic = bytes_string topic,
                      parsed_off = start + unat (8 + topicLen),
                      parsed_len = length payload\<rparr>)))))))))"

text \<open>One step of \<open>ReadMessage\<close>: from the top of the outer loop to the inner loop (\<open>outer_step\<close>),
  or one round of the inner loop, whose exit runs the rest of the outer loop's body
  (\<open>scan_step\<close>).\<close>

datatype reader_pc = Outer | Scan nat

datatype 'r read_outcome =
    Continue reader_pc "'r message_reader"
  | Return "go_error + parsed" "'r message_reader"
  | Crash

definition outer_step :: "'r io_read \<Rightarrow> 'r message_reader \<Rightarrow> 'r read_outcome" where
  "outer_step rd r =
     (if count r < pos r + 8 then
        (case readMore rd r of
           Panic \<Rightarrow> Crash
         | Ret (Some err, r) \<Rightarrow>
             if count r < pos r + 8 then Return (Inl err) r else Continue (Scan (pos r)) r
         | Ret (None, r) \<Rightarrow> Continue (Scan (pos r)) r)
      else Continue (Scan (pos r)) r)"

definition scan_header :: "byte list \<Rightarrow> nat \<Rightarrow> (u32 \<times> u32) go" where
  "scan_header buf startPos =
     go_bind (go_bind (go_slice buf startPos (length buf)) Uint32) (\<lambda>topicLen.
     go_bind (go_bind (go_slice buf (startPos + 4) (length buf)) Uint32) (\<lambda>payloadLen.
     Ret (topicLen, payloadLen)))"

definition scan_step :: "'r io_read \<Rightarrow> nat \<Rightarrow> 'r message_reader \<Rightarrow> 'r read_outcome" where
  "scan_step rd startPos r =
     (if startPos + 8 \<le> count r then
        (case scan_header (buffer r) startPos of
           Panic \<Rightarrow> Crash
         | Ret (topicLen, payloadLen) \<Rightarrow>
             if topicLen \<le> maxTopicSize \<and> payloadLen \<le> maxMessageSize then
               (let totalLen = unat (8 + topicLen + payloadLen + 4) in
                if startPos + totalLen \<le> count r then
                  (case tryParseMessage r startPos totalLen of
                     Panic \<Rightarrow> Crash
                   | Ret (Inr msg) \<Rightarrow> Return (Inr msg) (r\<lparr>pos := startPos + totalLen\<rparr>)
                   | Ret (Inl _) \<Rightarrow> Continue (Scan (startPos + 1)) r)
                else
                  (case readMore rd r of
                     Panic \<Rightarrow> Crash
                   | Ret (Some err, r) \<Rightarrow>
                       if count r < startPos + totalLen then Return (Inl err) r
                       else Continue (Scan startPos) r
                   | Ret (None, r) \<Rightarrow> Continue (Scan startPos) r))
             else Continue (Scan (startPos + 1)) r)
      else if count r \<le> startPos + 8 then
        (case readMore rd (r\<lparr>pos := nat (maxInt (int (count r) - 8) 0)\<rparr>) of
           Panic \<Rightarrow> Crash
         | Ret (Some err, r) \<Rightarrow> Return (Inl err) r
         | Ret (None, r) \<Rightarrow> Continue Outer r)
      else Continue Outer r)"

fun read_step :: "'r io_read \<Rightarrow> reader_pc \<Rightarrow> 'r message_reader \<Rightarrow> 'r read_outcome" where
  "read_step rd Outer r = outer_step rd r"
| "read_step rd (Scan startPos) r = scan_step rd startPos r"

fun read_run :: "nat \<Rightarrow> 'r io_read \<Rightarrow> reader_pc \<Rightarrow> 'r message_reader
     \<Rightarrow> ((go_error + parsed) \<times> 'r message_reader) go option" where
  "read_run 0 rd pc r = None"
| "read_run (Suc fuel) rd pc r =
     (case read_step rd pc r of
        Continue pc' r' \<Rightarrow> read_run fuel rd pc' r'
      | Return res r' \<Rightarrow> Some (Ret (res, r'))
      | Crash \<Rightarrow> Some Panic)"

definition ReadMessage :: "nat \<Rightarrow> 'r io_read \<Rightarrow> 'r message_reader
     \<Rightarrow> ((go_error + parsed) \<times> 'r message_reader) go option" where
  "ReadMessage fuel rd r = read_run fuel rd Outer r"

section \<open>The buffer\<close>

definition reader_inv :: "'r message_reader \<Rightarrow> bool" where
  "reader_inv r \<longleftrightarrow> length (buffer r) = 2048 \<and> pos r \<le> count r \<and> count r \<le> 2048"

text \<open>The bytes received and not yet consumed.\<close>

definition unread :: "'r message_reader \<Rightarrow> byte list" where
  "unread r = drop (pos r) (take (count r) (buffer r))"

lemma reader_inv_new [simp]: "reader_inv (NewMessageReader s)"
  by (simp add: reader_inv_def NewMessageReader_def)

lemma length_unread: "reader_inv r \<Longrightarrow> length (unread r) = count r - pos r"
  by (simp add: reader_inv_def unread_def)

lemma copy_at_front: "length src \<le> length buf \<Longrightarrow> copy_at buf 0 src = Ret (src @ drop (length src) buf)"
  by (simp add: copy_at_def)

text \<open>The bytes in use after the shift that precedes a read.\<close>

definition kept :: "'r message_reader \<Rightarrow> nat" where
  "kept r = (if 1024 < count r then count r - pos r else count r)"

lemma shift_buffer_ok:
  assumes "reader_inv r"
  shows "\<exists>r'. shift_buffer r = Ret r' \<and> reader_inv r' \<and> unread r' = unread r
    \<and> reader r' = reader r \<and> count r' = kept r
    \<and> pos r' = (if 1024 < count r then 0 else pos r)
    \<and> (count r \<le> 1024 \<longrightarrow> r' = r)
    \<and> (1024 < count r \<longrightarrow> buffer r' = unread r @ drop (length (unread r)) (buffer r))"
proof (cases "1024 < count r")
  case True
  let ?r = "r\<lparr>buffer := unread r @ drop (length (unread r)) (buffer r), count := count r - pos r, pos := 0\<rparr>"
  have "go_slice (buffer r) (pos r) (count r) = Ret (unread r)"
    using assms by (simp add: go_slice_def reader_inv_def unread_def take_drop)
  moreover have "copy_at (buffer r) 0 (unread r) = Ret (unread r @ drop (length (unread r)) (buffer r))"
    using assms length_unread [OF assms] by (intro copy_at_front) (auto simp: reader_inv_def)
  ultimately have s: "shift_buffer r = Ret ?r"
    using assms True by (simp add: shift_buffer_def reader_inv_def)
  have "reader_inv ?r"
    using assms length_unread [OF assms] by (auto simp: reader_inv_def)
  moreover have "unread ?r = unread r"
    unfolding unread_def [of ?r] using length_unread [OF assms] by simp
  ultimately show ?thesis
    using s True by (intro exI [of _ ?r]) (simp add: kept_def)
next
  case False
  then have "shift_buffer r = Ret r"
    using assms by (simp add: shift_buffer_def reader_inv_def)
  with False assms show ?thesis
    by (intro exI [of _ r]) (simp add: kept_def)
qed

lemma readMore_ok:
  assumes "reader_inv r" and "rd (reader r) (2048 - kept r) = (bs, err, s)" and "length bs \<le> 2048 - kept r"
  shows "\<exists>r'. readMore rd r = Ret (if bs = [] then err else None, r') \<and> reader_inv r'
    \<and> unread r' = unread r @ bs \<and> reader r' = s \<and> count r' = kept r + length bs
    \<and> pos r' = (if 1024 < count r then 0 else pos r)
    \<and> (count r \<le> 1024 \<longrightarrow> buffer r' = take (count r) (buffer r) @ bs @ drop (count r + length bs) (buffer r))
    \<and> (1024 < count r \<longrightarrow> buffer r' = unread r @ bs @ drop (length (unread r) + length bs) (buffer r))"
proof -
  obtain q where q: "shift_buffer r = Ret q" "reader_inv q" "unread q = unread r" "reader q = reader r"
      "count q = kept r" "pos q = (if 1024 < count r then 0 else pos r)"
      "count r \<le> 1024 \<Longrightarrow> q = r"
      "1024 < count r \<Longrightarrow> buffer q = unread r @ drop (length (unread r)) (buffer r)"
    using shift_buffer_ok [OF assms(1)] by blast
  let ?b = "take (count q) (buffer q) @ bs @ drop (count q + length bs) (buffer q)"
  let ?r = "q\<lparr>reader := s, buffer := ?b, count := count q + length bs\<rparr>"
  have len: "length (buffer q) = 2048" "pos q \<le> count q" "count q \<le> 2048"
    using q(2) by (simp_all add: reader_inv_def)
  have "go_slice (buffer q) (count q) (length (buffer q)) = Ret (drop (count q) (buffer q))"
    using len by (simp add: go_slice_def)
  moreover have "copy_at (buffer q) (count q) bs = Ret ?b"
    using len assms(3) q(5) by (simp add: copy_at_def)
  ultimately have "readMore rd r = Ret (if bs = [] then err else None, ?r)"
    using q assms(2,3) len by (simp add: readMore_def Let_def)
  moreover have "reader_inv ?r"
    using len assms(3) q(5) by (simp add: reader_inv_def)
  moreover have "unread ?r = unread q @ bs"
    using len assms(3) q(5) by (simp add: unread_def)
  moreover have "?b = unread r @ bs @ drop (length (unread r) + length bs) (buffer r)" if "1024 < count r"
    using that q(8) len q(5) length_unread [OF assms(1)] by (simp add: kept_def add.commute)
  ultimately show ?thesis
    using q by (intro exI [of _ ?r]) simp
qed

section \<open>The contract of io.Reader\<close>

text \<open>What \<open>MessageReader\<close> relies on: a read stores at most \<open>len(p)\<close> bytes. \<open>ok\<close> is the invariant of
  the underlying reader.\<close>

locale io_reader =
  fixes rd :: "'r io_read" and ok :: "'r \<Rightarrow> bool"
  assumes read_fits: "ok s \<Longrightarrow> rd s n = (bs, err, s') \<Longrightarrow> length bs \<le> n"
    and read_ok: "ok s \<Longrightarrow> rd s n = (bs, err, s') \<Longrightarrow> ok s'"
begin

lemma readMore_ret:
  assumes "reader_inv r" and "ok (reader r)"
  obtains err r' where "readMore rd r = Ret (err, r')" and "reader_inv r'" and "ok (reader r')"
proof -
  obtain bs err s where rd: "rd (reader r) (2048 - kept r) = (bs, err, s)"
    by (cases "rd (reader r) (2048 - kept r)") auto
  have "length bs \<le> 2048 - kept r" and "ok s"
    using read_fits read_ok assms(2) rd by blast+
  with assms(1) rd that show ?thesis
    using readMore_ok [of r rd bs err s] by blast
qed

end

section \<open>Headers and frames in the buffer\<close>

lemma Uint32_prefix: "4 \<le> length xs \<Longrightarrow> Uint32 (xs @ ys) = Uint32 xs"
  by (cases xs rule: Uint32.cases) auto

lemma scan_header_ok:
  assumes "length buf = 2048" and "s + 8 \<le> 2048"
  obtains tn pn where "scan_header buf s = Ret (tn, pn)" and "take 8 (drop s buf) = le_bytes tn @ le_bytes pn"
proof -
  have "4 \<le> length (drop s buf)" "4 \<le> length (drop (s + 4) buf)"
    using assms by simp_all
  then obtain tn pn where t: "Uint32 (drop s buf) = Ret tn" "take 4 (drop s buf) = le_bytes tn"
    and p: "Uint32 (drop (s + 4) buf) = Ret pn" "take 4 (drop (s + 4) buf) = le_bytes pn"
    using Uint32_take by blast
  have "scan_header buf s = Ret (tn, pn)"
    using assms t p by (simp add: scan_header_def go_slice_def)
  moreover have "take 8 (drop s buf) = le_bytes tn @ le_bytes pn"
    using t p take_add [of 4 4 "drop s buf"] by (simp add: add.commute)
  ultimately show ?thesis
    by (rule that)
qed

text \<open>A header the scan takes seriously, and the length of the frame it announces.\<close>

definition plausible :: "u32 \<Rightarrow> u32 \<Rightarrow> bool" where
  "plausible tn pn \<longleftrightarrow> tn \<le> maxTopicSize \<and> pn \<le> maxMessageSize"

lemma plausible_bounds:
  assumes "plausible tn pn"
  shows "unat tn \<le> 64" and "unat pn \<le> 1024"
    and "unat (8 + tn) = 8 + unat tn" and "unat (8 + tn + pn + 4) = 12 + unat tn + unat pn"
proof -
  show t: "unat tn \<le> 64" and p: "unat pn \<le> 1024"
    using assms by (simp_all add: plausible_def maxTopicSize_def maxMessageSize_def word_le_nat_alt)
  show "unat (8 + tn) = 8 + unat tn"
    using t by (simp add: unat_8_plus)
  show "unat (8 + tn + pn + 4) = 12 + unat tn + unat pn"
    using t p by (simp only: unat_total) simp
qed

text \<open>The frame announced by a plausible header, when it lies within the received bytes.\<close>

definition frame_at :: "'r message_reader \<Rightarrow> nat \<Rightarrow> nat \<Rightarrow> byte list" where
  "frame_at r s n = take n (drop s (buffer r))"

lemma Decode_plausible:
  assumes "plausible tn pn" and "take 8 data = le_bytes tn @ le_bytes pn"
    and "length data = 12 + unat tn + unat pn"
  shows "Decode data =
     (if drop (length data - 4) data \<noteq> le_bytes (calculateCRC32 (take (length data - 4) data))
      then Ret (Inl ErrCRCMismatch)
      else Ret (Inr \<lparr>Topic = bytes_string (take (unat tn) (drop 8 data)),
                     Payload = take (unat pn) (drop (8 + unat tn) data)\<rparr>))"
proof -
  note b = plausible_bounds [OF assms(1)]
  have len: "12 \<le> length data" "length data < 2 ^ 32"
    using assms(3) b by simp_all
  have "word_of_nat (length data) = 8 + tn + pn + 4"
    unfolding total_len_iff [OF len(2)] using assms(3) len by simp
  moreover have "go_slice data 8 (unat (8 + tn)) = Ret (take (unat tn) (drop 8 data))"
    "go_slice data (unat (8 + tn)) (length data - 4) = Ret (take (unat pn) (drop (8 + unat tn) data))"
    using b assms(3) by (simp_all add: go_slice_def)
  ultimately show ?thesis
    unfolding Decode_body [OF assms(2) len] by simp
qed

text \<open>On a frame within the size limits the reader's parser agrees with \<open>Decode\<close>.\<close>

lemma tryParse_Decode:
  assumes inv: "reader_inv r" and p: "plausible tn pn"
    and hdr: "take 8 (drop s (buffer r)) = le_bytes tn @ le_bytes pn"
    and n: "n = 12 + unat tn + unat pn" and fits: "s + n \<le> count r"
  shows "tryParseMessage r s n =
     (case Decode (frame_at r s n) of
        Ret (Inr m) \<Rightarrow> Ret (Inr \<lparr>parsed_topic = Topic m, parsed_off = s + 8 + length (Topic m),
                                parsed_len = length (Payload m)\<rparr>)
      | Ret (Inl e) \<Rightarrow> Ret (Inl e)
      | Panic \<Rightarrow> Panic)"
proof -
  let ?F = "frame_at r s n"
  note b = plausible_bounds [OF p]
  have len: "length ?F = n" and whole: "go_slice (buffer r) s (s + n) = Ret ?F"
    using inv fits by (auto simp: frame_at_def reader_inv_def go_slice_def)
  have h8: "take 8 ?F = le_bytes tn @ le_bytes pn"
    unfolding hdr [symmetric] using n by (simp add: frame_at_def min_def)
  have "12 \<le> length ?F"
    using len n by simp
  then have h: "go_bind (go_slice ?F 0 4) Uint32 = Ret tn" "go_bind (go_slice ?F 4 8) Uint32 = Ret pn"
    using header_read [of ?F] h8 by (metis append_eq_append_conv le_bytes_inject length_le_bytes)+
  have "4 \<le> length (drop (n - 4) ?F)"
    using len n by simp
  then obtain rc where rc: "Uint32 (drop (n - 4) ?F) = Ret rc" "drop (n - 4) ?F = le_bytes rc"
    using Uint32_take [of "drop (n - 4) ?F"] len n by auto
  have sl: "go_slice ?F (n - 4) n = Ret (drop (n - 4) ?F)"
    "go_slice ?F 0 (n - 4) = Ret (take (n - 4) ?F)"
    "go_slice ?F 8 (8 + unat tn) = Ret (take (unat tn) (drop 8 ?F))"
    "go_slice ?F (8 + unat tn) (n - 4) = Ret (take (unat pn) (drop (8 + unat tn) ?F))"
    using len n by (simp_all add: go_slice_def)
  have "\<not> count r < s + n" "\<not> (maxTopicSize < tn \<or> maxMessageSize < pn)"
    using fits p by (auto simp: plausible_def)
  then have "tryParseMessage r s n =
     (if drop (n - 4) ?F \<noteq> le_bytes (calculateCRC32 (take (n - 4) ?F)) then Ret (Inl ErrCRCMismatch)
      else Ret (Inr \<lparr>parsed_topic = bytes_string (take (unat tn) (drop 8 ?F)),
                     parsed_off = s + 8 + unat tn, parsed_len = unat pn\<rparr>))"
    unfolding tryParseMessage_def whole using h rc sl len n b by simp
  then show ?thesis
    using Decode_plausible [OF p h8] len n by simp
qed

section \<open>What a step of ReadMessage guarantees\<close>

text \<open>The exit of the inner loop keeps the last eight bytes.\<close>

lemma keep_last_eight: "nat (maxInt (int n - 8) 0) = n - 8"
  by (auto simp: maxInt_def)

lemma scan_step_exit:
  "\<not> s + 8 \<le> count r \<Longrightarrow> scan_step rd s r =
     (case readMore rd (r\<lparr>pos := count r - 8\<rparr>) of
        Panic \<Rightarrow> Crash
      | Ret (Some err, r) \<Rightarrow> Return (Inl err) r
      | Ret (None, r) \<Rightarrow> Continue Outer r)"
  unfolding scan_step_def keep_last_eight by simp

text \<open>A message that was just returned: its frame lies in the buffer right before \<open>pos\<close>, byte for
  byte as \<open>wire\<close> lays it out, and its sizes are within the limits.\<close>

definition delivered :: "'r message_reader \<Rightarrow> parsed \<Rightarrow> bool" where
  "delivered r msg \<longleftrightarrow>
     (let m = load r msg; n = length (wire m) in
      n \<le> pos r \<and> take n (drop (pos r - n) (buffer r)) = wire m \<and>
      length (Topic m) \<le> 64 \<and> length (Payload m) \<le> 1024)"

fun good_outcome :: "('r \<Rightarrow> bool) \<Rightarrow> 'r read_outcome \<Rightarrow> bool" where
  "good_outcome ok (Continue pc r) \<longleftrightarrow> reader_inv r \<and> ok (reader r)"
| "good_outcome ok (Return (Inl e) r) \<longleftrightarrow> reader_inv r \<and> ok (reader r)"
| "good_outcome ok (Return (Inr m) r) \<longleftrightarrow> reader_inv r \<and> ok (reader r) \<and> delivered r m"
| "good_outcome ok Crash \<longleftrightarrow> False"

lemma parse_outcome:
  assumes inv: "reader_inv r" and p: "plausible tn pn"
    and hdr: "take 8 (drop s (buffer r)) = le_bytes tn @ le_bytes pn"
    and n: "n = 12 + unat tn + unat pn" and fits: "s + n \<le> count r"
  shows "tryParseMessage r s n = Ret (Inl ErrCRCMismatch) \<or>
     (\<exists>msg. tryParseMessage r s n = Ret (Inr msg) \<and> frame_at r s n = wire (load r msg) \<and>
        delivered (r\<lparr>pos := s + n\<rparr>) msg)"
proof -
  let ?F = "frame_at r s n"
  note b = plausible_bounds [OF p]
  have len: "length ?F = n" "length (buffer r) = 2048" "s + n \<le> 2048"
    using inv fits by (auto simp: frame_at_def reader_inv_def)
  have h8: "take 8 ?F = le_bytes tn @ le_bytes pn"
    unfolding hdr [symmetric] using n by (simp add: frame_at_def min_def)
  consider "Decode ?F = Ret (Inl ErrCRCMismatch)" | m where "Decode ?F = Ret (Inr m)"
    using Decode_plausible [OF p h8] len(1) n by (auto split: if_splits)
  then show ?thesis
  proof cases
    case 1
    then show ?thesis
      using tryParse_Decode [OF assms] by simp
  next
    case (2 m)
    then have F: "?F = wire m"
      using Decode_sound len(1) n b by simp
    have "m = \<lparr>Topic = bytes_string (take (unat tn) (drop 8 ?F)),
        Payload = take (unat pn) (drop (8 + unat tn) ?F)\<rparr>"
      using 2 Decode_plausible [OF p h8] len(1) n by (auto split: if_splits)
    then have sz: "length (Topic m) = unat tn" "length (Payload m) = unat pn"
      using len(1) n by simp_all
    define msg where "msg = \<lparr>parsed_topic = Topic m, parsed_off = s + 8 + length (Topic m),
        parsed_len = length (Payload m)\<rparr>"
    have "Payload m = take (length (Payload m)) (drop (8 + length (Topic m)) ?F)"
      by (simp add: F wire_def wire_body_def)
    also have "\<dots> = take (length (Payload m)) (drop (s + 8 + length (Topic m)) (buffer r))"
      using sz n by (simp add: frame_at_def drop_take add.commute add.left_commute)
    finally have "load r msg = m"
      by (simp add: load_def msg_def)
    moreover from this have "load (r\<lparr>pos := s + n\<rparr>) msg = m"
      by (simp add: load_def)
    moreover have "tryParseMessage r s n = Ret (Inr msg)"
      using tryParse_Decode [OF assms] 2 by (simp add: msg_def)
    ultimately show ?thesis
      using F len n sz b by (auto simp: delivered_def Let_def frame_at_def)
  qed
qed

context io_reader
begin

lemma outer_step_good:
  assumes "reader_inv r" and "ok (reader r)"
  shows "good_outcome ok (outer_step rd r)"
proof (cases "count r < pos r + 8")
  case True
  obtain err r' where "readMore rd r = Ret (err, r')" "reader_inv r'" "ok (reader r')"
    using readMore_ret [OF assms] .
  then show ?thesis
    by (cases err) (simp_all add: outer_step_def True)
qed (simp add: outer_step_def assms)

lemma scan_step_good:
  assumes inv: "reader_inv r" and okr: "ok (reader r)"
  shows "good_outcome ok (scan_step rd s r)"
proof (cases "s + 8 \<le> count r")
  case True
  then obtain tn pn where h: "scan_header (buffer r) s = Ret (tn, pn)"
      "take 8 (drop s (buffer r)) = le_bytes tn @ le_bytes pn"
    using inv scan_header_ok [of "buffer r" s] by (auto simp: reader_inv_def)
  show ?thesis
  proof (cases "plausible tn pn")
    case p: True
    let ?n = "12 + unat tn + unat pn"
    note b = plausible_bounds [OF p]
    obtain err r' where more: "readMore rd r = Ret (err, r')" "reader_inv r'" "ok (reader r')"
      using readMore_ret [OF assms] .
    show ?thesis
    proof (cases "s + ?n \<le> count r")
      case fits: True
      have "reader_inv (r\<lparr>pos := s + ?n\<rparr>)"
        using inv fits by (simp add: reader_inv_def)
      then show ?thesis
        using parse_outcome [OF inv p h(2) refl fits] True h p b fits assms
        by (auto simp: scan_step_def plausible_def Let_def)
    next
      case False
      then show ?thesis
        using True h p b more
        by (cases err) (auto simp: scan_step_def plausible_def Let_def)
    qed
  next
    case False
    then show ?thesis
      using True h assms by (auto simp: scan_step_def plausible_def)
  qed
next
  case False
  let ?r = "r\<lparr>pos := count r - 8\<rparr>"
  have "reader_inv ?r" "ok (reader ?r)"
    using assms by (auto simp: reader_inv_def)
  then obtain err r' where "readMore rd ?r = Ret (err, r')" "reader_inv r'" "ok (reader r')"
    by (rule readMore_ret)
  then show ?thesis
    using False by (cases err) (simp_all add: scan_step_exit)
qed

lemma read_step_good:
  "reader_inv r \<Longrightarrow> ok (reader r) \<Longrightarrow> good_outcome ok (read_step rd pc r)"
  by (cases pc) (simp_all add: outer_step_good scan_step_good)

lemma read_run_good:
  assumes "reader_inv r" and "ok (reader r)" and "read_run fuel rd pc r = Some out"
  shows "\<exists>res r'. out = Ret (res, r') \<and> good_outcome ok (Return res r')"
  using assms
proof (induction fuel arbitrary: pc r)
  case (Suc fuel)
  then show ?case
    using read_step_good [OF Suc.prems(1,2), of pc]
    by (cases "read_step rd pc r") auto
qed simp

end

section \<open>Runs\<close>

lemma read_run_Continue:
  "read_step rd pc r = Continue pc' r' \<Longrightarrow> read_run (Suc fuel) rd pc r = read_run fuel rd pc' r'"
  by simp

lemma read_run_Return:
  "read_step rd pc r = Return res r' \<Longrightarrow> read_run (Suc fuel) rd pc r = Some (Ret (res, r'))"
  by simp

lemma read_run_mono: "read_run fuel rd pc r = Some out \<Longrightarrow> read_run (fuel + k) rd pc r = Some out"
proof (induction fuel arbitrary: pc r)
  case (Suc fuel)
  then show ?case
    by (cases "read_step rd pc r") auto
qed simp

text \<open>A message within the limits the reader enforces.\<close>

definition within_limits :: "message \<Rightarrow> bool" where
  "within_limits m \<longleftrightarrow> length (Topic m) \<le> 64 \<and> length (Payload m) \<le> 1024"

lemma within_limits_fits: "within_limits m \<Longrightarrow> wire_fits m"
  by (simp add: within_limits_def wire_fits_def)

lemma within_limits_length: "within_limits m \<Longrightarrow> 12 \<le> length (wire m) \<and> length (wire m) \<le> 1100"
  by (simp add: within_limits_def)

abbreviation topic_len :: "message \<Rightarrow> u32" where
  "topic_len m \<equiv> word_of_nat (length (Topic m))"

abbreviation payload_len :: "message \<Rightarrow> u32" where
  "payload_len m \<equiv> word_of_nat (length (Payload m))"

lemma within_limits_header:
  assumes "within_limits m"
  shows "plausible (topic_len m) (payload_len m)"
    and "12 + unat (topic_len m) + unat (payload_len m) = length (wire m)"
  using assms
  by (simp_all add: within_limits_def plausible_def maxTopicSize_def maxMessageSize_def word_le_nat_alt)

lemma take_8_wire: "take 8 (wire m) = le_bytes (topic_len m) @ le_bytes (payload_len m)"
  by (simp add: wire_def wire_body_def)

text \<open>The inner loop at the start of a message whose header has arrived.\<close>

lemma scan_step_at_message:
  assumes inv: "reader_inv r" and lim: "within_limits m" and s: "s + 8 \<le> count r"
    and pre: "take 8 (drop s (buffer r)) = take 8 (wire m)"
  shows "scan_step rd s r =
     (if s + length (wire m) \<le> count r then
        (case tryParseMessage r s (length (wire m)) of
           Panic \<Rightarrow> Crash
         | Ret (Inr msg) \<Rightarrow> Return (Inr msg) (r\<lparr>pos := s + length (wire m)\<rparr>)
         | Ret (Inl _) \<Rightarrow> Continue (Scan (s + 1)) r)
      else
        (case readMore rd r of
           Panic \<Rightarrow> Crash
         | Ret (Some err, r) \<Rightarrow>
             if count r < s + length (wire m) then Return (Inl err) r else Continue (Scan s) r
         | Ret (None, r) \<Rightarrow> Continue (Scan s) r))"
proof -
  let ?tn = "topic_len m" and ?pn = "payload_len m"
  have "s + 8 \<le> 2048" "length (buffer r) = 2048"
    using inv s by (simp_all add: reader_inv_def)
  then obtain tn pn where "scan_header (buffer r) s = Ret (tn, pn)"
      "take 8 (drop s (buffer r)) = le_bytes tn @ le_bytes pn"
    using scan_header_ok by metis
  then have h: "scan_header (buffer r) s = Ret (?tn, ?pn)"
    using pre take_8_wire [of m] by simp
  have p: "plausible ?tn ?pn" and "unat (8 + ?tn + ?pn + 4) = length (wire m)"
    using within_limits_header [OF lim] plausible_bounds(4) by metis+
  then show ?thesis
    unfolding scan_step_def h using s p by (simp only: plausible_def Let_def if_True go.case prod.case simp_thms)
qed

lemma scan_step_complete_message:
  assumes inv: "reader_inv r" and lim: "within_limits m" and s: "s + length (wire m) \<le> count r"
    and frame: "frame_at r s (length (wire m)) = wire m"
  shows "\<exists>msg. scan_step rd s r = Return (Inr msg) (r\<lparr>pos := s + length (wire m)\<rparr>) \<and> load r msg = m"
proof -
  let ?n = "length (wire m)"
  have pre: "take 8 (drop s (buffer r)) = take 8 (wire m)"
    using arg_cong [OF frame, of "take 8"] by (simp add: frame_at_def min_def)
  have try_eq: "tryParseMessage r s ?n = Ret (Inr \<lparr>parsed_topic = Topic m,
      parsed_off = s + 8 + length (Topic m), parsed_len = length (Payload m)\<rparr>)"
    using tryParse_Decode [OF inv within_limits_header(1) [OF lim] _ within_limits_header(2) [OF lim, symmetric] s]
      pre take_8_wire [of m] frame Decode_wire [OF within_limits_fits [OF lim]] by simp
  then obtain msg where msg: "tryParseMessage r s ?n = Ret (Inr msg)"
    by blast
  have "wire (load r msg) = wire m"
    using parse_outcome [OF inv within_limits_header(1) [OF lim] _ within_limits_header(2) [OF lim, symmetric] s]
      pre take_8_wire [of m] msg frame by auto
  then have "load r msg = m"
    using wire_inject within_limits_fits [OF lim] by metis
  moreover have "s + 8 \<le> count r"
    using s by simp
  ultimately show ?thesis
    using scan_step_at_message [OF inv lim _ pre] s msg by simp
qed

section \<open>Frames already in the buffer\<close>

lemma frame_at_unread:
  assumes "reader_inv r" and "unread r = w @ rest"
  shows "pos r + length w \<le> count r" and "frame_at r (pos r) (length w) = w"
proof -
  have "length w + length rest = count r - pos r"
    using length_unread [OF assms(1)] assms(2) by simp
  then show len: "pos r + length w \<le> count r"
    using assms(1) by (auto simp: reader_inv_def)
  have "w = take (length w) (unread r)"
    by (simp add: assms(2))
  also have "\<dots> = frame_at r (pos r) (length w)"
    using len by (simp add: unread_def frame_at_def drop_take min_def)
  finally show "frame_at r (pos r) (length w) = w"
    by simp
qed

lemma unread_advance:
  assumes "reader_inv r" and "unread r = w @ rest"
  shows "unread (r\<lparr>pos := pos r + length w\<rparr>) = rest" and "reader_inv (r\<lparr>pos := pos r + length w\<rparr>)"
proof -
  have "unread (r\<lparr>pos := pos r + length w\<rparr>) = drop (length w) (unread r)"
    by (simp add: unread_def add.commute)
  then show "unread (r\<lparr>pos := pos r + length w\<rparr>) = rest"
    by (simp add: assms(2))
  show "reader_inv (r\<lparr>pos := pos r + length w\<rparr>)"
    using assms(1) frame_at_unread(1) [OF assms] by (simp add: reader_inv_def)
qed

lemma load_pos [simp]: "load (r\<lparr>pos := p\<rparr>) msg = load r msg"
  by (simp add: load_def)

lemma ReadMessage_buffered:
  assumes "reader_inv r" and "within_limits m" and "unread r = wire m @ rest"
  shows "\<exists>msg. ReadMessage (Suc (Suc fuel)) rd r = Some (Ret (Inr msg, r\<lparr>pos := pos r + length (wire m)\<rparr>))
     \<and> load r msg = m"
proof -
  note f = frame_at_unread [OF assms(1,3)]
  obtain msg where msg: "scan_step rd (pos r) r = Return (Inr msg) (r\<lparr>pos := pos r + length (wire m)\<rparr>)"
      "load r msg = m"
    using scan_step_complete_message [OF assms(1,2) f] by blast
  have "\<not> count r < pos r + 8"
    using f(1) by simp
  then have "read_step rd Outer r = Continue (Scan (pos r)) r"
    by (simp add: outer_step_def)
  then show ?thesis
    using msg by (simp add: ReadMessage_def)
qed

text \<open>Successive calls: the messages, each as it reads when its call returns.\<close>

fun read_many :: "nat \<Rightarrow> nat \<Rightarrow> 'r io_read \<Rightarrow> 'r message_reader \<Rightarrow> (message list \<times> 'r message_reader) option" where
  "read_many fuel 0 rd r = Some ([], r)"
| "read_many fuel (Suc k) rd r =
     (case ReadMessage fuel rd r of
        Some (Ret (Inr msg, r')) \<Rightarrow> map_option (\<lambda>(ms, q). (load r' msg # ms, q)) (read_many fuel k rd r')
      | _ \<Rightarrow> None)"

lemma read_many_buffered:
  assumes "reader_inv r" and "\<forall>m \<in> set ms. within_limits m" and "unread r = concat (map wire ms) @ rest"
  shows "\<exists>r'. read_many (Suc (Suc fuel)) (length ms) rd r = Some (ms, r') \<and> reader_inv r' \<and>
     unread r' = rest \<and> reader r' = reader r"
  using assms
proof (induction ms arbitrary: r)
  case (Cons m ms)
  let ?r = "r\<lparr>pos := pos r + length (wire m)\<rparr>"
  have u: "unread r = wire m @ concat (map wire ms) @ rest"
    using Cons.prems(3) by simp
  obtain msg where msg: "ReadMessage (Suc (Suc fuel)) rd r = Some (Ret (Inr msg, ?r))" "load r msg = m"
    using ReadMessage_buffered [OF Cons.prems(1) _ u] Cons.prems(2) by auto
  obtain r' where "read_many (Suc (Suc fuel)) (length ms) rd ?r = Some (ms, r')" "reader_inv r'"
      "unread r' = rest" "reader r' = reader ?r"
    using Cons.IH [of ?r] Cons.prems(2) unread_advance [OF Cons.prems(1) u] by auto
  then show ?case
    using msg by simp
qed simp

section \<open>A connection that delivers segments\<close>

text \<open>
  A stream connection as the reader sees it: the peer's bytes arrive in segments; a read takes
  what is there, up to the room it has; a read into an empty slice returns at once with nothing
  (as \<open>net.Conn\<close> does); after the last segment comes \<open>io.EOF\<close>.
\<close>

fun segments_read :: "byte list list io_read" where
  "segments_read segs n =
     (if n = 0 then ([], None, segs)
      else case segs of
        [] \<Rightarrow> ([], Some EOF, [])
      | c # cs \<Rightarrow> (take n c, None, if length c \<le> n then cs else drop n c # cs))"

declare segments_read.simps [simp del]

interpretation segments: io_reader segments_read "\<lambda>_. True"
  by unfold_locales (auto simp: segments_read.simps split: if_splits list.splits)

lemma segments_read_some:
  assumes "segs \<noteq> []" and "[] \<notin> set segs" and "0 < n"
  obtains bs segs' where "segments_read segs n = (bs, None, segs')" and "bs \<noteq> []" and "length bs \<le> n"
    and "concat segs = bs @ concat segs'" and "[] \<notin> set segs'"
proof -
  obtain c cs where s: "segs = c # cs"
    using assms(1) by (cases segs) auto
  show ?thesis
  proof (cases "length c \<le> n")
    case True
    then show ?thesis
      using that [of c cs] assms s by (auto simp: segments_read.simps)
  next
    case False
    then show ?thesis
      using that [of "take n c" "drop n c # cs"] assms s by (auto simp: segments_read.simps)
  qed
qed

text \<open>One read from a connection with data, seen from the reader: the data moves from the segments
  to the unread bytes.\<close>

lemma readMore_segments:
  assumes "reader_inv r" and "reader r \<noteq> []" and "[] \<notin> set (reader r)" and "kept r < 2048"
  obtains r' where "readMore segments_read r = Ret (None, r')" and "reader_inv r'"
    and "unread r' @ concat (reader r') = unread r @ concat (reader r)" and "[] \<notin> set (reader r')"
    and "length (concat (reader r')) < length (concat (reader r))"
    and "pos r' = (if 1024 < count r then 0 else pos r)"
    and "count r' + length (concat (reader r')) = kept r + length (concat (reader r))"
proof -
  obtain bs segs' where rd: "segments_read (reader r) (2048 - kept r) = (bs, None, segs')" "bs \<noteq> []"
      "length bs \<le> 2048 - kept r" "concat (reader r) = bs @ concat segs'" "[] \<notin> set segs'"
    using segments_read_some [OF assms(2,3), of "2048 - kept r"] assms(4) by auto
  obtain r' where "readMore segments_read r = Ret (None, r')" "reader_inv r'"
    "unread r' = unread r @ bs" "reader r' = segs'" "count r' = kept r + length bs"
    "pos r' = (if 1024 < count r then 0 else pos r)"
    using readMore_ok [of r segments_read, OF assms(1) rd(1,3)] rd(2) by auto
  then show ?thesis
    using that [of r'] rd by simp
qed

lemma readMore_segments_end:
  assumes "reader_inv r" and "reader r = []" and "kept r < 2048"
  obtains r' where "readMore segments_read r = Ret (Some EOF, r')" and "reader_inv r'"
    and "unread r' = unread r" and "pos r' = (if 1024 < count r then 0 else pos r)" and "count r' = kept r"
proof -
  have "segments_read (reader r) (2048 - kept r) = ([], Some EOF, [])"
    using assms by (simp add: segments_read.simps)
  then show ?thesis
    using readMore_ok [OF assms(1), of segments_read "[]" "Some EOF" "[]"] that by auto
qed

text \<open>Enough fuel makes the run return message \<open>m\<close>, with \<open>rest\<close> left of the stream.\<close>

definition yields :: "reader_pc \<Rightarrow> byte list list message_reader \<Rightarrow> message \<Rightarrow> byte list \<Rightarrow> bool" where
  "yields pc r m rest \<longleftrightarrow> (\<exists>fuel msg r'. read_run fuel segments_read pc r = Some (Ret (Inr msg, r')) \<and>
     load r' msg = m \<and> unread r' @ concat (reader r') = rest \<and> reader_inv r')"

lemma yields_Continue:
  "read_step segments_read pc r = Continue pc' r' \<Longrightarrow> yields pc' r' m rest \<Longrightarrow> yields pc r m rest"
  unfolding yields_def by (metis read_run_Continue)

lemma yields_buffered:
  assumes "reader_inv r" and "pos r = s" and "within_limits m"
    and "unread r @ concat (reader r) = wire m @ rest" and "length (wire m) \<le> length (unread r)"
  shows "yields (Scan s) r m rest"
proof -
  obtain u where u: "unread r = wire m @ u" "u @ concat (reader r) = rest"
    using append_eq_longer [OF assms(4,5)] by blast
  obtain msg where "scan_step segments_read s r = Return (Inr msg) (r\<lparr>pos := s + length (wire m)\<rparr>)"
      "load r msg = m"
    using scan_step_complete_message [OF assms(1,3)] frame_at_unread [OF assms(1) u(1)] assms(2) by metis
  moreover have "unread (r\<lparr>pos := s + length (wire m)\<rparr>) = u" "reader_inv (r\<lparr>pos := s + length (wire m)\<rparr>)"
    using unread_advance [OF assms(1) u(1)] assms(2) by simp_all
  ultimately show ?thesis
    unfolding yields_def using u(2)
    by (intro exI [of _ "Suc 0"] exI [of _ msg] exI [of _ "r\<lparr>pos := s + length (wire m)\<rparr>"]) simp
qed

text \<open>The inner loop waits at a message whose header is complete until the rest has arrived. As long
  as the message starts the buffer, the shift in \<open>readMore\<close> leaves its position alone.\<close>

lemma scan_waits:
  assumes "reader_inv r" and "pos r = 0" and "within_limits m"
    and "unread r @ concat (reader r) = wire m @ rest" and "[] \<notin> set (reader r)"
    and "8 \<le> count r" and "count r < length (wire m)"
  obtains r' where "read_step segments_read (Scan 0) r = Continue (Scan 0) r'" and "reader_inv r'"
    and "pos r' = 0" and "unread r' @ concat (reader r') = wire m @ rest" and "[] \<notin> set (reader r')"
    and "length (concat (reader r')) < length (concat (reader r))"
proof -
  have cnt: "length (unread r) = count r"
    using length_unread [OF assms(1)] assms(2) by simp
  have "take (count r) (unread r @ concat (reader r)) = take (count r) (wire m @ rest)"
    using assms(4) by simp
  then have "unread r = take (count r) (wire m)"
    using cnt assms(7) by simp
  then have "take 8 (take (count r) (buffer r)) = take 8 (take (count r) (wire m))"
    using assms(2) by (simp add: unread_def)
  then have "take 8 (buffer r) = take 8 (wire m)"
    using assms(6) by (simp add: min.absorb1)
  then have st: "scan_step segments_read 0 r =
      (case readMore segments_read r of
         Panic \<Rightarrow> Crash
       | Ret (Some err, r) \<Rightarrow>
           if count r < 0 + length (wire m) then Return (Inl err) r else Continue (Scan 0) r
       | Ret (None, r) \<Rightarrow> Continue (Scan 0) r)"
    using scan_step_at_message [OF assms(1,3), of 0] assms(6,7) by simp
  have "reader r \<noteq> []"
    using assms(4,7) cnt by (metis append_Nil2 concat.simps(1) length_append not_add_less1)
  moreover have "kept r < 2048"
    using assms(2,7) within_limits_length [OF assms(3)] by (simp add: kept_def)
  ultimately obtain r' where "readMore segments_read r = Ret (None, r')" "reader_inv r'"
      "unread r' @ concat (reader r') = unread r @ concat (reader r)" "[] \<notin> set (reader r')"
      "length (concat (reader r')) < length (concat (reader r))" "pos r' = (if 1024 < count r then 0 else pos r)"
    using readMore_segments [OF assms(1) _ assms(5)] by metis
  then show ?thesis
    using that [of r'] st assms(2,4) by simp
qed

lemma yields_segmented:
  assumes "reader_inv r" and "pos r = 0" and "within_limits m"
    and "unread r @ concat (reader r) = wire m @ rest" and "[] \<notin> set (reader r)"
  shows "yields (Scan 0) r m rest \<and> yields Outer r m rest"
  using assms
proof (induction "length (concat (reader r))" arbitrary: r rule: less_induct)
  case less
  have cnt: "length (unread r) = count r"
    using length_unread [OF less.prems(1)] less.prems(2) by simp
  have more: "\<exists>r'. readMore segments_read r = Ret (None, r') \<and> pos r' = 0 \<and>
      yields (Scan 0) r' m rest \<and> yields Outer r' m rest" if "count r < 8"
  proof -
    have "reader r \<noteq> []"
    proof
      assume "reader r = []"
      then have "length (unread r) = length (wire m) + length rest"
        using less.prems(4) by (metis append_Nil2 concat.simps(1) length_append)
      then show False
        using cnt that by simp
    qed
    moreover have "kept r < 2048"
      using that by (simp add: kept_def)
    ultimately obtain r' where r': "readMore segments_read r = Ret (None, r')" "reader_inv r'"
        "unread r' @ concat (reader r') = unread r @ concat (reader r)" "[] \<notin> set (reader r')"
        "length (concat (reader r')) < length (concat (reader r))" "pos r' = (if 1024 < count r then 0 else pos r)"
      using readMore_segments [OF less.prems(1) _ less.prems(5)] by metis
    then show ?thesis
      using less.hyps [OF r'(5,2)] less.prems by simp
  qed
  have scan: "yields (Scan 0) r m rest"
  proof -
    consider "length (wire m) \<le> count r" | "8 \<le> count r" "count r < length (wire m)" | "count r < 8"
      by linarith
    then show ?thesis
    proof cases
      case 1
      then show ?thesis
        using yields_buffered [OF less.prems(1-4)] cnt by simp
    next
      case 2
      then obtain r' where r': "read_step segments_read (Scan 0) r = Continue (Scan 0) r'" "reader_inv r'"
        "pos r' = 0" "unread r' @ concat (reader r') = wire m @ rest" "[] \<notin> set (reader r')"
        "length (concat (reader r')) < length (concat (reader r))"
        by (rule scan_waits [OF less.prems])
      then show ?thesis
        using less.hyps [OF r'(6,2,3) less.prems(3) r'(4,5)] yields_Continue by blast
    next
      case 3
      have "r\<lparr>pos := count r - 8\<rparr> = r"
        using 3 less.prems(2) by simp
      then show ?thesis
        using 3 more yields_Continue [of "Scan 0" r Outer] by (auto simp: scan_step_exit)
    qed
  qed
  moreover have "yields Outer r m rest"
    using scan more less.prems(2) yields_Continue [of Outer r "Scan 0"]
    by (cases "count r < 8") (auto simp: outer_step_def)
  ultimately show ?case ..
qed

section \<open>One frame per segment\<close>

lemma ReadMessage_aligned:
  assumes "reader_inv r" and "pos r = count r" and "within_limits m" and "length (wire m) \<le> 1024"
    and "reader r = wire m # segs"
  shows "\<exists>msg r'. ReadMessage (Suc (Suc fuel)) segments_read r = Some (Ret (Inr msg, r')) \<and>
     load r' msg = m \<and> reader_inv r' \<and> pos r' = count r' \<and> reader r' = segs"
proof -
  have u: "unread r = []" and k: "kept r \<le> 1024"
    using assms(1,2) by (auto simp: unread_def kept_def reader_inv_def)
  have fits: "length (wire m) \<le> 2048 - kept r"
    using k assms(4) by linarith
  then have "segments_read (reader r) (2048 - kept r) = (wire m, None, segs)"
    using k assms(5) by (simp add: segments_read.simps)
  then obtain q where q: "readMore segments_read r = Ret (None, q)" "reader_inv q" "unread q = wire m @ []"
      "reader q = segs"
    using readMore_ok [of r segments_read "wire m" None segs] assms(1) fits u by auto
  note f = frame_at_unread [OF q(2,3)]
  let ?q = "q\<lparr>pos := pos q + length (wire m)\<rparr>"
  obtain msg where "scan_step segments_read (pos q) q = Return (Inr msg) ?q" "load q msg = m"
    using scan_step_complete_message [OF q(2) assms(3) f] by blast
  moreover have "read_step segments_read Outer r = Continue (Scan (pos q)) q"
    using q(1) assms(2) by (simp add: outer_step_def)
  moreover have "pos q + length (wire m) = count q"
    using length_unread [OF q(2)] q(3) f(1) by simp
  ultimately show ?thesis
    using q unread_advance [OF q(2,3)]
    by (intro exI [of _ msg] exI [of _ ?q]) (simp add: ReadMessage_def)
qed

lemma read_many_aligned:
  assumes "reader_inv r" and "pos r = count r" and "\<forall>m \<in> set ms. within_limits m \<and> length (wire m) \<le> 1024"
    and "reader r = map wire ms @ segs"
  shows "\<exists>r'. read_many (Suc (Suc fuel)) (length ms) segments_read r = Some (ms, r') \<and> reader r' = segs"
  using assms
proof (induction ms arbitrary: r)
  case (Cons m ms)
  then obtain msg q where "ReadMessage (Suc (Suc fuel)) segments_read r = Some (Ret (Inr msg, q))"
      "load q msg = m" "reader_inv q" "pos q = count q" "reader q = map wire ms @ segs"
    using ReadMessage_aligned [OF Cons.prems(1,2), of m "map wire ms @ segs" fuel] by auto
  then show ?case
    using Cons.IH [of q] Cons.prems(3) by auto
qed simp

section \<open>Termination\<close>

definition returns :: "reader_pc \<Rightarrow> byte list list message_reader \<Rightarrow> bool" where
  "returns pc r \<longleftrightarrow> (\<exists>fuel out. read_run fuel segments_read pc r = Some out)"

lemma returns_Continue: "read_step segments_read pc r = Continue pc' r' \<Longrightarrow> returns pc' r' \<Longrightarrow> returns pc r"
  unfolding returns_def by (metis read_run_Continue)

lemma returns_stop: "read_step segments_read pc r = Return res r' \<Longrightarrow> returns pc r"
  unfolding returns_def by (metis read_run_Return)

definition pc_rank :: "reader_pc \<Rightarrow> nat" where
  "pc_rank pc = (case pc of Outer \<Rightarrow> 2049 | Scan s \<Rightarrow> 2048 - s)"

text \<open>Every step returns, or moves forward in the scan, or takes bytes from the connection, as long
  as the buffer cannot fill up.\<close>

abbreviation roomy :: "byte list list message_reader \<Rightarrow> bool" where
  "roomy r \<equiv> reader_inv r \<and> [] \<notin> set (reader r) \<and> count r + length (concat (reader r)) < 2048"

abbreviation left :: "byte list list message_reader \<Rightarrow> nat" where
  "left r \<equiv> length (concat (reader r))"

lemma kept_le: "kept r \<le> count r"
  by (simp add: kept_def)

lemma readMore_roomy:
  assumes "roomy r"
  shows "(\<exists>r'. readMore segments_read r = Ret (None, r') \<and> roomy r' \<and> left r' < left r) \<or>
     (\<exists>r'. readMore segments_read r = Ret (Some EOF, r') \<and> count r' = kept r \<and>
        pos r' = (if 1024 < count r then 0 else pos r))"
proof -
  have inv: "reader_inv r" and ne: "[] \<notin> set (reader r)" and room: "kept r < 2048"
    using assms kept_le [of r] by auto
  show ?thesis
  proof (cases "reader r = []")
    case True
    from readMore_segments_end [OF inv this room] show ?thesis
      by blast
  next
    case False
    from readMore_segments [OF inv this ne room] show ?thesis
      using assms kept_le [of r] by (metis (no_types, lifting) add_le_mono1 le_less_trans)
  qed
qed

definition progress :: "reader_pc \<Rightarrow> byte list list message_reader \<Rightarrow> bool" where
  "progress pc r \<longleftrightarrow>
     (\<exists>res r'. read_step segments_read pc r = Return res r') \<or>
     (\<exists>pc' r'. read_step segments_read pc r = Continue pc' r' \<and> roomy r' \<and>
        (left r' < left r \<or> left r' = left r \<and> pc_rank pc' < pc_rank pc))"

lemma outer_progress: "roomy r \<Longrightarrow> progress Outer r"
  unfolding progress_def using readMore_roomy [of r]
  by (cases "count r < pos r + 8") (auto simp: outer_step_def pc_rank_def kept_def)

lemma scan_progress:
  assumes "roomy r"
  shows "progress (Scan s) r"
proof (cases "s + 8 \<le> count r")
  case True
  then obtain tn pn where h: "scan_header (buffer r) s = Ret (tn, pn)"
      "take 8 (drop s (buffer r)) = le_bytes tn @ le_bytes pn"
    using assms scan_header_ok [of "buffer r" s] by (auto simp: reader_inv_def)
  have rank: "pc_rank (Scan (s + 1)) < pc_rank (Scan s)"
    using True assms by (auto simp: pc_rank_def)
  show ?thesis
  proof (cases "plausible tn pn")
    case p: True
    let ?n = "12 + unat tn + unat pn"
    note b = plausible_bounds [OF p]
    show ?thesis
    proof (cases "s + ?n \<le> count r")
      case fits: True
      then show ?thesis
        using parse_outcome [of r tn pn s ?n] assms p h(2) True h b rank
        by (auto simp: progress_def scan_step_def plausible_def Let_def)
    next
      case False
      then show ?thesis
        using readMore_roomy [OF assms] True h p b kept_le [of r]
        by (auto simp: progress_def scan_step_def plausible_def Let_def)
    qed
  next
    case False
    then show ?thesis
      using True h assms rank by (auto simp: progress_def scan_step_def plausible_def)
  qed
next
  case False
  let ?r = "r\<lparr>pos := count r - 8\<rparr>"
  have "roomy ?r"
    using assms by (auto simp: reader_inv_def)
  from readMore_roomy [OF this] show ?thesis
    using False by (auto simp: progress_def scan_step_exit)
qed

lemma returns_roomy: "roomy r \<Longrightarrow> returns pc r"
proof (induction "(left r, pc_rank pc)" arbitrary: pc r rule: wf_induct_rule [OF wf_lex_prod [OF wf_less wf_less]])
  case (1 pc r)
  have "progress pc r"
    using 1(2) outer_progress scan_progress by (cases pc) auto
  then consider res r' where "read_step segments_read pc r = Return res r'"
    | pc' r' where "read_step segments_read pc r = Continue pc' r'" "roomy r'"
        "left r' < left r \<or> left r' = left r \<and> pc_rank pc' < pc_rank pc"
    unfolding progress_def by blast
  then show ?case
  proof cases
    case 1
    then show ?thesis by (rule returns_stop)
  next
    case (2 pc' r')
    then have "returns pc' r'"
      using 1(1) [of r' pc'] by auto
    with 2(1) show ?thesis by (rule returns_Continue)
  qed
qed

text \<open>A reader that only reports errors, as that of a closed connection: the scan of the buffered
  bytes ends at the first read.\<close>

definition dead :: "'r io_read \<Rightarrow> 'r \<Rightarrow> bool" where
  "dead rd s \<longleftrightarrow> (\<forall>n. \<exists>err s'. rd s n = ([], Some err, s'))"

lemma readMore_dead:
  assumes "reader_inv r" and "dead rd (reader r)"
  obtains err r' where "readMore rd r = Ret (Some err, r')" and "count r' \<le> count r"
    and "count r' - pos r' = count r - pos r"
proof -
  obtain err s where "rd (reader r) (2048 - kept r) = ([], Some err, s)"
    using assms(2) unfolding dead_def by blast
  then show ?thesis
    using that readMore_ok [OF assms(1), of rd "[]" "Some err" s] kept_le [of r] by (auto simp: kept_def)
qed

lemma scan_dead:
  assumes "reader_inv r" and "dead rd (reader r)"
  shows "scan_step rd s r = Crash \<or> (\<exists>res r'. scan_step rd s r = Return res r') \<or>
     scan_step rd s r = Continue (Scan (s + 1)) r \<and> s + 8 \<le> count r"
proof (cases "s + 8 \<le> count r")
  case True
  obtain err r' where "readMore rd r = Ret (Some err, r')" "count r' \<le> count r"
    using readMore_dead [OF assms] by blast
  with True show ?thesis
    by (auto simp: scan_step_def Let_def split: go.splits sum.splits prod.splits)
next
  case False
  have inv: "reader_inv (r\<lparr>pos := count r - 8\<rparr>)" and d: "dead rd (reader (r\<lparr>pos := count r - 8\<rparr>))"
    using assms by (auto simp: reader_inv_def)
  from readMore_dead [OF inv d] obtain err r' where "readMore rd (r\<lparr>pos := count r - 8\<rparr>) = Ret (Some err, r')"
    by blast
  with False show ?thesis
    by (simp add: scan_step_exit)
qed

lemma scan_run_dead:
  assumes "reader_inv r" and "dead rd (reader r)"
  shows "2048 < s + fuel \<Longrightarrow> 0 < fuel \<Longrightarrow> \<exists>out. read_run fuel rd (Scan s) r = Some out"
proof (induction fuel arbitrary: s)
  case (Suc fuel)
  consider "scan_step rd s r = Crash" | res r' where "scan_step rd s r = Return res r'"
    | "scan_step rd s r = Continue (Scan (s + 1)) r" "s + 8 \<le> count r"
    using scan_dead [OF assms, of s] by blast
  then show ?case
  proof cases
    case 3
    have "s + 8 \<le> 2048"
      using 3(2) assms(1) by (simp add: reader_inv_def)
    then show ?thesis
      using Suc.IH [of "s + 1"] Suc.prems(1) 3(1) by simp
  qed auto
qed simp

lemma ReadMessage_dead:
  assumes "reader_inv r" and "dead rd (reader r)"
  shows "\<exists>out. ReadMessage (Suc (2049 + fuel)) rd r = Some out"
proof (cases "count r < pos r + 8")
  case True
  obtain err r' where "readMore rd r = Ret (Some err, r')" "count r' - pos r' = count r - pos r"
    using readMore_dead [OF assms] by blast
  moreover from this(2) have "count r' < pos r' + 8"
    using True by simp
  ultimately show ?thesis
    using True unfolding ReadMessage_def read_run.simps by (simp add: outer_step_def)
next
  case False
  then show ?thesis
    using scan_run_dead [OF assms, of "pos r" "2049 + fuel"]
    unfolding ReadMessage_def read_run.simps by (simp add: outer_step_def)
qed

section \<open>A full buffer\<close>

lemma readMore_full:
  assumes "reader_inv r" and "pos r = 0" and "count r = 2048" and "rd (reader r) 0 = ([], None, reader r)"
  shows "readMore rd r = Ret (None, r)"
proof -
  have k: "kept r = 2048"
    using assms(2,3) by (simp add: kept_def)
  then obtain r' where r': "readMore rd r = Ret (None, r')" "reader r' = reader r" "count r' = 2048" "pos r' = 0"
      "buffer r' = unread r @ drop (length (unread r)) (buffer r)"
    using readMore_ok [OF assms(1), of rd "[]" None "reader r"] assms by auto
  have "buffer r' = buffer r"
    using r'(5) assms(1-3) by (simp add: unread_def reader_inv_def)
  then have "r' = r"
    using r' assms(2,3) by (intro message_reader.equality) simp_all
  with r'(1) show ?thesis
    by simp
qed

text \<open>The inner loop stays where it is: there is no room left for the rest of the frame it waits for.\<close>

lemma scan_stuck:
  assumes "reader_inv r" and "pos r = 0" and "count r = 2048" and "rd (reader r) 0 = ([], None, reader r)"
    and "scan_header (buffer r) s = Ret (tn, pn)" and "plausible tn pn" and "s + 8 \<le> 2048"
    and "2048 < s + 12 + unat tn + unat pn"
  shows "scan_step rd s r = Continue (Scan s) r"
  using readMore_full [of r rd] assms plausible_bounds(4) [OF assms(6)]
  by (simp add: scan_step_def plausible_def Let_def)

lemma scan_skip:
  assumes "scan_header (buffer r) s = Ret (tn, pn)" and "\<not> plausible tn pn" and "s + 8 \<le> count r"
  shows "scan_step rd s r = Continue (Scan (s + 1)) r"
  using assms by (auto simp: scan_step_def plausible_def)

lemma read_run_stuck:
  assumes "scan_step rd s r = Continue (Scan s) r"
    and "\<And>k. k < s \<Longrightarrow> scan_step rd k r = Continue (Scan (k + 1)) r" and "k \<le> s"
  shows "read_run fuel rd (Scan k) r = None"
  using assms(3)
proof (induction fuel arbitrary: k)
  case (Suc fuel)
  then show ?case
    using assms(1,2) by (cases "k = s") simp_all
qed simp

text \<open>2048 bytes that stop the reader for good: no frame, but a plausible header at the very end.\<close>

definition poison :: "byte list" where
  "poison = replicate 2040 255 @ replicate 8 0"

lemma length_poison [simp]: "length poison = 2048"
  by (simp add: poison_def)

lemma poison_header_skip:
  assumes "k < 2040" and "take 8 (drop k poison) = le_bytes tn @ le_bytes pn"
  shows "\<not> plausible tn pn"
proof -
  have "hd (take 8 (drop k poison)) = poison ! k"
    using assms(1) by (simp add: hd_drop_conv_nth)
  also have "\<dots> = 255"
    using assms(1) by (simp only: poison_def nth_append length_replicate nth_replicate if_True)
  finally have "(ucast tn :: byte) = 255"
    unfolding assms(2) by (simp add: le_bytes_def)
  then have "unat (ucast tn :: byte) = 255"
    by simp
  then have "unat tn mod 256 = 255"
    by (simp add: unsigned_ucast_eq take_bit_eq_mod)
  then have "64 < unat tn"
    by (cases "unat tn < 256") auto
  then show ?thesis
    using plausible_bounds(1) by (meson not_le)
qed

lemma poison_header_end: "scan_header poison 2040 = Ret (0, 0)"
proof -
  have z: "replicate 8 (0 :: byte) = le_bytes 0 @ le_bytes 0"
    by (simp add: le_bytes_def numeral_eq_Suc)
  have e: "drop 2040 poison = le_bytes 0 @ le_bytes 0"
    by (simp only: poison_def z [symmetric] drop_append_length length_replicate)
  moreover have "drop 2044 poison = drop 4 (drop 2040 poison)"
    by (simp only: drop_drop) simp
  ultimately have "drop 2040 poison = le_bytes 0 @ le_bytes 0" "drop 2044 poison = le_bytes 0"
    by simp_all
  then show ?thesis
    by (simp add: scan_header_def go_slice_def)
qed

lemma poison_never_returns: "ReadMessage fuel segments_read (NewMessageReader (poison # segs)) = None"
proof -
  let ?r = "NewMessageReader (poison # segs)"
  have r: "reader_inv ?r" "kept ?r = 2048 - 2048 + 0" "count ?r = 0" "pos ?r = 0" "unread ?r = []"
    by (simp_all add: NewMessageReader_def kept_def unread_def reader_inv_def)
  have "segments_read (reader ?r) (2048 - kept ?r) = (poison, None, segs)"
    by (simp add: NewMessageReader_def segments_read.simps kept_def)
  then obtain q where q: "readMore segments_read ?r = Ret (None, q)" "reader_inv q" "unread q = poison"
      "reader q = segs" "count q = 2048" "pos q = 0" "buffer q = poison @ drop 2048 (buffer ?r)"
    using readMore_ok [OF r(1), of segments_read poison None segs] r by auto
  have buf: "buffer q = poison"
    using q(7) by (simp add: NewMessageReader_def)
  have skip: "scan_step segments_read k q = Continue (Scan (k + 1)) q" if k: "k < 2040" for k
  proof -
    obtain tn pn where "scan_header (buffer q) k = Ret (tn, pn)"
        "take 8 (drop k (buffer q)) = le_bytes tn @ le_bytes pn"
      using scan_header_ok [of "buffer q" k] k buf by auto
    then show ?thesis
      using scan_skip [of q k tn pn] poison_header_skip [of k tn pn] k buf q(5) by simp
  qed
  have "plausible 0 0"
    by (simp add: plausible_def)
  then have stuck: "scan_step segments_read 2040 q = Continue (Scan 2040) q"
    using scan_stuck [OF q(2,6,5), of segments_read 2040 0 0] poison_header_end buf
    by (simp add: segments_read.simps)
  have "read_step segments_read Outer ?r = Continue (Scan 0) q"
    using q(1,6) r(3,4) by (simp add: outer_step_def)
  then have "ReadMessage (Suc f) segments_read ?r = None" for f
    using read_run_stuck [OF stuck skip, of 0 f] by (simp add: ReadMessage_def)
  then show ?thesis
    by (cases fuel) (simp_all add: ReadMessage_def)
qed

section \<open>The shift moves data under a waiting scan\<close>

text \<open>
  The inner loop keeps its start position across \<open>readMore\<close>. When the shift happens there, the
  unread bytes move to the front and the start position points past them: the frame is skipped,
  and all but the last eight unread bytes are dropped.
\<close>

lemma shift_loses_frame:
  assumes inv: "reader_inv r" and lim: "within_limits m" and cnt: "1024 < count r"
    and part: "unread r = take k (wire m)" "8 \<le> k" "k < length (wire m)"
    and far: "length (wire m) < pos r + 8" and rdr: "reader r = [drop k (wire m)]"
  shows "\<exists>r'. ReadMessage 4 segments_read r = Some (Ret (Inl EOF, r')) \<and>
     unread r' = drop (length (wire m) - 8) (wire m) \<and> reader r' = []"
proof -
  let ?n = "length (wire m)"
  have k: "length (unread r) = k" "count r = pos r + k" "kept r = k"
    using part(1,3) length_unread [OF inv] cnt inv by (auto simp: kept_def reader_inv_def)
  have n: "12 \<le> ?n" "?n \<le> 1100"
    using within_limits_length [OF lim] by simp_all
  have "take 8 (unread r) = take 8 (wire m)"
    using part by simp
  then have pre: "take 8 (drop (pos r) (buffer r)) = take 8 (wire m)"
    using k part(2) by (simp add: unread_def take_drop)
  have fits: "length (drop k (wire m)) \<le> 2048 - kept r"
    using k n by simp
  have "segments_read (reader r) (2048 - kept r) = (drop k (wire m), None, [])"
    using rdr k part(3) n by (simp add: segments_read.simps)
  then obtain q where q: "readMore segments_read r = Ret (None, q)" "reader_inv q" "unread q = wire m"
      "reader q = []" "count q = ?n" "pos q = 0"
    using readMore_ok [OF inv, of segments_read "drop k (wire m)" None "[]"] fits cnt k part n by auto
  let ?q = "q\<lparr>pos := count q - 8\<rparr>"
  have q': "reader_inv ?q" "kept ?q < 2048" "unread ?q = drop (?n - 8) (wire m)"
    using q n by (auto simp: reader_inv_def kept_def unread_def)
  then obtain p where p: "readMore segments_read ?q = Ret (Some EOF, p)" "unread p = drop (?n - 8) (wire m)"
    using readMore_segments_end [of ?q] q(4) by auto
  then have p3: "reader p = []"
    using readMore_ok [of ?q segments_read "[]" "Some EOF" "[]"] q' q(4) by (auto simp: segments_read.simps)
  have "read_step segments_read Outer r = Continue (Scan (pos r)) r"
    using k part(2) by (simp add: outer_step_def)
  moreover have "read_step segments_read (Scan (pos r)) r = Continue (Scan (pos r)) q"
    using scan_step_at_message [OF inv lim _ pre, of segments_read] k part q(1) by simp
  moreover have "read_step segments_read (Scan (pos r)) q = Return (Inl EOF) p"
    using far q(5) p(1) by (simp add: scan_step_exit)
  ultimately have "ReadMessage 4 segments_read r = Some (Ret (Inl EOF, p))"
    by (simp add: ReadMessage_def numeral_eq_Suc)
  with p(2) p3 show ?thesis
    by blast
qed

text \<open>A payload slice of an earlier message, after a shift.\<close>

lemma load_after_shift:
  assumes "reader_inv r" and "1024 < count r" and "parsed_off msg + parsed_len msg \<le> count r - pos r"
    and "rd (reader r) (2048 - kept r) = (bs, err, s)" and "length bs \<le> 2048 - kept r"
    and "readMore rd r = Ret (e, r')"
  shows "Payload (load r' msg) = take (parsed_len msg) (drop (pos r + parsed_off msg) (buffer r))"
proof -
  have "buffer r' = unread r @ bs @ drop (length (unread r) + length bs) (buffer r)"
    using readMore_ok [of r rd, OF assms(1,4,5)] assms(2,6) by auto
  then have "Payload (load r' msg) = take (parsed_len msg) (drop (parsed_off msg) (unread r))"
    using assms(3) length_unread [OF assms(1)] by (simp add: load_def)
  also have "\<dots> = take (parsed_len msg) (drop (pos r + parsed_off msg) (buffer r))"
    using assms(1,3) by (simp add: unread_def reader_inv_def drop_take min_def add.commute)
  finally show ?thesis .
qed

section \<open>A sample state\<close>

text \<open>One small message, and a reader that holds its frame behind \<open>p\<close> consumed bytes.\<close>

definition sample_msg :: message where
  "sample_msg = \<lparr>Topic = ''t'', Payload = [7]\<rparr>"

definition sample_reader :: "nat \<Rightarrow> byte list \<Rightarrow> 'r \<Rightarrow> 'r message_reader" where
  "sample_reader p bs s = \<lparr>reader = s, buffer = replicate p 0 @ bs @ replicate (2048 - p - length bs) 0,
     pos = p, count = p + length bs\<rparr>"

lemma sample_msg_limits [simp]: "within_limits sample_msg"
  by (simp add: sample_msg_def within_limits_def)

lemma length_wire_sample: "length (wire sample_msg) = 14"
  by (simp add: sample_msg_def)

lemma sample_reader_inv: "p + length bs \<le> 2048 \<Longrightarrow> reader_inv (sample_reader p bs s)"
  by (simp add: sample_reader_def reader_inv_def)

lemma sample_reader_unread: "unread (sample_reader p bs s) = bs"
  by (simp add: sample_reader_def unread_def)

lemma sample_reader_sel [simp]:
  "reader (sample_reader p bs s) = s" "pos (sample_reader p bs s) = p"
  "count (sample_reader p bs s) = p + length bs"
  by (simp_all add: sample_reader_def)

lemmas sample_facts = sample_reader_inv sample_reader_unread length_wire_sample

section \<open>Properties\<close>

text \<open>C20. Safety of the reader: whatever the underlying \<open>io.Reader\<close> delivers, as long as it keeps
  its contract, \<open>ReadMessage\<close> never panics and keeps the buffer indices in range
  (\<open>pos \<le> count \<le> len(buffer) = 2048\<close>), however it returns.\<close>

theorem ReadMessage_no_panic:
  assumes "io_reader rd ok" and "reader_inv r" and "ok (reader r)" and "ReadMessage fuel rd r = Some out"
  shows "\<exists>res r'. out = Ret (res, r') \<and> reader_inv r' \<and> ok (reader r')"
proof -
  obtain res r' where "out = Ret (res, r')" "good_outcome ok (Return res r')"
    using io_reader.read_run_good [OF assms(1-3)] assms(4) unfolding ReadMessage_def by blast
  then show ?thesis
    by (cases res) auto
qed

theorem ReadMessage_no_panic_witness:
  "\<exists>res r'. ReadMessage 2 segments_read (NewMessageReader []) = Some (Ret (res, r')) \<and> reader_inv r'"
proof -
  obtain q where q: "readMore segments_read (NewMessageReader []) = Ret (Some EOF, q)" "count q = 0" "pos q = 0"
    using readMore_segments_end [of "NewMessageReader []"] by (auto simp: NewMessageReader_def kept_def reader_inv_def)
  then have "ReadMessage 2 segments_read (NewMessageReader []) = Some (Ret (Inl EOF, q))"
    by (simp add: ReadMessage_def numeral_eq_Suc outer_step_def NewMessageReader_def)
  then show ?thesis
    using ReadMessage_no_panic [OF segments.io_reader_axioms reader_inv_new [of "[]"]] by fastforce
qed



text \<open>Several messages in the buffer: when the unread bytes start with the frames of some
  messages within the limits, successive calls return exactly these messages in order, without a
  call of the underlying reader, and leave the bytes behind them.\<close>

theorem ReadMessage_buffered_in_order:
  assumes "reader_inv r" and "\<forall>m \<in> set ms. within_limits m" and "unread r = concat (map wire ms) @ rest"
  shows "\<exists>r'. read_many 2 (length ms) rd r = Some (ms, r') \<and> reader_inv r' \<and>
     unread r' = rest \<and> reader r' = reader r"
  using read_many_buffered [OF assms, of 0] by (simp add: numeral_2_eq_2)

theorem ReadMessage_buffered_in_order_witness:
  "\<exists>r'. read_many 2 2 segments_read (sample_reader 5 (wire sample_msg @ wire sample_msg @ [1, 2]) [])
     = Some ([sample_msg, sample_msg], r') \<and> unread r' = [1, 2]"
proof -
  let ?r = "sample_reader 5 (wire sample_msg @ wire sample_msg @ [1, 2]) [] :: byte list list message_reader"
  have "reader_inv ?r"
    by (rule sample_reader_inv) (simp add: length_wire_sample del: length_wire)
  then show ?thesis
    using ReadMessage_buffered_in_order [of ?r "[sample_msg, sample_msg]" "[1, 2]" segments_read]
    by (auto simp: sample_reader_unread numeral_2_eq_2)
qed

text \<open>C22. Any segmentation: a reader at the front of its buffer receives a message within the limits
  however the connection cuts the stream into non-empty segments; enough fuel always gives the
  message, and the rest of the stream is still there.\<close>

theorem ReadMessage_any_segmentation:
  assumes "reader_inv r" and "pos r = 0" and "within_limits m"
    and "unread r @ concat (reader r) = wire m @ rest" and "[] \<notin> set (reader r)"
  shows "\<exists>fuel msg r'. ReadMessage fuel segments_read r = Some (Ret (Inr msg, r')) \<and> load r' msg = m \<and>
     unread r' @ concat (reader r') = rest \<and> reader_inv r'"
  using yields_segmented [OF assms] unfolding yields_def ReadMessage_def by blast

theorem ReadMessage_any_segmentation_witness:
  "\<exists>fuel msg r'. ReadMessage fuel segments_read
       (NewMessageReader [take 3 (wire sample_msg), drop 3 (wire sample_msg) @ [9]])
     = Some (Ret (Inr msg, r')) \<and> load r' msg = sample_msg \<and> unread r' @ concat (reader r') = [9]"
proof -
  let ?segs = "[take 3 (wire sample_msg), drop 3 (wire sample_msg) @ [9]]"
  have "take 3 (wire sample_msg) \<noteq> []"
    using length_wire_sample by (metis list.size(3) take_eq_Nil zero_neq_numeral)
  then show ?thesis
    using ReadMessage_any_segmentation [of "NewMessageReader ?segs" sample_msg "[9]"]
    by (fastforce simp: NewMessageReader_def unread_def reader_inv_def)
qed

text \<open>One frame per segment: when every segment is the frame of a message within the limits, of
  at most 1024 bytes, a reader that has consumed its input returns all messages in order, however
  many there are (the buffer is recycled).\<close>

theorem ReadMessage_frames_in_order:
  assumes "reader_inv r" and "pos r = count r" and "\<forall>m \<in> set ms. within_limits m \<and> length (wire m) \<le> 1024"
    and "reader r = map wire ms @ segs"
  shows "\<exists>r'. read_many 2 (length ms) segments_read r = Some (ms, r') \<and> reader r' = segs"
  using read_many_aligned [OF assms, of 0] by (simp add: numeral_2_eq_2)

theorem ReadMessage_frames_in_order_witness:
  "\<exists>r'. read_many 2 100 segments_read (NewMessageReader (map wire (replicate 100 sample_msg)))
     = Some (replicate 100 sample_msg, r') \<and> reader r' = []"
proof -
  have "\<forall>m \<in> set (replicate 100 sample_msg). within_limits m \<and> length (wire m) \<le> 1024"
    by (simp add: length_wire_sample del: length_wire)
  then show ?thesis
    using ReadMessage_frames_in_order
      [of "NewMessageReader (map wire (replicate 100 sample_msg))" "replicate 100 sample_msg" "[]"]
    by (simp add: NewMessageReader_def reader_inv_def)
qed

text \<open>C38. Termination: on a connection that delivers finitely many bytes, fewer than would fill the
  buffer, \<open>ReadMessage\<close> returns (a message or an error), whatever the bytes are.\<close>

theorem ReadMessage_terminates:
  assumes "reader_inv r" and "[] \<notin> set (reader r)" and "count r + length (concat (reader r)) < 2048"
  shows "\<exists>fuel out. ReadMessage fuel segments_read r = Some out"
  using returns_roomy [of r Outer] assms unfolding returns_def ReadMessage_def by blast

theorem ReadMessage_terminates_witness:
  "\<exists>fuel out. ReadMessage fuel segments_read (NewMessageReader [replicate 2000 0]) = Some out"
  by (rule ReadMessage_terminates) (simp_all add: NewMessageReader_def reader_inv_def)

text \<open>C39. The bound on the bytes is needed for termination: 2048 bytes with no frame but a plausible header in the last
  eight fill the buffer, and \<open>ReadMessage\<close> then asks for more with no room left, forever. No
  amount of fuel makes it return, and the rest of the stream is never read.\<close>

theorem ReadMessage_full_buffer_hangs:
  "ReadMessage fuel segments_read (NewMessageReader (poison # segs)) = None"
  by (rule poison_never_returns)

text \<open>A frame is lost when it is completed after the shift: more than 1024 bytes in the buffer, a
  header within it but not the whole frame, and the message's start further in than its length.
  The connection then delivers the missing bytes, and \<open>ReadMessage\<close> runs to the end of the stream
  without returning the message; its last eight bytes are all that is left.\<close>

theorem ReadMessage_shift_loses_frame:
  assumes "reader_inv r" and "within_limits m" and "1024 < count r"
    and "unread r = take k (wire m)" and "8 \<le> k" and "k < length (wire m)"
    and "length (wire m) < pos r + 8" and "reader r = [drop k (wire m)]"
  shows "\<exists>r'. ReadMessage 4 segments_read r = Some (Ret (Inl EOF, r')) \<and>
     unread r' = drop (length (wire m) - 8) (wire m) \<and> reader r' = []"
  by (rule shift_loses_frame [OF assms])

theorem ReadMessage_shift_loses_frame_witness:
  "\<exists>r'. ReadMessage 4 segments_read (sample_reader 1100 (take 10 (wire sample_msg)) [drop 10 (wire sample_msg)])
     = Some (Ret (Inl EOF, r')) \<and> unread r' = drop 6 (wire sample_msg) \<and> reader r' = []"
proof -
  let ?r = "sample_reader 1100 (take 10 (wire sample_msg)) [drop 10 (wire sample_msg)]"
  have "reader_inv ?r"
    by (rule sample_reader_inv) (simp add: length_wire_sample del: length_wire)
  then show ?thesis
    using ReadMessage_shift_loses_frame [of ?r sample_msg 10]
    by (simp add: sample_reader_unread length_wire_sample del: length_wire)
qed

text \<open>The payload of a returned message is a slice of the reader's buffer: after the next shift
  the same slice holds bytes of the stream that came later.\<close>

theorem payload_aliases_buffer:
  assumes "reader_inv r" and "1024 < count r" and "parsed_off msg + parsed_len msg \<le> count r - pos r"
    and "rd (reader r) (2048 - kept r) = (bs, err, s)" and "length bs \<le> 2048 - kept r"
    and "readMore rd r = Ret (e, r')"
  shows "Payload (load r' msg) = take (parsed_len msg) (drop (pos r + parsed_off msg) (buffer r))"
  by (rule load_after_shift [OF assms])

theorem payload_aliases_buffer_witness:
  "\<exists>r r' msg. readMore segments_read r = Ret (Some EOF, r') \<and> Payload (load r msg) = [1, 1] \<and>
     Payload (load r' msg) = [2, 2]"
proof -
  let ?r = "\<lparr>reader = [], buffer = replicate 1100 1 @ replicate 948 2, pos = 1100, count = 1200\<rparr>
    :: byte list list message_reader"
  let ?msg = "\<lparr>parsed_topic = ''t'', parsed_off = 9, parsed_len = 2\<rparr>"
  have inv: "reader_inv ?r" and room: "kept ?r = 100"
    by (simp_all add: reader_inv_def kept_def)
  have rd: "segments_read (reader ?r) (2048 - kept ?r) = ([], Some EOF, [])"
    by (simp add: room segments_read.simps)
  obtain r' where r': "readMore segments_read ?r = Ret (Some EOF, r')"
    using readMore_segments_end [OF inv] room by auto
  have "Payload (load ?r ?msg) = [1, 1]"
    by (simp add: load_def numeral_2_eq_2)
  moreover have "Payload (load r' ?msg) = [2, 2]"
    using payload_aliases_buffer [OF inv _ _ rd _ r', of ?msg] by (simp add: numeral_2_eq_2)
  ultimately show ?thesis
    using r' by blast
qed

end
