(* ===== verification/Qdp_Connection.thy ===== *)
theory Qdp_Connection
  imports Qdp_Reader
begin

text \<open>
  The connection callbacks of \<open>lib/go/qdp.go\<close> (\<open>IConnectionHandler\<close>, \<open>ConnectionHandlerFunc\<close>), shared
  by the transports, and the operations of a foreign \<open>net.Conn\<close>. A callback runs user code; the
  model records the call in a log.
\<close>

record connection_handler =
  OnConnectFunc :: bool
  OnDisconnectFunc :: bool

datatype conn_event = Connected | Disconnected "go_error option"

definition OnConnect :: "connection_handler \<Rightarrow> conn_event list" where
  "OnConnect h = (if OnConnectFunc h then [Connected] else [])"

definition OnDisconnect :: "connection_handler \<Rightarrow> go_error option \<Rightarrow> conn_event list" where
  "OnDisconnect h err = (if OnDisconnectFunc h then [Disconnected err] else [])"

text \<open>
  \<open>if connectionHandler != nil && disconnected.CompareAndSwap(false, true) { OnDisconnect }\<close>, which
  every transport uses: without a handler the flag is not touched.
\<close>

definition disconnect_once ::
  "connection_handler option \<Rightarrow> go_error option \<Rightarrow> bool \<times> conn_event list \<Rightarrow> bool \<times> conn_event list" where
  "disconnect_once h err st =
     (case h of
        None \<Rightarrow> st
      | Some f \<Rightarrow> if fst st then st else (True, snd st @ OnDisconnect f err))"

text \<open>The operations of a \<open>net.Conn\<close>: read, write (count, error), close.\<close>

record 'c net_conn =
  conn_Read :: "'c io_read"
  conn_Write :: "'c \<Rightarrow> byte list \<Rightarrow> nat \<times> go_error option \<times> 'c"
  conn_Close :: "'c \<Rightarrow> go_error option \<times> 'c"

section \<open>At most one disconnect\<close>

fun disconnects :: "conn_event list \<Rightarrow> nat" where
  "disconnects [] = 0"
| "disconnects (Disconnected _ # es) = Suc (disconnects es)"
| "disconnects (Connected # es) = disconnects es"

lemma disconnects_append [simp]: "disconnects (xs @ ys) = disconnects xs + disconnects ys"
  by (induction xs rule: disconnects.induct) auto

lemma disconnects_OnConnect [simp]: "disconnects (OnConnect h) = 0"
  by (simp add: OnConnect_def)

lemma disconnects_OnDisconnect [simp]:
  "disconnects (OnDisconnect h err) = (if OnDisconnectFunc h then 1 else 0)"
  by (simp add: OnDisconnect_def)

text \<open>The flag and the log agree: no disconnect is logged before the flag is set, and the flag stands
  for exactly one call where the callback is set.\<close>

definition disconnect_inv :: "connection_handler option \<Rightarrow> bool \<times> conn_event list \<Rightarrow> bool" where
  "disconnect_inv h st \<longleftrightarrow>
     disconnects (snd st) = (if fst st \<and> (\<exists>f. h = Some f \<and> OnDisconnectFunc f) then 1 else 0)"

lemma disconnect_inv_start: "disconnects es = 0 \<Longrightarrow> disconnect_inv h (False, es)"
  by (simp add: disconnect_inv_def)

lemma disconnect_once_inv: "disconnect_inv h st \<Longrightarrow> disconnect_inv h (disconnect_once h err st)"
  by (auto simp: disconnect_inv_def disconnect_once_def split: option.splits)

lemma disconnect_once_set: "h = Some f \<Longrightarrow> fst (disconnect_once h err st)"
  by (simp add: disconnect_once_def)

lemma disconnect_once_mono: "fst st \<Longrightarrow> fst (disconnect_once h err st)"
  by (simp add: disconnect_once_def split: option.splits)

lemma disconnect_once_grows: "\<exists>es. snd (disconnect_once h err st) = snd st @ es"
  by (simp add: disconnect_once_def split: option.splits)

end
