(* ===== verification/Qdp_Topic.thy ===== *)
theory Qdp_Topic
  imports Qdp_Message
begin

text \<open>
  Topic patterns and subscriptions (\<open>lib/go/qdp.go\<close>): \<open>matchTopic\<close> with the part of
  \<open>strings.Split\<close> it uses, and \<open>DefaultSubscriptionManager\<close>. Its lock makes every operation
  atomic, so each is a function on the subscription list. Handlers are interface values: comparing
  two of them panics when they have the same dynamic type and that type is not comparable, which
  is the case for the package's own \<open>MessageRxHandlerFunc\<close> (a function type) and
  \<open>MessageHandlerFunc\<close> (a struct of functions).
\<close>

section \<open>Topic patterns\<close>

text \<open>\<open>strings.Split(s, "/")\<close>: always at least one part.\<close>

fun Split :: "string \<Rightarrow> string list" where
  "Split [] = [[]]"
| "Split (c # cs) =
     (if c = CHR ''/'' then [] # Split cs
      else case Split cs of p # ps \<Rightarrow> (c # p) # ps | [] \<Rightarrow> [[c]])"

text \<open>The loop of \<open>matchTopic\<close> over the index \<open>i\<close>, with the final length test.\<close>

function match_from :: "string list \<Rightarrow> string list \<Rightarrow> nat \<Rightarrow> bool" where
  "match_from patternParts topicParts i =
     (if i < length patternParts then
        (if length topicParts \<le> i then False
         else if patternParts ! i = ''#'' then True
         else if patternParts ! i \<noteq> ''+'' \<and> patternParts ! i \<noteq> topicParts ! i then False
         else match_from patternParts topicParts (i + 1))
      else length topicParts = length patternParts)"
  by pat_completeness auto
termination
  by (relation "measure (\<lambda>(ps, ts, i). length ps - i)") auto

declare match_from.simps [simp del]

definition matchTopic :: "string \<Rightarrow> string \<Rightarrow> bool" where
  "matchTopic pattern topic =
     (if pattern = ''#'' then True
      else
        let patternParts = Split pattern; topicParts = Split topic in
        if length topicParts < length patternParts \<and> patternParts ! (length patternParts - 1) \<noteq> ''#''
        then False
        else match_from patternParts topicParts 0)"

text \<open>The specification, level by level: \<open>+\<close> stands for any one level, \<open>#\<close> for one or more levels.\<close>

fun level_match :: "string list \<Rightarrow> string list \<Rightarrow> bool" where
  "level_match [] [] = True"
| "level_match [] (t # ts) = False"
| "level_match (p # ps) [] = False"
| "level_match (p # ps) (t # ts) = (p = ''#'' \<or> (p = ''+'' \<or> p = t) \<and> level_match ps ts)"

section \<open>Subscriptions\<close>

datatype dyn_type = MessageRxHandlerFunc | MessageHandlerFunc | OtherType nat

fun comparable :: "dyn_type \<Rightarrow> bool" where
  "comparable (OtherType _) = True"
| "comparable _ = False"

text \<open>A non-nil handler: its dynamic type and the identity of the value.\<close>

record handler =
  dyn :: dyn_type
  ident :: nat

definition handler_eq :: "handler \<Rightarrow> handler \<Rightarrow> bool go" where
  "handler_eq h1 h2 =
     (if dyn h1 \<noteq> dyn h2 then Ret False
      else if comparable (dyn h1) then Ret (ident h1 = ident h2)
      else Panic)"

record subscription =
  sub_topic :: string
  sub_handler :: handler

definition NewSubscriptionManager :: "subscription list" where
  "NewSubscriptionManager = []"

definition Subscribe :: "string \<Rightarrow> handler \<Rightarrow> subscription list \<Rightarrow> subscription list" where
  "Subscribe topic h subs = subs @ [\<lparr>sub_topic = topic, sub_handler = h\<rparr>]"

text \<open>The downward loop of \<open>Unsubscribe\<close>: the first argument is \<open>i + 1\<close>.\<close>

fun unsubscribe_loop :: "nat \<Rightarrow> string \<Rightarrow> handler \<Rightarrow> subscription list \<Rightarrow> subscription list go" where
  "unsubscribe_loop 0 topic h subs = Ret subs"
| "unsubscribe_loop (Suc i) topic h subs =
     (if i < length subs then
        if sub_topic (subs ! i) = topic then
          go_bind (handler_eq (sub_handler (subs ! i)) h) (\<lambda>eq.
          unsubscribe_loop i topic h (if eq then take i subs @ drop (i + 1) subs else subs))
        else unsubscribe_loop i topic h subs
      else Panic)"

definition Unsubscribe :: "string \<Rightarrow> handler \<Rightarrow> subscription list \<Rightarrow> subscription list go" where
  "Unsubscribe topic h subs = unsubscribe_loop (length subs) topic h subs"

text \<open>\<open>OnMessageRx\<close>: the handlers called with the message, in the order of the calls.\<close>

fun OnMessageRx :: "subscription list \<Rightarrow> message \<Rightarrow> handler list" where
  "OnMessageRx [] msg = []"
| "OnMessageRx (sub # subs) msg =
     (if matchTopic (sub_topic sub) (Topic msg) then sub_handler sub # OnMessageRx subs msg
      else OnMessageRx subs msg)"

section \<open>Matching\<close>

lemma Split_not_Nil [simp]: "Split s \<noteq> []"
  by (cases s) (auto split: list.split)

lemma Split_Cons_other: "c \<noteq> CHR ''/'' \<Longrightarrow> Split (c # cs) = (c # hd (Split cs)) # tl (Split cs)"
  by (cases "Split cs") auto

text \<open>Joining the parts with separators gives the string back, so \<open>Split\<close> is injective.\<close>

fun Join :: "string list \<Rightarrow> string" where
  "Join [] = []"
| "Join [p] = p"
| "Join (p # q # ps) = p @ CHR ''/'' # Join (q # ps)"

lemma Join_Cons: "ps \<noteq> [] \<Longrightarrow> Join (p # ps) = p @ CHR ''/'' # Join ps"
  by (cases ps) auto

lemma Join_Split: "Join (Split s) = s"
proof (induction s)
  case (Cons c cs)
  obtain p ps where s: "Split cs = p # ps"
    by (cases "Split cs") auto
  then have "Join ((c # p) # ps) = c # Join (p # ps)"
    by (cases ps) auto
  then show ?case
    using Cons.IH s by (auto simp: Join_Cons)
qed simp

lemma Split_inject: "Split s = Split t \<longleftrightarrow> s = t"
  by (metis Join_Split)

lemma Split_append_sep: "Split (s @ CHR ''/'' # t) = Split s @ Split t"
proof (induction s)
  case (Cons c cs)
  then show ?case
    by (cases "Split cs") auto
qed simp

lemma match_from_level: "match_from ps ts i \<longleftrightarrow> level_match (drop i ps) (drop i ts)"
  if "i \<le> length ps" "i \<le> length ts"
  using that
proof (induction ps ts i rule: match_from.induct)
  case (1 ps ts i)
  show ?case
  proof (cases "i < length ps \<and> i < length ts")
    case True
    then have "drop i ps = ps ! i # drop (i + 1) ps" "drop i ts = ts ! i # drop (i + 1) ts"
      by (simp_all add: Cons_nth_drop_Suc)
    then show ?thesis
      using 1 True by (auto simp: match_from.simps [of ps ts i])
  next
    case False
    then consider "i = length ps" | "i < length ps" "i = length ts"
      using 1 by linarith
    then show ?thesis
    proof cases
      case 1
      then show ?thesis
        using \<open>i \<le> length ts\<close>
        by (cases "drop i ts") (auto simp: match_from.simps [of ps ts "length ps"])
    next
      case 2
      then show ?thesis
        by (cases "drop i ps") (auto simp: match_from.simps [of ps ts "length ts"])
    qed
  qed
qed

lemma level_match_hash: "ts \<noteq> [] \<Longrightarrow> level_match [''#''] ts"
  by (cases ts) auto

lemma Split_hash: "Split ''#'' = [''#'']"
  by simp

lemma matchTopic_levels:
  "matchTopic p t \<longleftrightarrow>
     (length (Split p) \<le> length (Split t) \<or> last (Split p) = ''#'') \<and> level_match (Split p) (Split t)"
proof (cases "p = ''#''")
  case True
  then show ?thesis
    using level_match_hash [of "Split t"] by (simp add: matchTopic_def)
next
  case False
  then show ?thesis
    by (auto simp: matchTopic_def Let_def match_from_level last_conv_nth)
qed

text \<open>One level of a pattern without \<open>#\<close>.\<close>

definition level_ok :: "string \<Rightarrow> string \<Rightarrow> bool" where
  "level_ok p t \<longleftrightarrow> p = ''+'' \<or> p = t"

lemma level_match_plain: "''#'' \<notin> set ps \<Longrightarrow> level_match ps ts \<longleftrightarrow> list_all2 level_ok ps ts"
  by (induction ps ts rule: level_match.induct) (auto simp: level_ok_def)

lemma level_match_suffix:
  "''#'' \<notin> set ps \<Longrightarrow>
   level_match (ps @ [''#'']) ts \<longleftrightarrow> (\<exists>us vs. ts = us @ vs \<and> vs \<noteq> [] \<and> list_all2 level_ok ps us)"
proof (induction ps arbitrary: ts)
  case Nil
  then show ?case
    by (cases ts) auto
next
  case (Cons p ps)
  show ?case
  proof (cases ts)
    case (Cons t ts')
    have "level_match ((p # ps) @ [''#'']) ts \<longleftrightarrow> level_ok p t \<and> level_match (ps @ [''#'']) ts'"
      using Cons.prems Cons by (auto simp: level_ok_def)
    also have "\<dots> \<longleftrightarrow> (\<exists>us vs. ts = us @ vs \<and> vs \<noteq> [] \<and> list_all2 level_ok (p # ps) us)"
      using Cons.prems Cons.IH [of ts'] Cons
      by (auto simp: list_all2_Cons1 Cons_eq_append_conv)
    finally show ?thesis .
  qed auto
qed

lemma list_all2_level_ok_refl: "''+'' \<notin> set ps \<Longrightarrow> list_all2 level_ok ps ts \<longleftrightarrow> ps = ts"
proof (induction ps arbitrary: ts)
  case (Cons p ps)
  then show ?case
    by (cases ts) (auto simp: level_ok_def)
qed auto

lemma matchTopic_plain:
  assumes "''#'' \<notin> set (Split p)"
  shows "matchTopic p t \<longleftrightarrow> list_all2 level_ok (Split p) (Split t)"
proof -
  have "last (Split p) \<noteq> ''#''"
    using assms by (metis Split_not_Nil last_in_set)
  then show ?thesis
    using level_match_plain [OF assms] by (auto simp: matchTopic_levels dest: list_all2_lengthD)
qed

lemma Split_suffix: "Split (q @ ''/#'') = Split q @ [''#'']"
  using Split_append_sep [of q "''#''"] by simp

lemma matchTopic_suffix:
  assumes "''#'' \<notin> set (Split q)"
  shows "matchTopic (q @ ''/#'') t \<longleftrightarrow>
     (\<exists>us vs. Split t = us @ vs \<and> vs \<noteq> [] \<and> list_all2 level_ok (Split q) us)"
  using level_match_suffix [OF assms] by (simp add: matchTopic_levels Split_suffix)

section \<open>Unsubscribing\<close>

lemma handler_eq_comparable: "comparable (dyn h) \<Longrightarrow> handler_eq g h = Ret (g = h)"
  by (auto simp: handler_eq_def intro: handler.equality)

lemma unsubscribe_loop_filter:
  assumes "comparable (dyn h)" and "i \<le> length subs"
  shows "unsubscribe_loop i topic h subs =
     Ret (filter (\<lambda>s. \<not> (sub_topic s = topic \<and> sub_handler s = h)) (take i subs) @ drop i subs)"
  using assms(2)
proof (induction i arbitrary: subs)
  case (Suc i)
  have split: "take (Suc i) subs = take i subs @ [subs ! i]" "drop i subs = subs ! i # drop (Suc i) subs"
    using Suc.prems by (simp_all add: take_Suc_conv_app_nth Cons_nth_drop_Suc)
  have "unsubscribe_loop i topic h (take i subs @ drop (Suc i) subs) =
      Ret (filter (\<lambda>s. \<not> (sub_topic s = topic \<and> sub_handler s = h)) (take i subs) @ drop (Suc i) subs)"
    using Suc.IH [of "take i subs @ drop (Suc i) subs"] Suc.prems by simp
  then show ?case
    using Suc.IH [of subs] Suc.prems split by (simp add: handler_eq_comparable [OF assms(1)])
qed simp

lemma Unsubscribe_filter:
  "comparable (dyn h) \<Longrightarrow>
   Unsubscribe topic h subs = Ret (filter (\<lambda>s. \<not> (sub_topic s = topic \<and> sub_handler s = h)) subs)"
  by (simp add: Unsubscribe_def unsubscribe_loop_filter)

lemma unsubscribe_loop_uncomparable:
  assumes "\<not> comparable (dyn h)" and "i \<le> length subs"
  shows "unsubscribe_loop i topic h subs =
     (if \<exists>s \<in> set (take i subs). sub_topic s = topic \<and> dyn (sub_handler s) = dyn h then Panic else Ret subs)"
  using assms(2)
proof (induction i)
  case (Suc i)
  then have "take (Suc i) subs = take i subs @ [subs ! i]"
    by (simp add: take_Suc_conv_app_nth)
  then show ?case
    using Suc assms(1) by (auto simp: handler_eq_def)
qed simp

lemma Unsubscribe_uncomparable:
  "\<not> comparable (dyn h) \<Longrightarrow> Unsubscribe topic h subs =
     (if \<exists>s \<in> set subs. sub_topic s = topic \<and> dyn (sub_handler s) = dyn h then Panic else Ret subs)"
  by (simp add: Unsubscribe_def unsubscribe_loop_uncomparable)

lemma OnMessageRx_filter:
  "OnMessageRx subs msg = map sub_handler (filter (\<lambda>s. matchTopic (sub_topic s) (Topic msg)) subs)"
  by (induction subs) auto

lemma OnMessageRx_append: "OnMessageRx (xs @ ys) msg = OnMessageRx xs msg @ OnMessageRx ys msg"
  by (simp add: OnMessageRx_filter)

section \<open>The interface ISubscriptionManager\<close>

text \<open>
  What the protocol relies on: \<open>receivers\<close> lists the handlers that get a message. A subscription
  adds its handler at the end, for the topics its pattern matches; cancelling one changes nothing
  for other handlers, nothing for topics the pattern does not match, and only removes calls.
\<close>

locale subscription_manager =
  fixes empty :: 'm
    and subscribe :: "string \<Rightarrow> handler \<Rightarrow> 'm \<Rightarrow> 'm"
    and unsubscribe :: "string \<Rightarrow> handler \<Rightarrow> 'm \<Rightarrow> 'm go"
    and receivers :: "'m \<Rightarrow> message \<Rightarrow> handler list"
  assumes receivers_empty: "receivers empty msg = []"
    and receivers_subscribe: "receivers (subscribe p h s) msg =
      receivers s msg @ (if matchTopic p (Topic msg) then [h] else [])"
    and unsubscribe_returns: "comparable (dyn h) \<Longrightarrow> \<exists>s'. unsubscribe p h s = Ret s'"
    and unsubscribe_others: "unsubscribe p h s = Ret s' \<Longrightarrow>
      filter (\<lambda>g. g \<noteq> h) (receivers s' msg) = filter (\<lambda>g. g \<noteq> h) (receivers s msg)"
    and unsubscribe_unmatched: "unsubscribe p h s = Ret s' \<Longrightarrow> \<not> matchTopic p (Topic msg) \<Longrightarrow>
      receivers s' msg = receivers s msg"
begin

text \<open>Whatever is subscribed and cancelled for \<open>h\<close>, the calls of other handlers stay the same.\<close>

lemma subscribe_unsubscribe_others:
  assumes "unsubscribe p h (subscribe q h s) = Ret s'"
  shows "filter (\<lambda>g. g \<noteq> h) (receivers s' msg) = filter (\<lambda>g. g \<noteq> h) (receivers s msg)"
  using unsubscribe_others [OF assms, of msg] by (simp add: receivers_subscribe)

lemma receives_iff_matches:
  assumes "h \<notin> set (receivers s msg)"
  shows "h \<in> set (receivers (subscribe p h s) msg) \<longleftrightarrow> matchTopic p (Topic msg)"
  using assms by (simp add: receivers_subscribe)

text \<open>A sequence of subscriptions is delivered to in the order it was made.\<close>

lemma receivers_fold:
  "receivers (fold (\<lambda>(p, h). subscribe p h) phs s) msg =
   receivers s msg @ map snd (filter (\<lambda>(p, h). matchTopic p (Topic msg)) phs)"
  by (induction phs arbitrary: s) (auto simp: receivers_subscribe)

end

lemma filter_calls:
  assumes "\<And>s. P s \<Longrightarrow> sub_handler s = h"
  shows "filter (\<lambda>g. g \<noteq> h) (OnMessageRx (filter (\<lambda>s. \<not> P s) subs) msg)
       = filter (\<lambda>g. g \<noteq> h) (OnMessageRx subs msg)"
  using assms by (induction subs) auto

interpretation dsm: subscription_manager NewSubscriptionManager Subscribe Unsubscribe OnMessageRx
proof
  fix p h s s' msg
  show "OnMessageRx NewSubscriptionManager msg = []"
    by (simp add: NewSubscriptionManager_def)
  show "OnMessageRx (Subscribe p h s) msg = OnMessageRx s msg @ (if matchTopic p (Topic msg) then [h] else [])"
    by (simp add: Subscribe_def OnMessageRx_append)
  show "comparable (dyn h) \<Longrightarrow> \<exists>s'. Unsubscribe p h s = Ret s'"
    by (simp add: Unsubscribe_filter)
  assume u: "Unsubscribe p h s = Ret s'"
  have s': "s' = (if comparable (dyn h) then filter (\<lambda>s. \<not> (sub_topic s = p \<and> sub_handler s = h)) s else s)"
    using u by (auto simp: Unsubscribe_filter Unsubscribe_uncomparable split: if_splits)
  show "filter (\<lambda>g. g \<noteq> h) (OnMessageRx s' msg) = filter (\<lambda>g. g \<noteq> h) (OnMessageRx s msg)"
    using filter_calls [of "\<lambda>s. sub_topic s = p \<and> sub_handler s = h" h s msg] by (simp add: s')
  assume "\<not> matchTopic p (Topic msg)"
  then show "OnMessageRx s' msg = OnMessageRx s msg"
    unfolding s' by (induction s) auto
qed

section \<open>Properties\<close>

text \<open>Matching: \<open>matchTopic\<close> is the level-by-level specification for every pattern and topic,
  with one addition: a pattern with more levels than the topic can only match when its last
  level is \<open>#\<close>.\<close>

theorem matchTopic_correct:
  "matchTopic p t \<longleftrightarrow>
     (length (Split p) \<le> length (Split t) \<or> last (Split p) = ''#'') \<and> level_match (Split p) (Split t)"
  by (rule matchTopic_levels)

text \<open>A pattern without \<open>#\<close> matches exactly the topics with the same number of levels that agree
  with it on every level other than \<open>+\<close>; in particular a pattern without wildcards matches only
  itself.\<close>

theorem matchTopic_no_hash:
  assumes "''#'' \<notin> set (Split p)"
  shows "(matchTopic p t \<longleftrightarrow> list_all2 level_ok (Split p) (Split t)) \<and>
     (''+'' \<notin> set (Split p) \<longrightarrow> (matchTopic p t \<longleftrightarrow> p = t))"
  using matchTopic_plain [OF assms, of t] by (simp add: list_all2_level_ok_refl Split_inject)

theorem matchTopic_no_hash_witness:
  "matchTopic ''sensor/+/temp'' ''sensor/1/temp'' \<and> \<not> matchTopic ''sensor/temp'' ''sensor/tem''"
proof -
  have a: "''#'' \<notin> set (Split ''sensor/+/temp'')" and b: "''#'' \<notin> set (Split ''sensor/temp'')"
    and c: "''+'' \<notin> set (Split ''sensor/temp'')"
    by simp_all
  show ?thesis
    using matchTopic_no_hash [OF a, of "''sensor/1/temp''"] matchTopic_no_hash [OF b, of "''sensor/tem''"] c
    by (simp add: level_ok_def)
qed

text \<open>A pattern that ends in \<open>/#\<close> matches exactly the topics that have at least one more level than
  the part before it, and whose first levels match that part.\<close>

theorem matchTopic_hash_suffix:
  assumes "''#'' \<notin> set (Split q)"
  shows "matchTopic (q @ ''/#'') t \<longleftrightarrow>
     (\<exists>us vs. Split t = us @ vs \<and> vs \<noteq> [] \<and> list_all2 level_ok (Split q) us)"
  by (rule matchTopic_suffix [OF assms])

theorem matchTopic_hash_suffix_witness:
  "matchTopic (''sensor'' @ ''/#'') ''sensor/temp/value'' \<and> \<not> matchTopic (''sensor'' @ ''/#'') ''sensor''"
proof -
  have "''#'' \<notin> set (Split ''sensor'')"
    by simp
  from matchTopic_hash_suffix [OF this] show ?thesis
    by (auto simp: level_ok_def Cons_eq_append_conv list_all2_Cons1)
qed

text \<open>Delivery: after a sequence of subscriptions to a new manager, a message is handed to the
  handlers whose pattern matches its topic, in the order of the subscriptions and once per
  matching subscription.\<close>

theorem OnMessageRx_delivers:
  "OnMessageRx (fold (\<lambda>(p, h). Subscribe p h) phs NewSubscriptionManager) msg =
   map snd (filter (\<lambda>(p, h). matchTopic p (Topic msg)) phs)"
  by (simp add: dsm.receivers_fold dsm.receivers_empty)

text \<open>Cancelling: for a handler of a comparable type, \<open>Unsubscribe\<close> removes every subscription
  with this topic and this handler and nothing else, and keeps the order.\<close>

theorem Unsubscribe_removes_all:
  assumes "comparable (dyn h)"
  shows "Unsubscribe topic h subs = Ret (filter (\<lambda>s. \<not> (sub_topic s = topic \<and> sub_handler s = h)) subs)"
  by (rule Unsubscribe_filter [OF assms])

theorem Unsubscribe_removes_all_witness:
  "\<exists>h g. Unsubscribe ''a'' h (Subscribe ''a'' h (Subscribe ''b'' g (Subscribe ''a'' h [])))
     = Ret (Subscribe ''b'' g [])"
proof -
  let ?h = "\<lparr>dyn = OtherType 0, ident = 1\<rparr>" and ?g = "\<lparr>dyn = OtherType 0, ident = 2\<rparr>"
  have "comparable (dyn ?h)"
    by simp
  from Unsubscribe_removes_all [OF this]
  have "Unsubscribe ''a'' ?h (Subscribe ''a'' ?h (Subscribe ''b'' ?g (Subscribe ''a'' ?h [])))
      = Ret (Subscribe ''b'' ?g [])"
    by (simp add: Subscribe_def)
  then show ?thesis
    by blast
qed

text \<open>Function handlers cannot be unsubscribed: for a handler of an uncomparable type, such as the
  package's \<open>MessageRxHandlerFunc\<close>, \<open>Unsubscribe\<close> panics as soon as a handler of that type is
  subscribed to the topic, and otherwise changes nothing.\<close>

theorem Unsubscribe_func_handler:
  assumes "\<not> comparable (dyn h)"
  shows "Unsubscribe topic h subs =
     (if \<exists>s \<in> set subs. sub_topic s = topic \<and> dyn (sub_handler s) = dyn h then Panic else Ret subs)"
  by (rule Unsubscribe_uncomparable [OF assms])

theorem Unsubscribe_func_handler_witness:
  "\<exists>h. dyn h = MessageRxHandlerFunc \<and> Unsubscribe ''a'' h (Subscribe ''a'' h []) = Panic"
proof -
  let ?h = "\<lparr>dyn = MessageRxHandlerFunc, ident = 1\<rparr>"
  have "\<not> comparable (dyn ?h)"
    by simp
  from Unsubscribe_func_handler [OF this] have "Unsubscribe ''a'' ?h (Subscribe ''a'' ?h []) = Panic"
    by (simp add: Subscribe_def)
  then show ?thesis
    by (intro exI [of _ ?h]) simp
qed

end
