(* ===== verification/Qdp_Protocol.thy ===== *)
theory Qdp_Protocol
  imports Qdp_Topic "HOL-Library.Sublist"
begin

text \<open>
  \<open>DefaultProtocol\<close> of \<open>lib/go/qdp.go\<close>: sending, publishing, subscribing, dispatching, and the two
  goroutines of \<open>StartReceiving\<close> around a channel of capacity 100. The transport is an interface
  (\<open>ITransport\<close>), so its operations are parameters: \<open>rd\<close>, \<open>wr\<close> and \<open>cl\<close> for \<open>ReadMessage\<close>,
  \<open>WriteMessage\<close> and \<open>Close\<close>, where \<open>rd t = None\<close> says that the read does not return. Calls of user
  callbacks are recorded in a log. A panic ends the process, so no step follows one.

  The goroutines are a step relation on an explicit program counter each; a step of the environment
  is the cancellation of the caller's context or a call of another operation. \<open>received\<close> and
  \<open>handled\<close> are history variables: what the transport returned and what \<open>handleMessage\<close> got.
\<close>

section \<open>Definitions\<close>

datatype callback = HandlerRx message | HandlerTx message | Deliver handler message

text \<open>\<open>MessageHandlerFunc\<close>: which of its two functions are set.\<close>

record message_handler =
  OnMessageRxFunc :: bool
  OnMessageTxFunc :: bool

definition MessageHandler_OnMessageRx :: "message_handler \<Rightarrow> message \<Rightarrow> callback list" where
  "MessageHandler_OnMessageRx f msg = (if OnMessageRxFunc f then [HandlerRx msg] else [])"

definition MessageHandler_OnMessageTx :: "message_handler \<Rightarrow> message \<Rightarrow> callback list" where
  "MessageHandler_OnMessageTx f msg = (if OnMessageTxFunc f then [HandlerTx msg] else [])"

record 't protocol =
  transport :: 't
  subscribers :: "subscription list"
  msgCh :: "message list"
  msgHandler :: message_handler
  own_ctx_done :: bool
  calls :: "callback list"

text \<open>\<open>NewProtocol\<close>: \<open>None\<close> is a nil subscription manager or handler.\<close>

definition NewProtocol ::
  "'t \<Rightarrow> subscription list option \<Rightarrow> message_handler option \<Rightarrow> 't protocol" where
  "NewProtocol t subs h =
     \<lparr>transport = t,
      subscribers = (case subs of None \<Rightarrow> NewSubscriptionManager | Some s \<Rightarrow> s),
      msgCh = [],
      msgHandler = (case h of None \<Rightarrow> \<lparr>OnMessageRxFunc = False, OnMessageTxFunc = False\<rparr> | Some f \<Rightarrow> f),
      own_ctx_done = False,
      calls = []\<rparr>"

type_synonym 't transport_read = "'t \<Rightarrow> ((go_error + message) \<times> 't) go option"
type_synonym 't transport_write = "message \<Rightarrow> 't \<Rightarrow> (go_error option \<times> 't) go"
type_synonym 't transport_close = "'t \<Rightarrow> go_error option \<times> 't"

definition SendMessage ::
  "'t transport_write \<Rightarrow> 't protocol \<Rightarrow> message \<Rightarrow> (go_error option \<times> 't protocol) go" where
  "SendMessage wr p msg =
     go_bind (wr msg (transport p)) (\<lambda>(err, t).
     let p = p\<lparr>transport := t\<rparr>
     in if err = None then Ret (err, p\<lparr>calls := calls p @ MessageHandler_OnMessageTx (msgHandler p) msg\<rparr>)
        else Ret (err, p))"

definition ReceiveMessage ::
  "'t transport_read \<Rightarrow> 't protocol \<Rightarrow> ((go_error + message) \<times> 't protocol) go option" where
  "ReceiveMessage rd p =
     map_option (\<lambda>out. go_bind out (\<lambda>(res, t). Ret (res, p\<lparr>transport := t\<rparr>))) (rd (transport p))"

definition protocol_Subscribe :: "string \<Rightarrow> handler \<Rightarrow> 't protocol \<Rightarrow> 't protocol" where
  "protocol_Subscribe topic h p = p\<lparr>subscribers := Subscribe topic h (subscribers p)\<rparr>"

definition protocol_Unsubscribe :: "string \<Rightarrow> handler \<Rightarrow> 't protocol \<Rightarrow> 't protocol go" where
  "protocol_Unsubscribe topic h p =
     go_bind (Unsubscribe topic h (subscribers p)) (\<lambda>subs. Ret (p\<lparr>subscribers := subs\<rparr>))"

definition PublishMessage ::
  "'t transport_write \<Rightarrow> 't protocol \<Rightarrow> string \<Rightarrow> byte list \<Rightarrow> (go_error option \<times> 't protocol) go" where
  "PublishMessage wr p topic payload = SendMessage wr p \<lparr>Topic = topic, Payload = payload\<rparr>"

definition handleMessage :: "'t protocol \<Rightarrow> message \<Rightarrow> 't protocol" where
  "handleMessage p msg =
     (let p = p\<lparr>calls := calls p @ MessageHandler_OnMessageRx (msgHandler p) msg\<rparr>
      in p\<lparr>calls := calls p @ map (\<lambda>h. Deliver h msg) (OnMessageRx (subscribers p) msg)\<rparr>)"

definition protocol_Close :: "'t transport_close \<Rightarrow> 't protocol \<Rightarrow> go_error option \<times> 't protocol" where
  "protocol_Close cl p =
     (let p = p\<lparr>own_ctx_done := True\<rparr>; (err, t) = cl (transport p)
      in (err, p\<lparr>transport := t\<rparr>))"

text \<open>The goroutines of \<open>StartReceiving\<close>.\<close>

datatype recv_pc =
    RCheck          \<comment> \<open>the \<open>select\<close> at the top of the receive loop\<close>
  | RRead           \<comment> \<open>in \<open>ReceiveMessage\<close>\<close>
  | RErr            \<comment> \<open>the \<open>select\<close> after an error\<close>
  | RSend message   \<comment> \<open>the \<open>select\<close> that puts the message into the channel\<close>
  | RStop

datatype proc_pc = PLoop | PStop

record 't session =
  proto :: "'t protocol"
  recv :: recv_pc
  proc :: proc_pc
  ctx_done :: bool
  received :: "message list"
  handled :: "message list"

definition StartReceiving :: "'t protocol \<Rightarrow> bool \<Rightarrow> 't session" where
  "StartReceiving p parent_done =
     \<lparr>proto = p, recv = RCheck, proc = PLoop, ctx_done = parent_done, received = [], handled = []\<rparr>"

text \<open>The receive goroutine returns: the deferred \<open>cancel()\<close> runs.\<close>

definition recv_return :: "'t session \<Rightarrow> 't session" where
  "recv_return s = s\<lparr>recv := RStop, ctx_done := True\<rparr>"

datatype event =
    Recv | Proc | CancelParent | CallClose | CallSend message
  | CallSubscribe string handler | CallUnsubscribe string handler

inductive session_step ::
  "'t transport_read \<Rightarrow> 't transport_write \<Rightarrow> 't transport_close \<Rightarrow>
   't session \<Rightarrow> event \<Rightarrow> 't session \<Rightarrow> bool"
  for rd wr cl where
  check_done: "recv s = RCheck \<Longrightarrow> ctx_done s \<Longrightarrow> session_step rd wr cl s Recv (recv_return s)"
| check_go: "recv s = RCheck \<Longrightarrow> \<not> ctx_done s \<Longrightarrow> session_step rd wr cl s Recv (s\<lparr>recv := RRead\<rparr>)"
| read_ok: "recv s = RRead \<Longrightarrow> ReceiveMessage rd (proto s) = Some (Ret (Inr m, p)) \<Longrightarrow>
    session_step rd wr cl s Recv (s\<lparr>proto := p, recv := RSend m, received := received s @ [m]\<rparr>)"
| read_err: "recv s = RRead \<Longrightarrow> ReceiveMessage rd (proto s) = Some (Ret (Inl e, p)) \<Longrightarrow>
    session_step rd wr cl s Recv (s\<lparr>proto := p, recv := RErr\<rparr>)"
| err_done: "recv s = RErr \<Longrightarrow> ctx_done s \<Longrightarrow> session_step rd wr cl s Recv (recv_return s)"
| err_retry: "recv s = RErr \<Longrightarrow> \<not> ctx_done s \<Longrightarrow> session_step rd wr cl s Recv (s\<lparr>recv := RCheck\<rparr>)"
| send_ok: "recv s = RSend m \<Longrightarrow> length (msgCh (proto s)) < 100 \<Longrightarrow>
    session_step rd wr cl s Recv (s\<lparr>proto := (proto s)\<lparr>msgCh := msgCh (proto s) @ [m]\<rparr>, recv := RCheck\<rparr>)"
| send_done: "recv s = RSend m \<Longrightarrow> ctx_done s \<Longrightarrow> session_step rd wr cl s Recv (recv_return s)"
| proc_done: "proc s = PLoop \<Longrightarrow> ctx_done s \<Longrightarrow> session_step rd wr cl s Proc (s\<lparr>proc := PStop\<rparr>)"
| proc_msg: "proc s = PLoop \<Longrightarrow> msgCh (proto s) = m # ms \<Longrightarrow>
    session_step rd wr cl s Proc
      (s\<lparr>proto := handleMessage ((proto s)\<lparr>msgCh := ms\<rparr>) m, handled := handled s @ [m]\<rparr>)"
| cancel_parent: "session_step rd wr cl s CancelParent (s\<lparr>ctx_done := True\<rparr>)"
| call_close: "session_step rd wr cl s CallClose (s\<lparr>proto := snd (protocol_Close cl (proto s))\<rparr>)"
| call_send: "SendMessage wr (proto s) m = Ret (err, p) \<Longrightarrow>
    session_step rd wr cl s (CallSend m) (s\<lparr>proto := p\<rparr>)"
| call_subscribe: "session_step rd wr cl s (CallSubscribe t h) (s\<lparr>proto := protocol_Subscribe t h (proto s)\<rparr>)"
| call_unsubscribe: "protocol_Unsubscribe t h (proto s) = Ret p \<Longrightarrow>
    session_step rd wr cl s (CallUnsubscribe t h) (s\<lparr>proto := p\<rparr>)"

inductive session_run ::
  "'t transport_read \<Rightarrow> 't transport_write \<Rightarrow> 't transport_close \<Rightarrow>
   't session \<Rightarrow> event list \<Rightarrow> 't session \<Rightarrow> bool"
  for rd wr cl where
  run_nil: "session_run rd wr cl s [] s"
| run_cons: "session_step rd wr cl s e s' \<Longrightarrow> session_run rd wr cl s' es s'' \<Longrightarrow>
    session_run rd wr cl s (e # es) s''"

inductive_cases session_step_Recv [elim]: "session_step rd wr cl s Recv s'"

section \<open>Fields an operation leaves alone\<close>

lemma SendMessage_frame:
  "SendMessage wr p m = Ret (err, p') \<Longrightarrow> \<exists>t. wr m (transport p) = Ret (err, t) \<and>
     p' = p\<lparr>transport := t, calls := calls p @ (if err = None then MessageHandler_OnMessageTx (msgHandler p) m else [])\<rparr>"
  by (cases "wr m (transport p)") (auto simp: SendMessage_def Let_def go_simps split: prod.splits if_splits)

lemma protocol_Close_frame:
  "snd (protocol_Close cl p) = p\<lparr>own_ctx_done := True, transport := snd (cl (transport p))\<rparr>"
  by (simp add: protocol_Close_def Let_def split: prod.splits)

lemma ReceiveMessage_frame:
  "ReceiveMessage rd p = Some (Ret (res, p')) \<Longrightarrow>
     \<exists>t. rd (transport p) = Some (Ret (res, t)) \<and> p' = p\<lparr>transport := t\<rparr>"
  by (auto simp: ReceiveMessage_def go_simps)

lemma Unsubscribe_frame: "protocol_Unsubscribe t h p = Ret p' \<Longrightarrow> \<exists>subs. p' = p\<lparr>subscribers := subs\<rparr>"
  by (auto simp: protocol_Unsubscribe_def go_simps)

lemma handleMessage_frame:
  "handleMessage p m = p\<lparr>calls := calls p @ MessageHandler_OnMessageRx (msgHandler p) m
     @ map (\<lambda>h. Deliver h m) (OnMessageRx (subscribers p) m)\<rparr>"
  by (simp add: handleMessage_def Let_def)

lemmas protocol_frames = protocol_Close_frame handleMessage_frame protocol_Subscribe_def

section \<open>Messages on their way\<close>

definition in_hand :: "'t session \<Rightarrow> message list" where
  "in_hand s = (case recv s of RSend m \<Rightarrow> [m] | _ \<Rightarrow> [])"

definition session_inv :: "'t session \<Rightarrow> bool" where
  "session_inv s \<longleftrightarrow>
     length (msgCh (proto s)) \<le> 100 \<and>
     (recv s = RStop \<longrightarrow> ctx_done s) \<and>
     (\<exists>lost. received s = handled s @ msgCh (proto s) @ in_hand s @ lost \<and>
        length lost \<le> 1 \<and> (recv s \<noteq> RStop \<longrightarrow> lost = []))"

lemma session_inv_start: "msgCh p = [] \<Longrightarrow> session_inv (StartReceiving p d)"
  by (simp add: session_inv_def StartReceiving_def in_hand_def)

lemma session_step_inv: "session_step rd wr cl s e s' \<Longrightarrow> session_inv s \<Longrightarrow> session_inv s'"
proof (induction rule: session_step.induct)
  case (read_ok s m p)
  then show ?case
    by (auto simp: session_inv_def in_hand_def dest!: ReceiveMessage_frame)
next
  case (read_err s e p)
  then show ?case
    by (auto simp: session_inv_def in_hand_def dest!: ReceiveMessage_frame)
next
  case (call_send s m err p)
  then show ?case
    by (auto simp: session_inv_def in_hand_def dest!: SendMessage_frame)
next
  case (call_unsubscribe t h s p)
  then show ?case
    by (auto simp: session_inv_def in_hand_def dest!: Unsubscribe_frame)
qed (auto simp: session_inv_def in_hand_def recv_return_def protocol_frames)

lemma session_run_inv: "session_run rd wr cl s es s' \<Longrightarrow> session_inv s \<Longrightarrow> session_inv s'"
  by (induction rule: session_run.induct) (auto intro: session_step_inv)

text \<open>The messages the receive handler was called with.\<close>

fun rx_calls :: "callback list \<Rightarrow> message list" where
  "rx_calls [] = []"
| "rx_calls (HandlerRx m # cs) = m # rx_calls cs"
| "rx_calls (_ # cs) = rx_calls cs"

lemma rx_calls_append [simp]: "rx_calls (xs @ ys) = rx_calls xs @ rx_calls ys"
  by (induction xs rule: rx_calls.induct) auto

lemma rx_calls_Deliver [simp]: "rx_calls (map (\<lambda>h. Deliver h m) hs) = []"
  by (induction hs) auto

lemma rx_calls_Tx [simp]: "rx_calls (MessageHandler_OnMessageTx f m) = []"
  by (simp add: MessageHandler_OnMessageTx_def)

definition handler_inv :: "'t session \<Rightarrow> bool" where
  "handler_inv s \<longleftrightarrow> OnMessageRxFunc (msgHandler (proto s)) \<and> rx_calls (calls (proto s)) = handled s"

lemma session_step_handler: "session_step rd wr cl s e s' \<Longrightarrow> handler_inv s \<Longrightarrow> handler_inv s'"
proof (induction rule: session_step.induct)
  case (read_ok s m p)
  then show ?case
    by (auto simp: handler_inv_def dest!: ReceiveMessage_frame)
next
  case (read_err s e p)
  then show ?case
    by (auto simp: handler_inv_def dest!: ReceiveMessage_frame)
next
  case (call_send s m err p)
  then show ?case
    by (auto simp: handler_inv_def dest!: SendMessage_frame)
next
  case (call_unsubscribe t h s p)
  then show ?case
    by (auto simp: handler_inv_def dest!: Unsubscribe_frame)
qed (auto simp: handler_inv_def recv_return_def protocol_frames MessageHandler_OnMessageRx_def)

lemma session_run_handler: "session_run rd wr cl s es s' \<Longrightarrow> handler_inv s \<Longrightarrow> handler_inv s'"
  by (induction rule: session_run.induct) (auto intro: session_step_handler)

section \<open>Stopping\<close>

text \<open>Without a cancellation of the caller's context the receive loop keeps running.\<close>

lemma session_step_running:
  "session_step rd wr cl s e s' \<Longrightarrow> e \<noteq> CancelParent \<Longrightarrow> \<not> ctx_done s \<and> recv s \<noteq> RStop \<Longrightarrow>
   \<not> ctx_done s' \<and> recv s' \<noteq> RStop"
  by (induction rule: session_step.induct) auto

lemma session_run_running:
  "session_run rd wr cl s es s' \<Longrightarrow> CancelParent \<notin> set es \<Longrightarrow> \<not> ctx_done s \<and> recv s \<noteq> RStop \<Longrightarrow>
   \<not> ctx_done s' \<and> recv s' \<noteq> RStop"
proof (induction rule: session_run.induct)
  case (run_cons s e s' es s'')
  then show ?case
    using session_step_running [of rd wr cl s e s'] by auto
qed simp

text \<open>After a cancellation at most the read that is under way still brings a message.\<close>

definition reads_left :: "'t session \<Rightarrow> nat" where
  "reads_left s = (if recv s = RRead then 1 else 0)"

lemma session_step_cancelled:
  "session_step rd wr cl s e s' \<Longrightarrow> ctx_done s \<Longrightarrow>
   ctx_done s' \<and> length (received s') + reads_left s' \<le> length (received s) + reads_left s"
  by (induction rule: session_step.induct) (auto simp: reads_left_def recv_return_def)

lemma session_run_cancelled:
  "session_run rd wr cl s es s' \<Longrightarrow> ctx_done s \<Longrightarrow>
   length (received s') + reads_left s' \<le> length (received s) + reads_left s"
proof (induction rule: session_run.induct)
  case (run_cons s e s' es s'')
  then show ?case
    using session_step_cancelled [of rd wr cl s e s'] by auto
qed simp

lemma session_run_append:
  "session_run rd wr cl s es s' \<Longrightarrow> session_run rd wr cl s' es' s'' \<Longrightarrow> session_run rd wr cl s (es @ es') s''"
  by (induction rule: session_run.induct) (auto intro: run_cons)

section \<open>The interface ITransport\<close>

text \<open>
  What a transport promises about closing: \<open>Close\<close> closes it, it stays closed, and a read from a
  closed transport returns an error at once.
\<close>

locale transport_interface =
  fixes rd :: "'t transport_read" and wr :: "'t transport_write" and cl :: "'t transport_close"
    and closed :: "'t \<Rightarrow> bool"
  assumes close_closes: "closed (snd (cl t))"
    and read_closed: "closed t \<Longrightarrow> \<exists>e t'. rd t = Some (Ret (Inl e, t')) \<and> closed t'"
    and write_closed: "closed t \<Longrightarrow> wr m t = Ret (err, t') \<Longrightarrow> closed t'"
begin

lemma step_closed:
  "session_step rd wr cl s e s' \<Longrightarrow> closed (transport (proto s)) \<Longrightarrow> closed (transport (proto s'))"
proof (induction rule: session_step.induct)
  case (read_ok s m p)
  then show ?case
    using read_closed [of "transport (proto s)"] by (auto dest!: ReceiveMessage_frame)
next
  case (read_err s e p)
  then show ?case
    using read_closed [of "transport (proto s)"] by (auto dest!: ReceiveMessage_frame)
next
  case (call_send s m err p)
  then show ?case
    using write_closed by (auto dest!: SendMessage_frame)
next
  case (call_unsubscribe t h s p)
  then show ?case
    by (auto dest!: Unsubscribe_frame)
qed (auto simp: protocol_frames recv_return_def close_closes)

text \<open>On a closed transport nothing is received any more.\<close>

lemma step_closed_received:
  "session_step rd wr cl s e s' \<Longrightarrow> closed (transport (proto s)) \<Longrightarrow> received s' = received s"
proof (induction rule: session_step.induct)
  case (read_ok s m p)
  then show ?case
    using read_closed [of "transport (proto s)"] by (auto dest!: ReceiveMessage_frame)
qed (auto simp: recv_return_def)

lemma run_closed:
  "session_run rd wr cl s es s' \<Longrightarrow> closed (transport (proto s)) \<Longrightarrow>
   closed (transport (proto s')) \<and> received s' = received s"
proof (induction rule: session_run.induct)
  case (run_cons s e s' es s'')
  then show ?case
    using step_closed [of s e s'] step_closed_received [of s e s'] by auto
qed simp

text \<open>The receive loop turns on a closed transport: check, failed read, check again.\<close>

lemma closed_loop_turns:
  assumes "closed (transport (proto s))" and "recv s = RCheck" and "\<not> ctx_done s"
  shows "\<exists>s'. session_run rd wr cl s [Recv, Recv, Recv] s' \<and> recv s' = RCheck \<and> \<not> ctx_done s' \<and>
     closed (transport (proto s')) \<and> received s' = received s"
proof -
  obtain e t where t: "rd (transport (proto s)) = Some (Ret (Inl e, t))" "closed t"
    using read_closed [OF assms(1)] by blast
  let ?s1 = "s\<lparr>recv := RRead\<rparr>" and ?p = "(proto s)\<lparr>transport := t\<rparr>"
  let ?s2 = "s\<lparr>proto := ?p, recv := RErr\<rparr>"
  have "session_step rd wr cl s Recv ?s1"
    using assms(2,3) by (rule check_go)
  moreover have "session_step rd wr cl ?s1 Recv ?s2"
    using read_err [of ?s1 rd e ?p] t by (simp add: ReceiveMessage_def)
  moreover have "session_step rd wr cl ?s2 Recv (?s2\<lparr>recv := RCheck\<rparr>)"
    using assms(3) by (intro err_retry) simp_all
  ultimately have "session_run rd wr cl s [Recv, Recv, Recv] (?s2\<lparr>recv := RCheck\<rparr>)"
    by (blast intro: run_cons run_nil)
  then show ?thesis
    using t(2) assms(3) by (intro exI [of _ "?s2\<lparr>recv := RCheck\<rparr>"] conjI) simp_all
qed

lemma closed_loop_turns_on:
  assumes "closed (transport (proto s))" and "recv s = RCheck" and "\<not> ctx_done s"
  shows "\<exists>s'. session_run rd wr cl s (replicate (3 * n) Recv) s' \<and> recv s' = RCheck \<and> \<not> ctx_done s' \<and>
     closed (transport (proto s')) \<and> received s' = received s"
  using assms
proof (induction n arbitrary: s)
  case 0
  then show ?case
    by (intro exI [of _ s]) (simp add: run_nil)
next
  case (Suc n)
  obtain s1 where s1: "session_run rd wr cl s [Recv, Recv, Recv] s1" "recv s1 = RCheck" "\<not> ctx_done s1"
      "closed (transport (proto s1))" "received s1 = received s"
    using closed_loop_turns [OF Suc.prems] by blast
  obtain s2 where s2: "session_run rd wr cl s1 (replicate (3 * n) Recv) s2" "recv s2 = RCheck" "\<not> ctx_done s2"
      "closed (transport (proto s2))" "received s2 = received s1"
    using Suc.IH [OF s1(4,2,3)] by blast
  have "session_run rd wr cl s ([Recv, Recv, Recv] @ replicate (3 * n) Recv) s2"
    using s1(1) s2(1) by (rule session_run_append)
  then have "session_run rd wr cl s (replicate (3 * Suc n) Recv) s2"
    by (simp add: numeral_eq_Suc)
  with s1(5) s2 show ?case
    by (intro exI [of _ s2]) simp
qed

end

section \<open>A concrete transport\<close>

text \<open>A transport that delivers the messages of a list and then blocks, for concrete runs.\<close>

definition list_read :: "message list transport_read" where
  "list_read ms = (case ms of [] \<Rightarrow> None | m # ms' \<Rightarrow> Some (Ret (Inr m, ms')))"

definition list_write :: "message list transport_write" where
  "list_write m ms = Ret (None, ms)"

definition list_close :: "message list transport_close" where
  "list_close ms = (None, ms)"

definition demo_msg :: message where
  "demo_msg = \<lparr>Topic = ''a/b'', Payload = [1, 2]\<rparr>"

definition demo_events :: "event list" where
  "demo_events = [Recv, Recv, Recv, Proc]"

lemma demo_run:
  "\<exists>s. session_run list_read list_write list_close
     (StartReceiving (NewProtocol [demo_msg] None h) False) demo_events s \<and> handled s = [demo_msg]"
proof -
  let ?p = "NewProtocol [demo_msg] None h"
  let ?s = "StartReceiving ?p False"
  let ?s1 = "?s\<lparr>recv := RRead\<rparr>"
  let ?s2 = "?s1\<lparr>proto := ?p\<lparr>transport := []\<rparr>, recv := RSend demo_msg, received := received ?s1 @ [demo_msg]\<rparr>"
  let ?s3 = "?s2\<lparr>proto := (proto ?s2)\<lparr>msgCh := msgCh (proto ?s2) @ [demo_msg]\<rparr>, recv := RCheck\<rparr>"
  let ?s4 = "?s3\<lparr>proto := handleMessage ((proto ?s3)\<lparr>msgCh := []\<rparr>) demo_msg, handled := handled ?s3 @ [demo_msg]\<rparr>"
  have "session_step list_read list_write list_close ?s Recv ?s1"
    by (rule check_go) (simp_all add: StartReceiving_def)
  moreover have "session_step list_read list_write list_close ?s1 Recv ?s2"
    by (rule read_ok) (simp_all add: StartReceiving_def ReceiveMessage_def list_read_def NewProtocol_def)
  moreover have "session_step list_read list_write list_close ?s2 Recv ?s3"
    by (rule send_ok) (simp_all add: NewProtocol_def)
  moreover have "session_step list_read list_write list_close ?s3 Proc ?s4"
    by (rule proc_msg) (simp_all add: NewProtocol_def StartReceiving_def)
  ultimately have "session_run list_read list_write list_close ?s demo_events ?s4"
    unfolding demo_events_def by (blast intro: run_cons run_nil)
  then show ?thesis
    by (intro exI [of _ ?s4] conjI) (simp_all add: StartReceiving_def)
qed

section \<open>Properties\<close>



text \<open>Dispatch: the receive handler is called once for every handled message, in order.\<close>

theorem handler_called_for_every_message:
  assumes "session_run rd wr cl (StartReceiving (NewProtocol t subs (Some h)) d) es s"
    and "OnMessageRxFunc h"
  shows "rx_calls (calls (proto s)) = handled s"
proof -
  have "handler_inv (StartReceiving (NewProtocol t subs (Some h)) d)"
    using assms(2) by (simp add: handler_inv_def StartReceiving_def NewProtocol_def)
  then show ?thesis
    using session_run_handler [OF assms(1)] by (simp add: handler_inv_def)
qed

theorem handler_called_for_every_message_witness:
  "\<exists>s. session_run list_read list_write list_close
      (StartReceiving (NewProtocol [demo_msg] None (Some \<lparr>OnMessageRxFunc = True, OnMessageTxFunc = False\<rparr>)) False)
      demo_events s \<and> rx_calls (calls (proto s)) = [demo_msg]"
proof -
  let ?h = "\<lparr>OnMessageRxFunc = True, OnMessageTxFunc = False\<rparr>"
  obtain s where s: "session_run list_read list_write list_close
      (StartReceiving (NewProtocol [demo_msg] None (Some ?h)) False) demo_events s" "handled s = [demo_msg]"
    using demo_run [of "Some ?h"] by blast
  then show ?thesis
    using handler_called_for_every_message [OF s(1)] by auto
qed

text \<open>Cancelling the caller's context stops the intake: from then on at most one more message is
  received, whatever the schedule.\<close>

theorem cancel_stops_receiving:
  assumes "session_run rd wr cl s es s'" and "ctx_done s"
  shows "length (received s') \<le> length (received s) + 1"
  using session_run_cancelled [OF assms] by (auto simp: reads_left_def split: if_splits)

theorem cancel_stops_receiving_witness:
  "session_run list_read list_write list_close (StartReceiving (NewProtocol [demo_msg] None None) True) [Recv]
     (recv_return (StartReceiving (NewProtocol [demo_msg] None None) True)) \<and>
   length (received (recv_return (StartReceiving (NewProtocol [demo_msg] None None) True))) \<le> 1"
proof -
  let ?s = "StartReceiving (NewProtocol [demo_msg] None None) True"
  have run: "session_run list_read list_write list_close ?s [Recv] (recv_return ?s)"
    by (rule run_cons [OF check_done run_nil]) (simp_all add: StartReceiving_def)
  then show ?thesis
    using cancel_stops_receiving [OF run] by (simp add: StartReceiving_def)
qed

text \<open>\<open>Close\<close> does not stop the goroutines: it cancels a context nobody waits on, so as long as
  the caller's context is not cancelled, the receive loop of a closed protocol never returns.\<close>

theorem Close_leaves_receive_loop:
  assumes "session_run rd wr cl (StartReceiving p False) es s" and "CancelParent \<notin> set es"
  shows "recv s \<noteq> RStop \<and> \<not> ctx_done s"
  using session_run_running [OF assms] by (simp add: StartReceiving_def)

theorem Close_leaves_receive_loop_witness:
  "\<exists>s. session_run list_read list_write list_close (StartReceiving (NewProtocol [] None None) False)
      [CallClose] s \<and> own_ctx_done (proto s) \<and> recv s \<noteq> RStop \<and> \<not> ctx_done s"
proof -
  let ?s = "StartReceiving (NewProtocol [] None None) False"
  let ?s' = "?s\<lparr>proto := snd (protocol_Close list_close (proto ?s))\<rparr>"
  have run: "session_run list_read list_write list_close ?s [CallClose] ?s'"
    by (rule run_cons [OF call_close run_nil])
  then show ?thesis
    using Close_leaves_receive_loop [OF run] by (auto simp: protocol_frames)
qed

end
