(* ===== verification/Qdp_Tcp.thy ===== *)
theory Qdp_Tcp
  imports Qdp_Connection Qdp_Protocol
begin

text \<open>
  \<open>TCPClientTransport\<close> of \<open>lib/go/transport_tcp.go\<close>. The connection is foreign code: its operations
  are the parameter \<open>ops\<close>. The transport and its \<open>MessageReader\<close> share one connection, so the
  connection is kept in the reader's field \<open>reader\<close>, and \<open>WriteMessage\<close> and \<open>Close\<close> act on it there.
  \<open>fuel\<close> bounds the scan loop of the reader's \<open>ReadMessage\<close>.
\<close>

section \<open>Definitions\<close>

record 'c tcp_client =
  client_reader :: "'c message_reader"
  client_handler :: "connection_handler option"
  client_done :: bool
  client_disconnected :: bool
  client_events :: "conn_event list"

definition NewTCPClientTransportFromConn :: "'c \<Rightarrow> connection_handler option \<Rightarrow> 'c tcp_client" where
  "NewTCPClientTransportFromConn conn h =
     \<lparr>client_reader = NewMessageReader conn, client_handler = h, client_done = False,
      client_disconnected = False, client_events = []\<rparr>"

text \<open>\<open>dial\<close> is \<open>net.Dial\<close>.\<close>

definition NewTCPClientTransport ::
  "(string \<Rightarrow> go_error + 'c) \<Rightarrow> string \<Rightarrow> connection_handler option \<Rightarrow> go_error + 'c tcp_client" where
  "NewTCPClientTransport dial address h =
     (case dial address of
        Inl err \<Rightarrow> Inl (Wrapf ''failed to dial: '' err)
      | Inr conn \<Rightarrow>
          let t = \<lparr>client_reader = NewMessageReader conn, client_handler = h, client_done = False,
                   client_disconnected = False, client_events = []\<rparr>
          in Inr (case h of None \<Rightarrow> t | Some f \<Rightarrow> t\<lparr>client_events := client_events t @ OnConnect f\<rparr>))"

definition client_disconnect :: "go_error option \<Rightarrow> 'c tcp_client \<Rightarrow> 'c tcp_client" where
  "client_disconnect err t =
     (let (flag, es) = disconnect_once (client_handler t) err (client_disconnected t, client_events t)
      in t\<lparr>client_disconnected := flag, client_events := es\<rparr>)"

text \<open>The \<open>default\<close> branch of \<open>ReadMessage\<close>, entered when the context was not done.\<close>

definition client_read_default :: "nat \<Rightarrow> 'c net_conn \<Rightarrow> 'c tcp_client transport_read" where
  "client_read_default fuel ops t =
     (case ReadMessage fuel (conn_Read ops) (client_reader t) of
        None \<Rightarrow> None
      | Some Panic \<Rightarrow> Some Panic
      | Some (Ret (Inl err, r)) \<Rightarrow>
          Some (Ret (Inl err, client_disconnect (Some err) (t\<lparr>client_reader := r\<rparr>)))
      | Some (Ret (Inr msg, r)) \<Rightarrow> Some (Ret (Inr (load r msg), t\<lparr>client_reader := r\<rparr>)))"

definition client_ReadMessage :: "nat \<Rightarrow> 'c net_conn \<Rightarrow> 'c tcp_client transport_read" where
  "client_ReadMessage fuel ops t =
     (if client_done t then Some (Ret (Inl EOF, t)) else client_read_default fuel ops t)"

definition set_conn :: "'c \<Rightarrow> 'c tcp_client \<Rightarrow> 'c tcp_client" where
  "set_conn c t = t\<lparr>client_reader := (client_reader t)\<lparr>reader := c\<rparr>\<rparr>"

definition client_WriteMessage :: "'c net_conn \<Rightarrow> 'c tcp_client transport_write" where
  "client_WriteMessage ops msg t =
     (if client_done t then Ret (Some EOF, t)
      else go_bind (writeMessage (conn_Write ops) (reader (client_reader t)) msg) (\<lambda>(err, c).
           Ret (err, set_conn c t)))"

definition client_Close :: "'c net_conn \<Rightarrow> 'c tcp_client transport_close" where
  "client_Close ops t =
     (let t = t\<lparr>client_done := True\<rparr>;
          (err, c) = conn_Close ops (reader (client_reader t))
      in (err, client_disconnect err (set_conn c t)))"

text \<open>
  Interleavings of the three methods. A call of \<open>ReadMessage\<close> is two steps, the check of the context
  and the read with its callback, and \<open>reading\<close> says that a call is between them, so that \<open>Close\<close>
  and \<open>WriteMessage\<close> can happen while a read is blocked.
\<close>

datatype client_op = ReadEnter | ReadLeave | WriteOp message | CloseOp

inductive client_step ::
  "nat \<Rightarrow> 'c net_conn \<Rightarrow> bool \<times> 'c tcp_client \<Rightarrow> client_op \<Rightarrow> bool \<times> 'c tcp_client \<Rightarrow> bool"
  for fuel ops where
  enter_done: "client_done t \<Longrightarrow> client_step fuel ops (False, t) ReadEnter (False, t)"
| enter_go: "\<not> client_done t \<Longrightarrow> client_step fuel ops (False, t) ReadEnter (True, t)"
| op_leave: "client_read_default fuel ops t = Some (Ret (res, t')) \<Longrightarrow>
    client_step fuel ops (True, t) ReadLeave (False, t')"
| op_write: "client_WriteMessage ops m t = Ret (err, t') \<Longrightarrow>
    client_step fuel ops (b, t) (WriteOp m) (b, t')"
| op_close: "client_Close ops t = (err, t') \<Longrightarrow> client_step fuel ops (b, t) CloseOp (b, t')"

inductive client_run ::
  "nat \<Rightarrow> 'c net_conn \<Rightarrow> bool \<times> 'c tcp_client \<Rightarrow> client_op list \<Rightarrow> bool \<times> 'c tcp_client \<Rightarrow> bool"
  for fuel ops where
  client_run_nil: "client_run fuel ops s [] s"
| client_run_cons: "client_step fuel ops s e s' \<Longrightarrow> client_run fuel ops s' es s'' \<Longrightarrow>
    client_run fuel ops s (e # es) s''"

section \<open>Frames\<close>

lemma client_disconnect_sel [simp]:
  "client_reader (client_disconnect err t) = client_reader t"
  "client_handler (client_disconnect err t) = client_handler t"
  "client_done (client_disconnect err t) = client_done t"
  "(client_disconnected (client_disconnect err t), client_events (client_disconnect err t)) =
     disconnect_once (client_handler t) err (client_disconnected t, client_events t)"
  by (simp_all add: client_disconnect_def split: prod.splits)

lemma set_conn_sel [simp]:
  "client_handler (set_conn c t) = client_handler t" "client_done (set_conn c t) = client_done t"
  "client_disconnected (set_conn c t) = client_disconnected t"
  "client_events (set_conn c t) = client_events t"
  "reader (client_reader (set_conn c t)) = c"
  by (simp_all add: set_conn_def)

lemma client_read_default_cases:
  assumes "client_read_default fuel ops t = Some (Ret (res, t'))"
  obtains (err) e r where "res = Inl e" and "t' = client_disconnect (Some e) (t\<lparr>client_reader := r\<rparr>)"
      and "ReadMessage fuel (conn_Read ops) (client_reader t) = Some (Ret (Inl e, r))"
  | (msg) msg r where "res = Inr (load r msg)" and "t' = t\<lparr>client_reader := r\<rparr>"
      and "ReadMessage fuel (conn_Read ops) (client_reader t) = Some (Ret (Inr msg, r))"
  using assms by (auto simp: client_read_default_def split: option.splits go.splits prod.splits sum.splits)

lemma client_WriteMessage_frame:
  "client_WriteMessage ops m t = Ret (err, t') \<Longrightarrow> t' = t \<or> (\<exists>c. t' = set_conn c t)"
  by (auto simp: client_WriteMessage_def go_simps split: if_splits prod.splits)

lemma client_Close_frame:
  "client_Close ops t = (err, t') \<Longrightarrow> \<exists>c. t' = client_disconnect err (set_conn c (t\<lparr>client_done := True\<rparr>))"
  by (auto simp: client_Close_def Let_def split: prod.splits)

section \<open>The disconnect callback\<close>

definition client_inv :: "'c tcp_client \<Rightarrow> bool" where
  "client_inv t \<longleftrightarrow>
     disconnect_inv (client_handler t) (client_disconnected t, client_events t) \<and>
     (client_done t \<and> client_handler t \<noteq> None \<longrightarrow> client_disconnected t)"

lemma client_inv_reader [simp]: "client_inv (t\<lparr>client_reader := r\<rparr>) = client_inv t"
  by (simp add: client_inv_def)

lemma client_inv_set_conn [simp]: "client_inv (set_conn c t) = client_inv t"
  by (simp add: client_inv_def)

lemma client_invD: "client_inv t \<Longrightarrow> disconnect_inv (client_handler t) (client_disconnected t, client_events t)"
  by (simp add: client_inv_def)

lemma client_inv_disconnect:
  assumes "disconnect_inv (client_handler t) (client_disconnected t, client_events t)"
  shows "client_inv (client_disconnect err t)"
proof -
  let ?st = "disconnect_once (client_handler t) err (client_disconnected t, client_events t)"
  have "client_disconnected (client_disconnect err t) = fst ?st"
    by (metis client_disconnect_sel(4) fst_conv)
  then show ?thesis
    using disconnect_once_inv [OF assms, of err] disconnect_once_set [of "client_handler t"]
    unfolding client_inv_def client_disconnect_sel by auto
qed

lemma client_step_inv:
  assumes "client_step fuel ops s e s'" and "client_inv (snd s)"
  shows "client_inv (snd s') \<and> client_handler (snd s') = client_handler (snd s) \<and>
     (client_done (snd s) \<or> e = CloseOp \<longrightarrow> client_done (snd s'))"
  using assms
proof (induction rule: client_step.induct)
  case (op_leave t res t')
  then show ?case
    by (elim client_read_default_cases) (auto intro!: client_inv_disconnect dest: client_invD)
next
  case (op_write m t err t' b)
  then show ?case
    by (auto dest!: client_WriteMessage_frame)
next
  case (op_close t err t' b)
  then show ?case
    by (auto dest!: client_Close_frame intro!: client_inv_disconnect dest: client_invD)
qed auto

lemma client_run_inv:
  assumes "client_run fuel ops s es s'" and "client_inv (snd s)"
  shows "client_inv (snd s') \<and> client_handler (snd s') = client_handler (snd s) \<and>
     (client_done (snd s) \<or> CloseOp \<in> set es \<longrightarrow> client_done (snd s'))"
  using assms
proof (induction rule: client_run.induct)
  case (client_run_cons s e s' es s'')
  then show ?case
    using client_step_inv [OF client_run_cons.hyps(1)] by auto
qed simp

lemma NewTCPClientTransport_inv:
  "NewTCPClientTransport dial address h = Inr t \<Longrightarrow>
   client_inv t \<and> client_handler t = h \<and> \<not> client_done t \<and> disconnects (client_events t) = 0"
  by (auto simp: NewTCPClientTransport_def client_inv_def Let_def intro!: disconnect_inv_start
      split: sum.splits option.splits)

section \<open>The transport interface\<close>

interpretation tcp: transport_interface
  "client_ReadMessage fuel ops" "client_WriteMessage ops" "client_Close ops" client_done
  for fuel and ops :: "'c net_conn"
proof
  fix t :: "'c tcp_client"
  show "client_done (snd (client_Close ops t))"
    using client_Close_frame [of ops t] by (cases "client_Close ops t") auto
next
  fix t :: "'c tcp_client"
  assume "client_done t"
  then show "\<exists>e t'. client_ReadMessage fuel ops t = Some (Ret (Inl e, t')) \<and> client_done t'"
    by (simp add: client_ReadMessage_def)
next
  fix t t' :: "'c tcp_client" and m err
  assume "client_done t" and "client_WriteMessage ops m t = Ret (err, t')"
  then show "client_done t'"
    by (auto dest!: client_WriteMessage_frame)
qed

section \<open>Connections that keep their contract\<close>

text \<open>
  What is documented for \<open>net.Conn\<close>: reads and writes move at most the bytes they are given, and a
  closed connection stays closed and reports an error to every read.
\<close>

definition conn_contract :: "'c net_conn \<Rightarrow> ('c \<Rightarrow> bool) \<Rightarrow> bool" where
  "conn_contract ops closed \<longleftrightarrow>
     (\<forall>c n bs err c'. conn_Read ops c n = (bs, err, c') \<longrightarrow>
        length bs \<le> n \<and> (closed c \<longrightarrow> bs = [] \<and> err \<noteq> None \<and> closed c')) \<and>
     (\<forall>c bs n err c'. conn_Write ops c bs = (n, err, c') \<longrightarrow> n \<le> length bs \<and> (closed c \<longrightarrow> closed c')) \<and>
     (\<forall>c err c'. conn_Close ops c = (err, c') \<longrightarrow> closed c')"

definition client_ok :: "('c \<Rightarrow> bool) \<Rightarrow> 'c tcp_client \<Rightarrow> bool" where
  "client_ok closed c \<longleftrightarrow>
     reader_inv (client_reader c) \<and> (client_done c \<longrightarrow> closed (reader (client_reader c)))"

lemma conn_io_reader: "conn_contract ops closed \<Longrightarrow> io_reader (conn_Read ops) (\<lambda>c. d \<longrightarrow> closed c)"
  by unfold_locales (auto simp: conn_contract_def)

lemma conn_dead:
  assumes "conn_contract ops closed" and "closed c"
  shows "dead (conn_Read ops) c"
  unfolding dead_def
proof
  fix n
  obtain bs err c' where rd: "conn_Read ops c n = (bs, err, c')"
    by (cases "conn_Read ops c n") auto
  then have "bs = []" "err \<noteq> None"
    using assms by (simp_all add: conn_contract_def)
  with rd show "\<exists>err s'. conn_Read ops c n = ([], Some err, s')"
    by auto
qed

lemma client_ok_new: "client_ok closed (NewTCPClientTransportFromConn conn h)"
  by (simp add: client_ok_def NewTCPClientTransportFromConn_def)

lemma client_ok_disconnect [simp]: "client_ok closed (client_disconnect err c) = client_ok closed c"
  by (simp add: client_ok_def)

lemma client_ok_set_conn: "client_ok closed c \<Longrightarrow> (client_done c \<Longrightarrow> closed x) \<Longrightarrow> client_ok closed (set_conn x c)"
  by (simp add: client_ok_def set_conn_def reader_inv_def)

lemma delivered_fits: "delivered r msg \<Longrightarrow> wire_fits (load r msg)"
  by (auto simp: delivered_def Let_def wire_fits_def)

lemma client_read_ok:
  assumes "conn_contract ops closed" and "client_ok closed c"
    and "client_read_default fuel ops c = Some out"
  obtains res c' where "out = Ret (res, c')" and "client_ok closed c'" and "client_done c' = client_done c"
    and "\<And>m. res = Inr m \<Longrightarrow> wire_fits m"
proof -
  note good = io_reader.read_run_good [OF conn_io_reader [OF assms(1), of "client_done c"],
      of "client_reader c" _ Outer]
  have inv: "reader_inv (client_reader c)" "client_done c \<longrightarrow> closed (reader (client_reader c))"
    using assms(2) by (auto simp: client_ok_def)
  obtain o' where o': "ReadMessage fuel (conn_Read ops) (client_reader c) = Some o'"
    using assms(3) by (auto simp: client_read_default_def split: option.splits)
  then obtain res r where r: "o' = Ret (res, r)" "good_outcome (\<lambda>x. client_done c \<longrightarrow> closed x) (Return res r)"
    using good [OF inv] unfolding ReadMessage_def by blast
  show ?thesis
  proof (cases res)
    case (Inl e)
    then show ?thesis
      using that [of "Inl e" "client_disconnect (Some e) (c\<lparr>client_reader := r\<rparr>)"] r o' assms(3)
      by (simp add: client_read_default_def client_ok_def)
  next
    case (Inr msg)
    then show ?thesis
      using that [of "Inr (load r msg)" "c\<lparr>client_reader := r\<rparr>"] r o' assms(3) delivered_fits [of r msg]
      by (simp add: client_read_default_def client_ok_def)
  qed
qed

lemma client_write_ok:
  assumes "conn_contract ops closed" and "client_ok closed c" and "wire_fits m"
  obtains err c' where "client_WriteMessage ops m c = Ret (err, c')" and "client_ok closed c'"
    and "client_done c' = client_done c"
proof (cases "client_done c")
  case True
  then show ?thesis
    using that [of "Some EOF" c] assms(2) by (simp add: client_WriteMessage_def)
next
  case False
  obtain n err x where w: "conn_Write ops (reader (client_reader c)) (wire m) = (n, err, x)"
    by (cases "conn_Write ops (reader (client_reader c)) (wire m)") auto
  then have n: "n \<le> length (wire m)"
    using assms(1) unfolding conn_contract_def by blast
  then have "client_WriteMessage ops m c = Ret (err, set_conn x c)"
    using False w assms(3) by (simp add: client_WriteMessage_def writeMessage_def write_frame_wire)
  then show ?thesis
    using that False client_ok_set_conn [OF assms(2)] by simp
qed

lemma client_close_ok:
  assumes "conn_contract ops closed" and "client_ok closed c" and "client_Close ops c = (err, c')"
  shows "client_ok closed c' \<and> client_done c'"
proof -
  obtain x where x: "conn_Close ops (reader (client_reader c)) = (err, x)"
      "c' = client_disconnect err (set_conn x (c\<lparr>client_done := True\<rparr>))"
    using assms(3) by (auto simp: client_Close_def Let_def split: prod.splits)
  then have "closed x"
    using assms(1) unfolding conn_contract_def by blast
  then show ?thesis
    using x(2) assms(2) by (simp add: client_ok_def set_conn_def reader_inv_def)
qed

text \<open>A read from a closed client returns.\<close>

lemma client_read_dead:
  assumes "conn_contract ops closed" and "client_ok closed c" and "client_done c" and "2050 \<le> fuel"
  shows "\<exists>out. client_read_default fuel ops c = Some out"
proof -
  have "dead (conn_Read ops) (reader (client_reader c))" "reader_inv (client_reader c)"
    using conn_dead [OF assms(1)] assms(2,3) by (simp_all add: client_ok_def)
  then obtain out where "ReadMessage fuel (conn_Read ops) (client_reader c) = Some out"
    using ReadMessage_dead [of "client_reader c" "conn_Read ops" "fuel - 2050"] assms(4) by auto
  then show ?thesis
    by (auto simp: client_read_default_def split: go.splits sum.splits)
qed

section \<open>Properties\<close>

text \<open>C34. The disconnect callback of a TCP client: however reads, writes and closes interleave, a client
  made by \<open>NewTCPClientTransport\<close> calls \<open>OnDisconnect\<close> at most once, and exactly once when \<open>Close\<close>
  was called and the callback is set; after \<open>Close\<close> the client stays closed.\<close>

theorem client_disconnects_once:
  assumes "NewTCPClientTransport dial address h = Inr t" and "client_run fuel ops (False, t) es (b, t')"
  shows "disconnects (client_events t') \<le> 1 \<and>
     (CloseOp \<in> set es \<longrightarrow> client_done t' \<and>
        disconnects (client_events t') = (if \<exists>f. h = Some f \<and> OnDisconnectFunc f then 1 else 0))"
proof -
  have t: "client_inv t" "client_handler t = h"
    using NewTCPClientTransport_inv [OF assms(1)] by simp_all
  then have "client_inv t'" "client_handler t' = h" "CloseOp \<in> set es \<longrightarrow> client_done t'"
    using client_run_inv [OF assms(2)] by simp_all
  then show ?thesis
    by (auto simp: client_inv_def disconnect_inv_def split: if_splits)
qed

text \<open>A connection that is closed without an error and reads nothing.\<close>

definition quiet_conn :: "unit net_conn" where
  "quiet_conn = \<lparr>conn_Read = (\<lambda>c n. ([], Some EOF, c)), conn_Write = (\<lambda>c bs. (length bs, None, c)),
     conn_Close = (\<lambda>c. (None, c))\<rparr>"

definition both_callbacks :: connection_handler where
  "both_callbacks = \<lparr>OnConnectFunc = True, OnDisconnectFunc = True\<rparr>"

theorem client_disconnects_once_witness:
  "\<exists>t b t'. NewTCPClientTransport (\<lambda>_. Inr ()) ''host:1'' (Some both_callbacks) = Inr t \<and>
     client_run 1 quiet_conn (False, t) [ReadEnter, CloseOp, CloseOp] (b, t') \<and>
     disconnects (client_events t') = 1"
proof -
  define t where "t = projr (NewTCPClientTransport (\<lambda>_. Inr ()) ''host:1'' (Some both_callbacks))"
  have t: "NewTCPClientTransport (\<lambda>_. Inr ()) ''host:1'' (Some both_callbacks) = Inr t"
    by (simp add: t_def NewTCPClientTransport_def Let_def)
  then have nd: "\<not> client_done t"
    using NewTCPClientTransport_inv by blast
  define u where "u = snd (client_Close quiet_conn t)"
  define v where "v = snd (client_Close quiet_conn u)"
  have "client_step 1 quiet_conn (False, t) ReadEnter (True, t)"
    using nd by (rule enter_go)
  moreover have "client_step 1 quiet_conn (True, t) CloseOp (True, u)"
    unfolding u_def by (rule op_close [of _ _ "fst (client_Close quiet_conn t)"]) simp
  moreover have "client_step 1 quiet_conn (True, u) CloseOp (True, v)"
    unfolding v_def by (rule op_close [of _ _ "fst (client_Close quiet_conn u)"]) simp
  ultimately have run: "client_run 1 quiet_conn (False, t) [ReadEnter, CloseOp, CloseOp] (True, v)"
    by (blast intro: client_run_cons client_run_nil)
  then show ?thesis
    using client_disconnects_once [OF t run] t by (auto simp: both_callbacks_def)
qed

text \<open>A protocol over a TCP client, once the client is closed: whatever happens afterwards, nothing
  is received any more.\<close>

theorem tcp_closed_receives_nothing:
  assumes "client_done (transport (proto s))"
    and "session_run (client_ReadMessage fuel ops) (client_WriteMessage ops) (client_Close ops) s es s'"
  shows "received s' = received s \<and> client_done (transport (proto s'))"
  using tcp.run_closed [OF assms(2,1)] by simp

theorem tcp_closed_receives_nothing_witness:
  "\<exists>s'. session_run (client_ReadMessage 1 quiet_conn) (client_WriteMessage quiet_conn) (client_Close quiet_conn)
      (StartReceiving (NewProtocol (snd (client_Close quiet_conn
         (NewTCPClientTransportFromConn () None))) None None) False) [Recv] s' \<and> received s' = []"
proof -
  let ?s = "StartReceiving (NewProtocol (snd (client_Close quiet_conn
     (NewTCPClientTransportFromConn () None))) None None) False"
  have c: "client_done (transport (proto ?s))"
    by (simp add: StartReceiving_def NewProtocol_def client_Close_def Let_def quiet_conn_def)
  have run: "session_run (client_ReadMessage 1 quiet_conn) (client_WriteMessage quiet_conn)
      (client_Close quiet_conn) ?s [Recv] (?s\<lparr>recv := RRead\<rparr>)"
    by (rule run_cons [OF check_go run_nil]) (simp_all add: StartReceiving_def)
  then show ?thesis
    using tcp_closed_receives_nothing [OF c run] by (auto simp: StartReceiving_def)
qed

text \<open>Closing the protocol of a TCP client does not end its receive loop: as long as the caller's
  context is not cancelled the loop can poll the closed client any number of times.\<close>

theorem tcp_closed_loop_polls:
  assumes "recv s = RCheck" and "\<not> ctx_done s"
  shows "\<exists>s'. session_run (client_ReadMessage fuel ops) (client_WriteMessage ops) (client_Close ops)
      s (CallClose # replicate (3 * n) Recv) s' \<and> recv s' = RCheck \<and> received s' = received s"
proof -
  let ?s = "s\<lparr>proto := snd (protocol_Close (client_Close ops) (proto s))\<rparr>"
  have "session_step (client_ReadMessage fuel ops) (client_WriteMessage ops) (client_Close ops) s CallClose ?s"
    by (rule call_close)
  moreover have "client_done (transport (proto ?s))"
    by (simp add: protocol_frames tcp.close_closes)
  ultimately show ?thesis
    using tcp.closed_loop_turns_on [of ?s fuel ops n] assms by (fastforce intro: run_cons)
qed

theorem tcp_closed_loop_polls_witness:
  "\<exists>s'. session_run (client_ReadMessage 1 quiet_conn) (client_WriteMessage quiet_conn) (client_Close quiet_conn)
      (StartReceiving (NewProtocol (NewTCPClientTransportFromConn () None) None None) False)
      (CallClose # replicate (3 * 7) Recv) s' \<and> recv s' = RCheck \<and> received s' = []"
  using tcp_closed_loop_polls [of "StartReceiving (NewProtocol (NewTCPClientTransportFromConn () None) None None) False"
      1 quiet_conn 7] by (simp add: StartReceiving_def)

end
