(* ===== verification/Qdp_Pipe.thy ===== *)
theory Qdp_Pipe
  imports Qdp_Tcp
begin

text \<open>
  A concrete connection: the bytes to come in segments, the segments written so far, and whether it
  is closed. It satisfies the contract of \<open>net.Conn\<close>, so the hypotheses on foreign connections can
  hold, and it is the medium of the end-to-end statements. The reader's results for segments carry
  over to it by an embedding.
\<close>

section \<open>Readers behind an embedding\<close>

definition map_reader :: "('a \<Rightarrow> 'b) \<Rightarrow> 'a message_reader \<Rightarrow> 'b message_reader" where
  "map_reader f r = \<lparr>reader = f (reader r), buffer = buffer r, pos = pos r, count = count r\<rparr>"

lemma map_reader_sel [simp]:
  "reader (map_reader f r) = f (reader r)" "buffer (map_reader f r) = buffer r"
  "pos (map_reader f r) = pos r" "count (map_reader f r) = count r"
  "map_reader f (r\<lparr>reader := x\<rparr>) = (map_reader f r)\<lparr>reader := f x\<rparr>"
  "map_reader f (r\<lparr>buffer := b\<rparr>) = (map_reader f r)\<lparr>buffer := b\<rparr>"
  "map_reader f (r\<lparr>pos := p\<rparr>) = (map_reader f r)\<lparr>pos := p\<rparr>"
  "map_reader f (r\<lparr>count := n\<rparr>) = (map_reader f r)\<lparr>count := n\<rparr>"
  by (simp_all add: map_reader_def)

lemma load_map_reader [simp]: "load (map_reader f r) msg = load r msg"
  by (simp add: load_def)

lemma map_reader_new [simp]: "map_reader f (NewMessageReader s) = NewMessageReader (f s)"
  by (simp add: map_reader_def NewMessageReader_def)

text \<open>\<open>f\<close> maps the states of one reader, as far as they satisfy \<open>ok\<close>, to those of another that behaves the
  same.\<close>

definition embeds :: "('a \<Rightarrow> bool) \<Rightarrow> ('a \<Rightarrow> 'b) \<Rightarrow> 'a io_read \<Rightarrow> 'b io_read \<Rightarrow> bool" where
  "embeds ok f rd rd' \<longleftrightarrow>
     (\<forall>s n bs err s'. ok s \<longrightarrow> rd s n = (bs, err, s') \<longrightarrow> rd' (f s) n = (bs, err, f s') \<and> ok s')"

fun map_outcome :: "('a \<Rightarrow> 'b) \<Rightarrow> 'a read_outcome \<Rightarrow> 'b read_outcome" where
  "map_outcome f (Continue pc r) = Continue pc (map_reader f r)"
| "map_outcome f (Return res r) = Return res (map_reader f r)"
| "map_outcome f Crash = Crash"

lemma shift_buffer_embed:
  "shift_buffer (map_reader f r) = go_bind (shift_buffer r) (\<lambda>r. Ret (map_reader f r))"
  by (simp add: shift_buffer_def go_bind_assoc map_reader_def)

lemma shift_buffer_reader: "shift_buffer r = Ret q \<Longrightarrow> reader q = reader r"
  by (auto simp: shift_buffer_def go_simps split: if_splits)

lemma readMore_embed:
  assumes "embeds ok f rd rd'" and "ok (reader r)"
  shows "readMore rd' (map_reader f r) = go_bind (readMore rd r) (\<lambda>(err, r). Ret (err, map_reader f r))"
proof (cases "shift_buffer r")
  case (Ret q)
  show ?thesis
  proof (cases "go_slice (buffer q) (count q) (length (buffer q))")
    case slice: (Ret p)
    obtain bs err s where rd: "rd (reader q) (length p) = (bs, err, s)"
      by (cases "rd (reader q) (length p)") auto
    then have rd': "rd' (f (reader q)) (length p) = (bs, err, f s)"
      using assms shift_buffer_reader [OF Ret] by (simp add: embeds_def)
    show ?thesis
      using Ret slice rd rd'
      by (cases "copy_at (buffer q) (count q) bs") (simp_all add: readMore_def shift_buffer_embed Let_def)
  qed (use Ret in \<open>simp add: readMore_def shift_buffer_embed\<close>)
qed (simp add: readMore_def shift_buffer_embed)

lemma readMore_keeps:
  assumes "embeds ok f rd rd'" and "ok (reader r)" and "readMore rd r = Ret (err, r')"
  shows "ok (reader r')"
proof -
  obtain q where q: "shift_buffer r = Ret q"
    using assms(3) by (auto simp: readMore_def go_simps)
  obtain p where p: "go_slice (buffer q) (count q) (length (buffer q)) = Ret p"
    using assms(3) q by (auto simp: readMore_def go_simps)
  obtain bs e s where rd: "rd (reader q) (length p) = (bs, e, s)"
    by (cases "rd (reader q) (length p)") auto
  have "reader r' = s"
    using assms(3) q p rd by (auto simp: readMore_def go_simps Let_def split: if_splits)
  moreover have "ok s"
    using assms(1,2) rd shift_buffer_reader [OF q] unfolding embeds_def by metis
  ultimately show ?thesis
    by simp
qed

lemma tryParse_embed [simp]: "tryParseMessage (map_reader f r) s n = tryParseMessage r s n"
  by (simp add: tryParseMessage_def)

lemma outer_step_embed:
  "embeds ok f rd rd' \<Longrightarrow> ok (reader r) \<Longrightarrow> outer_step rd' (map_reader f r) = map_outcome f (outer_step rd r)"
  by (auto simp: outer_step_def readMore_embed split: go.splits prod.splits option.splits)

lemma scan_step_embed:
  assumes "embeds ok f rd rd'" and "ok (reader r)"
  shows "scan_step rd' s (map_reader f r) = map_outcome f (scan_step rd s r)"
proof -
  note rm = readMore_embed [OF assms(1)]
  have "readMore rd' ((map_reader f r)\<lparr>pos := p\<rparr>) =
      go_bind (readMore rd (r\<lparr>pos := p\<rparr>)) (\<lambda>(err, r). Ret (err, map_reader f r))" for p
    using rm [of "r\<lparr>pos := p\<rparr>"] assms(2) by simp
  then show ?thesis
    using rm [OF assms(2)]
    by (auto simp: scan_step_def Let_def split: go.splits prod.splits option.splits sum.splits)
qed

lemma read_step_keeps:
  assumes "embeds ok f rd rd'" and "ok (reader r)" and "read_step rd pc r = Continue pc' r'"
  shows "ok (reader r')"
proof -
  have keeps: "ok (reader q')" if "readMore rd q = Ret (err, q')" "reader q = reader r" for q err q'
    using readMore_keeps [OF assms(1) _ that(1)] that(2) assms(2) by simp
  show ?thesis
  proof (cases pc)
    case Outer
    then show ?thesis
      using assms(2,3) keeps [of r]
      by (auto simp: outer_step_def split: if_splits go.splits prod.splits option.splits)
  next
    case (Scan s)
    then show ?thesis
      using assms(2,3) keeps [of r] keeps [of "r\<lparr>pos := nat (maxInt (int (count r) - 8) 0)\<rparr>"]
      by (auto simp: scan_step_def Let_def split: if_splits go.splits prod.splits option.splits sum.splits)
  qed
qed

lemma read_run_embed:
  assumes "embeds ok f rd rd'" and "ok (reader r)"
  shows "read_run fuel rd' pc (map_reader f r) =
     map_option (\<lambda>out. go_bind out (\<lambda>(res, r). Ret (res, map_reader f r))) (read_run fuel rd pc r)"
  using assms(2)
proof (induction fuel arbitrary: pc r)
  case (Suc fuel)
  have "read_step rd' pc (map_reader f r) = map_outcome f (read_step rd pc r)"
    using outer_step_embed [OF assms(1) Suc.prems] scan_step_embed [OF assms(1) Suc.prems] by (cases pc) auto
  then show ?case
    using Suc.IH read_step_keeps [OF assms(1) Suc.prems] by (cases "read_step rd pc r") auto
qed simp

section \<open>The connection\<close>

record pipe =
  pipe_in :: "byte list list"
  pipe_out :: "byte list list"
  pipe_closed :: bool

definition open_pipe :: "byte list list \<Rightarrow> byte list list \<Rightarrow> pipe" where
  "open_pipe outs segs = \<lparr>pipe_in = segs, pipe_out = outs, pipe_closed = False\<rparr>"

definition pipe_Read :: "pipe io_read" where
  "pipe_Read p n =
     (if pipe_closed p then ([], Some (ErrText ''use of closed network connection''), p)
      else case segments_read (pipe_in p) n of (bs, err, segs) \<Rightarrow> (bs, err, p\<lparr>pipe_in := segs\<rparr>))"

definition pipe_Write :: "pipe \<Rightarrow> byte list \<Rightarrow> nat \<times> go_error option \<times> pipe" where
  "pipe_Write p bs =
     (if pipe_closed p then (0, Some (ErrText ''use of closed network connection''), p)
      else (length bs, None, p\<lparr>pipe_out := pipe_out p @ [bs]\<rparr>))"

definition pipe_ops :: "pipe net_conn" where
  "pipe_ops = \<lparr>conn_Read = pipe_Read, conn_Write = pipe_Write, conn_Close = (\<lambda>p. (None, p\<lparr>pipe_closed := True\<rparr>))\<rparr>"

lemma pipe_contract: "conn_contract pipe_ops pipe_closed"
proof -
  have "length bs \<le> n" if "segments_read segs n = (bs, err, segs')" for segs n bs err segs'
    using that segments.read_fits by blast
  then show ?thesis
    by (auto simp: conn_contract_def pipe_ops_def pipe_Read_def pipe_Write_def split: if_splits prod.splits)
qed

lemma pipe_embeds: "embeds (\<lambda>_. True) (open_pipe outs) segments_read pipe_Read"
  by (auto simp: embeds_def pipe_Read_def open_pipe_def split: prod.splits)

text \<open>A client over an open pipe reads the next frame, when frames arrive one per segment.\<close>

definition pipe_client :: "connection_handler option \<Rightarrow> byte list list \<Rightarrow> byte list list message_reader \<Rightarrow> pipe tcp_client" where
  "pipe_client h outs r = \<lparr>client_reader = map_reader (open_pipe outs) r, client_handler = h,
     client_done = False, client_disconnected = False, client_events = []\<rparr>"

lemma pipe_client_new:
  "NewTCPClientTransportFromConn (open_pipe outs segs) h = pipe_client h outs (NewMessageReader segs)"
  by (simp add: NewTCPClientTransportFromConn_def pipe_client_def)

lemma pipe_client_read:
  assumes "reader_inv r" and "pos r = count r" and "within_limits m" and "length (wire m) \<le> 1024"
    and "reader r = wire m # segs"
  shows "\<exists>r'. client_read_default (Suc (Suc fuel)) pipe_ops (pipe_client h outs r) =
      Some (Ret (Inr m, pipe_client h outs r')) \<and> reader_inv r' \<and> pos r' = count r' \<and> reader r' = segs"
proof -
  obtain msg r' where r': "ReadMessage (Suc (Suc fuel)) segments_read r = Some (Ret (Inr msg, r'))"
     "load r' msg = m" "reader_inv r'" "pos r' = count r'" "reader r' = segs"
    using ReadMessage_aligned [OF assms] by blast
  then have "ReadMessage (Suc (Suc fuel)) pipe_Read (map_reader (open_pipe outs) r) =
      Some (Ret (Inr msg, map_reader (open_pipe outs) r'))"
    using read_run_embed [OF pipe_embeds [of outs] TrueI, where r = r and fuel = "Suc (Suc fuel)" and pc = Outer]
    unfolding ReadMessage_def by simp
  then have "client_read_default (Suc (Suc fuel)) pipe_ops (pipe_client h outs r) =
      Some (Ret (Inr m, pipe_client h outs r'))"
    using r'(2) by (simp add: client_read_default_def pipe_client_def pipe_ops_def)
  with r' show ?thesis
    by blast
qed

lemma pipe_client_write:
  assumes "wire_fits m"
  shows "client_WriteMessage pipe_ops m (pipe_client h outs r) = Ret (None, pipe_client h (outs @ [wire m]) r)"
  using assms
  by (simp add: client_WriteMessage_def writeMessage_def write_frame_wire pipe_client_def pipe_ops_def
      pipe_Write_def open_pipe_def set_conn_def map_reader_def)

end
