(* ===== verification/Qdp_Usb.thy ===== *)
theory Qdp_Usb
  imports Qdp_Pipe "HOL-Library.Log_Nat"
begin

unbundle bit_operations_syntax

text \<open>
  The parts of \<open>lib/go/transport_ftdi.go\<close> below the transport: the baud rate divisor, the
  \<open>endpointReader\<close> that strips the two status bytes of every USB packet, and the chunked writer. The
  USB endpoints are foreign code (\<open>gousb\<close>): their read and write are parameters.

  \<open>float64\<close> is modelled as the rational number it denotes, with the rounding of the two operations
  that can round, the conversion of an \<open>int\<close> and the division (round to nearest, ties to even, 53
  bits); the values here are far from overflow and underflow. The subtraction of the integer part
  is exact. The result of converting an infinite quotient to \<open>int\<close> depends on the platform: it is the
  parameter \<open>inf_int\<close>.
\<close>

section \<open>Definitions\<close>

type_synonym u16 = "16 word"

text \<open>The exponent of a positive number: \<open>2 ^ e \<le> q < 2 ^ (e + 1)\<close>.\<close>

definition float_exp :: "rat \<Rightarrow> int" where
  "float_exp q =
     (let (a, b) = quotient_of q; e = int (floorlog 2 (nat a)) - int (floorlog 2 (nat b))
      in if 2 powi e \<le> q then e else e - 1)"

definition round_even :: "rat \<Rightarrow> int" where
  "round_even q =
     (let n = \<lfloor>q\<rfloor>; d = q - of_int n
      in if d < 1 / 2 then n else if 1 / 2 < d then n + 1 else if even n then n else n + 1)"

definition float64 :: "rat \<Rightarrow> rat" where
  "float64 q =
     (if q = 0 then 0
      else
        let e = float_exp \<bar>q\<bar>
        in sgn q * of_int (round_even (\<bar>q\<bar> * 2 powi (52 - e))) * 2 powi (e - 52))"

definition go_trunc :: "rat \<Rightarrow> int" where
  "go_trunc q = (if 0 \<le> q then \<lfloor>q\<rfloor> else \<lceil>q\<rceil>)"

text \<open>The \<open>switch\<close>: the prescaler bits, and what is added to the integer part.\<close>

definition prescale :: "rat \<Rightarrow> int \<times> int" where
  "prescale subIntegerPart =
     (if subIntegerPart < 1 / 16 then (0, 0)
      else if subIntegerPart < 3 / 16 then (0x1000, 0)
      else if subIntegerPart < 5 / 16 then (0x2000, 0)
      else if subIntegerPart < 7 / 16 then (0x3000, 0)
      else if subIntegerPart < 9 / 16 then (0x4000, 0)
      else if subIntegerPart < 11 / 16 then (0x5000, 0)
      else if subIntegerPart < 13 / 16 then (0x6000, 0)
      else if subIntegerPart < 15 / 16 then (0x7000, 0)
      else (0, 1))"

definition calculateFTDIBaudRateDivisor :: "int \<Rightarrow> int \<Rightarrow> u16 \<times> u16" where
  "calculateFTDIBaudRateDivisor inf_int baudRate =
     (let (integerPart, prescaler) =
        (if baudRate = 0 then (inf_int + 1, 0)
         else
           let divisor = float64 (3000000 / float64 (of_int baudRate));
               integerPart = go_trunc divisor;
               subIntegerPart = divisor - of_int integerPart;
               (prescaler, up) = prescale subIntegerPart
           in (integerPart + up, prescaler));
        finalDivisor = (integerPart AND 0x3FFF) OR prescaler
      in (word_of_int (finalDivisor AND 0xFF), word_of_int (drop_bit 8 finalDivisor AND 0xFF)))"

definition ftdiStatusSize :: nat where
  "ftdiStatusSize = 2"

definition ftdiMaxPacketSize :: nat where
  "ftdiMaxPacketSize = 64"

definition ftdiMaxDataSize :: nat where
  "ftdiMaxDataSize = 62"

text \<open>\<open>ReadContext(ctx, p)\<close> with a context that is done or not: the bytes stored at the front of \<open>p\<close>,
  the error, the endpoint afterwards. \<open>WriteContext\<close> gives the count.\<close>

type_synonym 'e usb_read = "bool \<Rightarrow> 'e \<Rightarrow> nat \<Rightarrow> byte list \<times> go_error option \<times> 'e"
type_synonym 'o usb_write = "bool \<Rightarrow> 'o \<Rightarrow> byte list \<Rightarrow> nat \<times> go_error option \<times> 'o"

record 'e endpoint_reader =
  er_ep :: "'e option"
  er_done :: bool
  er_buf :: "byte list option"
  er_pos :: nat
  er_size :: nat

text \<open>\<open>errors.Is\<close>\<close>

fun errors_Is :: "go_error \<Rightarrow> go_error \<Rightarrow> bool" where
  "errors_Is (Wrapf s e) target \<longleftrightarrow> Wrapf s e = target \<or> errors_Is e target"
| "errors_Is e target \<longleftrightarrow> e = target"

text \<open>The copy at the end of \<open>Read\<close>.\<close>

definition copy_out :: "'e endpoint_reader \<Rightarrow> nat \<Rightarrow> byte list \<times> go_error option \<times> 'e endpoint_reader" where
  "copy_out r n =
     (let buf = (case er_buf r of None \<Rightarrow> [] | Some b \<Rightarrow> b);
          bs = take n (drop (ftdiStatusSize + er_pos r) (take (ftdiStatusSize + er_size r) buf))
      in (bs, None, r\<lparr>er_pos := er_pos r + length bs\<rparr>))"

definition endpoint_Read :: "'e usb_read \<Rightarrow> 'e endpoint_reader io_read" where
  "endpoint_Read epr r n =
     (case er_ep r of
        None \<Rightarrow> ([], Some (ErrText ''endpoint is nil''), r)
      | Some ep \<Rightarrow>
          if n = 0 then ([], None, r)
          else if er_size r \<le> er_pos r then
            let buf = (case er_buf r of None \<Rightarrow> replicate ftdiMaxPacketSize 0 | Some b \<Rightarrow> b);
                (bs, err, ep') = epr (er_done r) ep (length buf);
                r = r\<lparr>er_ep := Some ep', er_buf := Some (bs @ drop (length bs) buf)\<rparr>
            in case err of
                 Some e \<Rightarrow>
                   ([], Some (if errors_Is e Canceled \<or> errors_Is e DeadlineExceeded then e else EOF), r)
               | None \<Rightarrow>
                   if ftdiStatusSize < length bs
                   then copy_out (r\<lparr>er_size := length bs - ftdiStatusSize, er_pos := 0\<rparr>) n
                   else ([], None, r\<lparr>er_size := 0, er_pos := 0\<rparr>)
          else copy_out r n)"

text \<open>\<open>writeChunked\<close>: the bytes written, the error, the endpoint.\<close>

function writeChunked :: "'o usb_write \<Rightarrow> bool \<Rightarrow> 'o \<Rightarrow> byte list \<Rightarrow> nat \<Rightarrow> nat \<times> go_error option \<times> 'o" where
  "writeChunked epw ctxd ep data written =
     (if 0 < length data then
        let chunkSize = (if length data < ftdiMaxDataSize then length data else ftdiMaxDataSize);
            (n, err, ep') = epw ctxd ep (take chunkSize data)
        in case err of
             Some e \<Rightarrow> (written, Some e, ep')
           | None \<Rightarrow> writeChunked epw ctxd ep' (drop chunkSize data) (written + n)
      else (written, None, ep))"
  by pat_completeness auto
termination
  by (relation "measure (\<lambda>(epw, d, ep, data, w). length data)") (auto simp: ftdiMaxDataSize_def)

declare writeChunked.simps [simp del]

section \<open>Rounding\<close>

lemma round_even_error: "\<bar>of_int (round_even q) - q\<bar> \<le> 1 / 2"
proof -
  have "of_int \<lfloor>q\<rfloor> \<le> q" "q < of_int \<lfloor>q\<rfloor> + 1"
    by linarith+
  then show ?thesis
    by (auto simp: round_even_def Let_def)
qed

lemma round_even_int [simp]: "round_even (of_int n) = n"
  by (simp add: round_even_def)

lemma float_exp_le:
  assumes "0 < q"
  shows "2 powi (float_exp q) \<le> q"
proof -
  obtain a b where ab: "quotient_of q = (a, b)"
    by fastforce
  then have b: "0 < b" and q: "q = of_int a / of_int b"
    using quotient_of_denom_pos quotient_of_div by blast+
  then have a: "0 < a"
    using assms by (simp add: zero_less_divide_iff)
  define la lb where "la = floorlog 2 (nat a)" and "lb = floorlog 2 (nat b)"
  have bounds: "2 ^ (la - 1) \<le> nat a" "0 < la" "nat b < 2 ^ lb"
    using floorlog_bounds [of "nat a" 2] floorlog_bounds [of "nat b" 2] a b
    by (auto simp: la_def lb_def floorlog_eq_zero_iff simp flip: neq0_conv)
  then have "(2 :: int) ^ (la - 1) \<le> a" "b \<le> 2 ^ lb"
    by (auto simp: nat_less_iff le_nat_iff b a)
  then have le: "(2 :: rat) ^ (la - 1) \<le> of_int a" "of_int b \<le> (2 :: rat) ^ lb"
    by (metis of_int_le_iff of_int_numeral of_int_power)+
  have "int la - int lb - 1 = int (la - 1) - int lb"
    using bounds(2) by simp
  then have "2 powi (int la - int lb - 1) = (2 :: rat) ^ (la - 1) / 2 ^ lb"
    using power_int_diff [of "2 :: rat" "int (la - 1)" "int lb"] by (metis power_int_of_nat zero_neq_numeral)
  also have "\<dots> \<le> of_int a / of_int b"
    using le b a by (intro frac_le) auto
  finally have "2 powi (int la - int lb - 1) \<le> q"
    unfolding q .
  then show ?thesis
    using ab by (simp add: float_exp_def Let_def la_def lb_def)
qed

lemma float64_error:
  assumes "0 < q"
  shows "\<bar>float64 q - q\<bar> \<le> q / 2 ^ 53"
proof -
  let ?e = "float_exp q" and ?m = "of_int (round_even (q * 2 powi (52 - float_exp q))) :: rat"
  have inv: "2 powi (52 - ?e) * (2 :: rat) powi (?e - 52) = 1"
    by (simp flip: power_int_add)
  have "float64 q - q = (?m - q * 2 powi (52 - ?e)) * 2 powi (?e - 52)"
    using assms inv by (simp add: float64_def Let_def algebra_simps)
  then have "\<bar>float64 q - q\<bar> = \<bar>?m - q * 2 powi (52 - ?e)\<bar> * 2 powi (?e - 52)"
    by (simp add: abs_mult power_int_abs)
  also have "\<dots> \<le> 1 / 2 * 2 powi (?e - 52)"
    by (intro mult_right_mono round_even_error) simp
  also have "\<dots> = 2 powi ?e / 2 ^ 53"
    by (simp add: power_int_diff)
  also have "\<dots> \<le> q / 2 ^ 53"
    using float_exp_le [OF assms] by (simp add: divide_right_mono)
  finally show ?thesis .
qed

lemma float64_int:
  assumes "0 < n" and "n < 2 ^ 53"
  shows "float64 (of_int n) = of_int n"
proof -
  let ?e = "float_exp (of_int n)"
  have "2 powi ?e \<le> (of_int n :: rat)"
    using assms(1) by (intro float_exp_le) simp
  also have "(of_int n :: rat) < 2 powi 53"
    using assms(2) by simp
  finally have "?e < 53"
    using power_int_increasing [of 53 ?e "2 :: rat"] by linarith
  then have "of_int n * 2 powi (52 - ?e) = (of_int (n * 2 ^ nat (52 - ?e)) :: rat)"
    by (simp add: power_int_def)
  moreover have "2 powi (52 - ?e) * (2 :: rat) powi (?e - 52) = 1"
    by (simp flip: power_int_add)
  ultimately show ?thesis
    using assms(1) by (simp add: float64_def Let_def mult.assoc del: of_int_mult of_int_power)
      (simp add: mult.assoc)
qed

section \<open>The baud rate divisor\<close>

lemma prescale_nearest:
  assumes "0 \<le> f" and "f < 1"
  obtains k u where "prescale f = (0x1000 * k, u)" and "0 \<le> k" and "k \<le> 7" and "u = 0 \<or> u = 1 \<and> k = 0"
    and "\<bar>of_int u + of_int k / 8 - f\<bar> \<le> 1 / 16"
proof -
  consider "f < 1 / 16"
    | "1 / 16 \<le> f" "f < 3 / 16"
    | "3 / 16 \<le> f" "f < 5 / 16"
    | "5 / 16 \<le> f" "f < 7 / 16"
    | "7 / 16 \<le> f" "f < 9 / 16"
    | "9 / 16 \<le> f" "f < 11 / 16"
    | "11 / 16 \<le> f" "f < 13 / 16"
    | "13 / 16 \<le> f" "f < 15 / 16"
    | "15 / 16 \<le> f"
    by linarith
  then show ?thesis
  proof cases
    case 1
    then show ?thesis
      using assms by (intro that [of 0 0]) (simp add: prescale_def; fail | linarith)+
  next
    case 2
    then show ?thesis
      using assms by (intro that [of 1 0]) (simp add: prescale_def; fail | linarith)+
  next
    case 3
    then show ?thesis
      using assms by (intro that [of 2 0]) (simp add: prescale_def; fail | linarith)+
  next
    case 4
    then show ?thesis
      using assms by (intro that [of 3 0]) (simp add: prescale_def; fail | linarith)+
  next
    case 5
    then show ?thesis
      using assms by (intro that [of 4 0]) (simp add: prescale_def; fail | linarith)+
  next
    case 6
    then show ?thesis
      using assms by (intro that [of 5 0]) (simp add: prescale_def; fail | linarith)+
  next
    case 7
    then show ?thesis
      using assms by (intro that [of 6 0]) (simp add: prescale_def; fail | linarith)+
  next
    case 8
    then show ?thesis
      using assms by (intro that [of 7 0]) (simp add: prescale_def; fail | linarith)+
  next
    case 9
    then show ?thesis
      using assms by (intro that [of 0 1]) (simp add: prescale_def; fail | linarith)+
  qed
qed

lemma and_or_parts:
  fixes x k :: int
  assumes "0 \<le> x" and "x < 0x1000"
  shows "(x AND 0x3FFF) OR (0x1000 * k) = x + 0x1000 * k"
proof -
  have x12: "take_bit 12 x = x"
    using assms by (simp add: take_bit_int_eq_self)
  have "x AND 0x3FFF = x AND mask 14"
    by (simp add: mask_eq_exp_minus_1)
  also have "\<dots> = take_bit 14 x"
    by (rule take_bit_eq_mask [symmetric])
  also have "\<dots> = x"
    using assms by (simp add: take_bit_int_eq_self)
  finally have "x AND 0x3FFF = x" .
  moreover have "push_bit 12 k = 0x1000 * k"
    by (simp add: push_bit_eq_mult)
  moreover have "take_bit 12 x AND push_bit 12 k = 0"
    by (rule bit_eqI) (auto simp: bit_simps)
  ultimately show ?thesis
    using x12 disjunctive_add_eq_or [of x "0x1000 * k"] by simp
qed

text \<open>What the chip is told: twelve bits of integer part and eighths above them.\<close>

definition decoded_divisor :: "u16 \<times> u16 \<Rightarrow> rat" where
  "decoded_divisor v =
     (let d = uint (snd v) * 256 + uint (fst v) in of_int (d mod 0x1000) + of_int (d div 0x1000) / 8)"

lemma split_bytes:
  fixes d :: int
  assumes "0 \<le> d" and "d < 2 ^ 16"
  shows "uint (word_of_int (drop_bit 8 d AND 0xFF) :: u16) * 256 + uint (word_of_int (d AND 0xFF) :: u16) = d"
proof -
  have m: "y AND 0xFF = y mod 256" for y :: int
    using take_bit_eq_mask [of 8 y] by (simp add: mask_eq_exp_minus_1 take_bit_eq_mod)
  have "d div 256 < 256"
    using assms(2) by (simp add: div_less_iff_less_mult)
  then have "uint (word_of_int (drop_bit 8 d AND 0xFF) :: u16) = d div 256"
    using assms(1) by (simp add: m drop_bit_eq_div uint_word_of_int_eq take_bit_int_eq_self mod_pos_pos_trivial)
  moreover have "uint (word_of_int (d AND 0xFF) :: u16) = d mod 256"
    by (simp add: m uint_word_of_int_eq take_bit_eq_mod)
  ultimately show ?thesis
    by simp
qed

text \<open>The quotient the code computes is exact up to rounding.\<close>

lemma float_quotient:
  assumes "1 \<le> b" and "b \<le> 3000000"
  obtains q where "float64 (3000000 / float64 (of_int b)) = q" and "\<bar>q - 3000000 / of_int b\<bar> \<le> 1 / 2 ^ 31"
proof -
  have f: "float64 (of_int b) = of_int b"
    using assms by (intro float64_int) auto
  have pos: "0 < (3000000 :: rat) / of_int b"
    using assms(1) by simp
  have "(3000000 :: rat) / of_int b \<le> 3000000"
    using assms(1) by (simp add: divide_le_eq)
  then have "3000000 / of_int b / 2 ^ 53 \<le> (1 :: rat) / 2 ^ 31"
    by simp
  then show ?thesis
    using that f float64_error [OF pos] by fastforce
qed

text \<open>The value sent, from an approximation of the quotient.\<close>

lemma divisor_value:
  assumes "1 \<le> b" and "float64 (3000000 / float64 (of_int b)) = q" and "0 \<le> q" and "q < 0xFFF"
  obtains k n where "calculateFTDIBaudRateDivisor inf_int b =
      (word_of_int ((n + 0x1000 * k) AND 0xFF), word_of_int (drop_bit 8 (n + 0x1000 * k) AND 0xFF))"
    and "0 \<le> n" and "n < 0x1000" and "0 \<le> k" and "k \<le> 7" and "\<bar>of_int n + of_int k / 8 - q\<bar> \<le> 1 / 16"
proof -
  let ?i = "\<lfloor>q\<rfloor>"
  have i: "0 \<le> ?i" "?i < 0xFFF"
    using assms(3,4) by linarith+
  obtain k u where ku: "prescale (q - of_int ?i) = (0x1000 * k, u)" "0 \<le> k" "k \<le> 7" "u = 0 \<or> u = 1 \<and> k = 0"
      "\<bar>of_int u + of_int k / 8 - (q - of_int ?i)\<bar> \<le> 1 / 16"
    by (rule prescale_nearest [of "q - of_int ?i"]) linarith+
  have t: "go_trunc q = ?i" and b: "(b = 0) = False"
    using assms(1,3) by (auto simp: go_trunc_def)
  have n: "0 \<le> ?i + u" "?i + u < 0x1000"
    using i ku(4) by auto
  have "calculateFTDIBaudRateDivisor inf_int b =
      (word_of_int ((?i + u + 0x1000 * k) AND 0xFF), word_of_int (drop_bit 8 (?i + u + 0x1000 * k) AND 0xFF))"
    unfolding calculateFTDIBaudRateDivisor_def Let_def
    by (simp only: assms(2) t b ku(1) and_or_parts [OF n] prod.case if_False)
  then show ?thesis
    using that [of "?i + u" k] n ku by (simp add: algebra_simps)
qed

lemma decoded_value:
  fixes n k :: int
  assumes "0 \<le> n" and "n < 0x1000" and "0 \<le> k" and "k \<le> 7"
  shows "decoded_divisor (word_of_int ((n + 0x1000 * k) AND 0xFF), word_of_int (drop_bit 8 (n + 0x1000 * k) AND 0xFF)) =
     of_int n + of_int k / 8"
proof -
  have "(n + 0x1000 * k) mod 0x1000 = n" "(n + 0x1000 * k) div 0x1000 = k"
    using assms(1,2) by simp_all
  then show ?thesis
    using assms split_bytes [of "n + 0x1000 * k"] by (simp add: decoded_divisor_def)
qed

section \<open>The endpoint reader\<close>

text \<open>The contract of an endpoint: a transfer stores at most the bytes it has room for. Then the
  endpoint reader keeps the contract of \<open>io.Reader\<close>.\<close>

locale usb_endpoint =
  fixes epr :: "'e usb_read"
  assumes transfer_fits: "epr d ep n = (bs, err, ep') \<Longrightarrow> length bs \<le> n"

definition endpoint_ok :: "'e endpoint_reader \<Rightarrow> bool" where
  "endpoint_ok r \<longleftrightarrow> er_size r \<le> ftdiMaxDataSize \<and>
     (case er_buf r of None \<Rightarrow> er_size r \<le> er_pos r | Some b \<Rightarrow> length b = ftdiMaxPacketSize)"

lemmas ftdi_sizes = ftdiStatusSize_def ftdiMaxPacketSize_def ftdiMaxDataSize_def

lemma copy_out_ok:
  "copy_out r n = (bs, err, r') \<Longrightarrow>
   length bs \<le> n \<and> (endpoint_ok r \<and> er_buf r \<noteq> None \<longrightarrow> endpoint_ok r') \<and> er_ep r' = er_ep r \<and> er_done r' = er_done r"
  by (auto simp: copy_out_def Let_def endpoint_ok_def)

sublocale usb_endpoint \<subseteq> io_reader "endpoint_Read epr" endpoint_ok
proof
  fix s :: "'e endpoint_reader" and n bs err s'
  assume ok: "endpoint_ok s" and rd: "endpoint_Read epr s n = (bs, err, s')"
  let ?buf = "case er_buf s of None \<Rightarrow> replicate ftdiMaxPacketSize 0 | Some b \<Rightarrow> b"
  have len: "length ?buf = 64" if "er_size s \<le> er_pos s"
    using ok by (auto simp: endpoint_ok_def ftdi_sizes split: option.splits)
  have "length bs \<le> n \<and> endpoint_ok s'"
  proof (cases "er_ep s")
    case (Some ep)
    obtain xs e ep' where x: "epr (er_done s) ep (length ?buf) = (xs, e, ep')"
      by (cases "epr (er_done s) ep (length ?buf)") auto
    then have "length xs \<le> length ?buf"
      by (rule transfer_fits)
    then show ?thesis
      using ok rd Some x len
      by (auto simp: endpoint_Read_def Let_def endpoint_ok_def ftdi_sizes dest!: copy_out_ok
          split: if_splits option.splits)
  qed (use ok rd in \<open>auto simp: endpoint_Read_def\<close>)
  then show "length bs \<le> n" and "endpoint_ok s'"
    by blast+
qed

text \<open>An endpoint that delivers a list of packets and then reports an error.\<close>

fun packets_read :: "byte list list usb_read" where
  "packets_read d ps n =
     (if d then ([], Some Canceled, ps)
      else case ps of
        [] \<Rightarrow> ([], Some (ErrText ''libusb: no device [code -4]''), [])
      | p # ps' \<Rightarrow> (take n p, None, ps'))"

declare packets_read.simps [simp del]

interpretation packets: usb_endpoint packets_read
  by unfold_locales (auto simp: packets_read.simps split: if_splits list.splits)

text \<open>The data that is still to come: what is left of the current packet, and the packets without
  their status bytes.\<close>

definition current :: "'e endpoint_reader \<Rightarrow> byte list" where
  "current r = (case er_buf r of None \<Rightarrow> [] | Some b \<Rightarrow> drop (2 + er_pos r) (take (2 + er_size r) b))"

definition data_to_come :: "byte list list endpoint_reader \<Rightarrow> byte list list" where
  "data_to_come r = (if current r = [] then [] else [current r]) @ map (drop 2) (the (er_ep r))"

definition packets_ok :: "byte list list endpoint_reader \<Rightarrow> bool" where
  "packets_ok r \<longleftrightarrow> endpoint_ok r \<and> \<not> er_done r \<and>
     (\<exists>ps. er_ep r = Some ps \<and> (\<forall>p \<in> set ps. 2 < length p \<and> length p \<le> 64))"

lemma current_empty: "endpoint_ok r \<Longrightarrow> current r = [] \<longleftrightarrow> er_size r \<le> er_pos r"
  by (auto simp: current_def endpoint_ok_def ftdi_sizes split: option.splits)

lemma copy_out_current:
  "copy_out r n = (take n (current r), None, r\<lparr>er_pos := er_pos r + length (take n (current r))\<rparr>)"
  by (auto simp: copy_out_def current_def Let_def ftdi_sizes split: option.splits)

lemma current_advance: "current (r\<lparr>er_pos := er_pos r + k\<rparr>) = drop k (current r)"
  by (auto simp: current_def add_ac split: option.splits)

text \<open>Copying from the current packet is reading from a segment.\<close>

lemma copy_out_segment:
  assumes "packets_ok r" and "current r \<noteq> []" and "0 < n"
  shows "\<exists>r'. copy_out r n = (take n (current r), None, r') \<and> packets_ok r' \<and>
     segments_read (data_to_come r) n = (take n (current r), None, data_to_come r')"
proof -
  let ?r = "r\<lparr>er_pos := er_pos r + length (take n (current r))\<rparr>"
  have "packets_ok ?r"
    using assms(1) by (auto simp: packets_ok_def endpoint_ok_def split: option.splits)
  moreover have "data_to_come ?r = (if length (current r) \<le> n then [] else [drop n (current r)]) @ map (drop 2) (the (er_ep r))"
    unfolding data_to_come_def current_advance by simp
  then have "segments_read (data_to_come r) n = (take n (current r), None, data_to_come ?r)"
    using assms(2,3) by (simp add: segments_read.simps data_to_come_def)
  ultimately show ?thesis
    using copy_out_current by blast
qed

lemma endpoint_embeds: "embeds packets_ok data_to_come (endpoint_Read packets_read) segments_read"
  unfolding embeds_def
proof (intro allI impI)
  fix r n bs err r'
  assume ok: "packets_ok r" and rd: "endpoint_Read packets_read r n = (bs, err, r')"
  then obtain ps where ps: "er_ep r = Some ps" "\<forall>p \<in> set ps. 2 < length p \<and> length p \<le> 64" "\<not> er_done r" "endpoint_ok r"
    by (auto simp: packets_ok_def)
  show "segments_read (data_to_come r) n = (bs, err, data_to_come r') \<and> packets_ok r'"
  proof (cases "n = 0 \<or> current r \<noteq> []")
    case True
    then show ?thesis
      using rd ok ps current_empty [OF ps(4)] copy_out_segment [OF ok, of n]
      by (auto simp: endpoint_Read_def segments_read.simps)
  next
    case False
    then have n: "0 < n" and cur: "current r = []" "er_size r \<le> er_pos r"
      using current_empty [OF ps(4)] by auto
    let ?buf = "case er_buf r of None \<Rightarrow> replicate ftdiMaxPacketSize 0 | Some b \<Rightarrow> b"
    have len: "length ?buf = 64"
      using ps(4) by (auto simp: endpoint_ok_def ftdi_sizes split: option.splits)
    show ?thesis
    proof (cases ps)
      case Nil
      then have "bs = []" "err = Some EOF" "r' = r\<lparr>er_ep := Some [], er_buf := Some ?buf\<rparr>"
        using rd ps n cur(2) by (auto simp: endpoint_Read_def Let_def packets_read.simps)
      moreover from this(3) have "endpoint_ok r'" "er_size r' \<le> er_pos r'"
        using ps(4) len cur(2) by (auto simp: endpoint_ok_def ftdi_sizes)
      then have "current r' = []"
        using current_empty by blast
      ultimately show ?thesis
        using ps Nil n cur(1) \<open>endpoint_ok r'\<close> by (auto simp: data_to_come_def segments_read.simps packets_ok_def)
    next
      case (Cons p ps')
      let ?q = "r\<lparr>er_ep := Some ps', er_buf := Some (p @ drop (length p) ?buf), er_size := length p - 2, er_pos := 0\<rparr>"
      have p: "2 < length p" "length p \<le> 64"
        using ps(2) Cons by auto
      then have q: "copy_out ?q n = (bs, err, r')"
        using rd ps Cons n cur(2) len by (auto simp: endpoint_Read_def Let_def packets_read.simps ftdiStatusSize_def)
      have "current ?q = drop 2 p"
        using p by (simp add: current_def)
      moreover have "packets_ok ?q"
        using ps p Cons len by (auto simp: packets_ok_def endpoint_ok_def ftdi_sizes)
      moreover have "data_to_come ?q = data_to_come r"
        using calculation(1) p cur(1) ps(1) Cons by (simp add: data_to_come_def)
      ultimately show ?thesis
        using copy_out_segment [of ?q n] n p q by auto
    qed
  qed
qed

section \<open>The chunked writer\<close>

function chunks :: "byte list \<Rightarrow> byte list list" where
  "chunks data = (if data = [] then [] else take 62 data # chunks (drop 62 data))"
  by pat_completeness auto
termination
  by (relation "measure length") auto

declare chunks.simps [simp del]

lemma chunks_Nil [simp]: "chunks [] = []"
  by (simp add: chunks.simps)

lemma chunks_step: "data \<noteq> [] \<Longrightarrow> chunks data = take 62 data # chunks (drop 62 data)"
  by (simp add: chunks.simps [of data])

lemma chunks_props: "concat (chunks data) = data \<and> (\<forall>c \<in> set (chunks data). 0 < length c \<and> length c \<le> 62)"
proof (induction data rule: chunks.induct)
  case (1 data)
  then show ?case
    by (cases "data = []") (auto simp: chunks_step [of data])
qed

lemma chunks_length: "62 * length (chunks data) \<le> length data + 61"
proof (induction data rule: chunks.induct)
  case (1 data)
  then show ?case
    by (cases "data = []"; cases "length data \<le> 62") (auto simp: chunks_step [of data] Suc_le_eq)
qed

text \<open>An endpoint that takes \<open>k\<close> transfers and then reports an error.\<close>

definition budget_write :: "(nat \<times> byte list list) usb_write" where
  "budget_write d ep bs =
     (case ep of (k, outs) \<Rightarrow>
        if d then (0, Some Canceled, ep)
        else if k = 0 then (0, Some (ErrText ''libusb: i/o error [code -1]''), ep)
        else (length bs, None, (k - 1, outs @ [bs])))"

lemma budget_write_simps [simp]:
  "budget_write False (Suc k, outs) bs = (length bs, None, (k, outs @ [bs]))"
  "budget_write False (0, outs) bs = (0, Some (ErrText ''libusb: i/o error [code -1]''), (0, outs))"
  by (simp_all add: budget_write_def)

lemma writeChunked_Nil [simp]: "writeChunked epw d ep [] w = (w, None, ep)"
  by (simp add: writeChunked.simps)

lemma writeChunked_step:
  assumes "data \<noteq> []"
  shows "writeChunked epw d ep data w =
     (let (n, err, ep') = epw d ep (take 62 data)
      in case err of Some e \<Rightarrow> (w, Some e, ep') | None \<Rightarrow> writeChunked epw d ep' (drop 62 data) (w + n))"
proof -
  have cut: "take (if length data < 62 then length data else 62) data = take 62 data"
    "drop (if length data < 62 then length data else 62) data = drop 62 data"
    by auto
  show ?thesis
    unfolding writeChunked.simps [of epw d ep data w] Let_def ftdiMaxDataSize_def cut using assms by simp
qed

lemma writeChunked_budget:
  "writeChunked budget_write False (k, outs) data w =
     (w + length (concat (take k (chunks data))),
      (if length (chunks data) \<le> k then None else Some (ErrText ''libusb: i/o error [code -1]'')),
      (k - length (chunks data), outs @ take k (chunks data)))"
proof (induction data arbitrary: k outs w rule: chunks.induct)
  case (1 data)
  show ?case
  proof (cases "data = []")
    case False
    then show ?thesis
      using 1 by (cases k) (simp_all add: writeChunked_step chunks_step)
  qed simp
qed

section \<open>Messages over USB\<close>

text \<open>The packets a device makes of the written chunks: the two status bytes, then the data.\<close>

definition with_status :: "byte list \<Rightarrow> byte list list \<Rightarrow> byte list list" where
  "with_status status cs = map (\<lambda>c. status @ c) cs"

definition fresh_endpoint :: "'e \<Rightarrow> 'e endpoint_reader" where
  "fresh_endpoint ep = \<lparr>er_ep = Some ep, er_done = False, er_buf = None, er_pos = 0, er_size = 0\<rparr>"

lemma fresh_packets:
  assumes "length status = 2"
  shows "packets_ok (fresh_endpoint (with_status status (chunks data)))"
    and "data_to_come (fresh_endpoint (with_status status (chunks data))) = chunks data"
  using chunks_props [of data] assms
  by (auto simp: packets_ok_def fresh_endpoint_def endpoint_ok_def with_status_def data_to_come_def current_def
      comp_def)

text \<open>What the reader over segments returns, the reader over the packets returns too.\<close>

lemma ReadMessage_packets:
  assumes "packets_ok (reader r)"
    and "ReadMessage fuel segments_read (map_reader data_to_come r) = Some (Ret (Inr msg, q))"
  shows "\<exists>r'. ReadMessage fuel (endpoint_Read packets_read) r = Some (Ret (Inr msg, r')) \<and> load r' msg = load q msg"
proof -
  have "map_option (\<lambda>out. go_bind out (\<lambda>(res, r). Ret (res, map_reader data_to_come r)))
      (read_run fuel (endpoint_Read packets_read) Outer r) = Some (Ret (Inr msg, q))"
    using read_run_embed [OF endpoint_embeds assms(1), of fuel Outer] assms(2) by (simp add: ReadMessage_def)
  then obtain out where out: "ReadMessage fuel (endpoint_Read packets_read) r = Some out"
      "go_bind out (\<lambda>(res, r). Ret (res, map_reader data_to_come r)) = Ret (Inr msg, q)"
    unfolding ReadMessage_def map_option_eq_Some by blast
  then obtain r' where "out = Ret (Inr msg, r')" "q = map_reader data_to_come r'"
    by (auto simp: go_simps)
  with out(1) show ?thesis
    by simp
qed

section \<open>Properties\<close>



text \<open>Below 733 baud the prescaler bits overlap the integer part: 732 baud and 1263158 baud send the
  same value to the chip.\<close>

theorem baud_divisor_collision:
  "calculateFTDIBaudRateDivisor inf_int 732 = calculateFTDIBaudRateDivisor inf_int 1263158"
proof -
  have val: "calculateFTDIBaudRateDivisor inf_int b = (2, 0x30)"
    if b: "1 \<le> b" "b \<le> 3000000" and i: "of_int i + 6 / 16 - 1 / 20 \<le> (3000000 :: rat) / of_int b"
        "(3000000 :: rat) / of_int b \<le> of_int i + 6 / 16 + 1 / 20" and bits: "(i AND 0x3FFF) OR 0x3000 = 0x3002" and pos: "0 \<le> i"
    for b i
  proof -
    obtain q where q: "float64 (3000000 / float64 (of_int b)) = q" "\<bar>q - 3000000 / of_int b\<bar> \<le> 1 / 2 ^ 31"
      using float_quotient [OF b] by auto
    then have r: "of_int i + 5 / 16 \<le> q" "q < of_int i + 7 / 16"
      using i abs_le_D1 [OF q(2)] abs_le_D2 [OF q(2)] by simp_all
    then have f: "\<lfloor>q\<rfloor> = i" "0 \<le> q"
      using pos by (auto simp: floor_eq_iff intro: order_trans [of _ "of_int i + 5 / 16"])
    then have t: "go_trunc q = i" and p: "prescale (q - of_int i) = (0x3000, 0)" and nz: "(b = 0) = False"
      using r b by (auto simp: go_trunc_def prescale_def)
    show ?thesis
      unfolding calculateFTDIBaudRateDivisor_def Let_def
      by (simp only: q(1) t p nz prod.case if_False add_0_right bits) simp
  qed
  have "calculateFTDIBaudRateDivisor inf_int 732 = (2, 0x30)"
    by (rule val [of 732 4098]) simp_all
  moreover have "calculateFTDIBaudRateDivisor inf_int 1263158 = (2, 0x30)"
    by (rule val [of 1263158 2]) simp_all
  ultimately show ?thesis
    by simp
qed



text \<open>The chunked writer: it hands the data over in pieces of at most 62 bytes, in order and without
  gap; when the endpoint fails after \<open>k\<close> transfers, exactly the first \<open>k\<close> pieces were written, their
  length is reported, and the error is returned.\<close>

theorem writeChunked_pieces:
  "\<exists>cs. concat cs = data \<and> (\<forall>c \<in> set cs. 0 < length c \<and> length c \<le> 62) \<and>
     (\<forall>k. writeChunked budget_write False (k, []) data 0 =
        (length (concat (take k cs)), (if length cs \<le> k then None else Some (ErrText ''libusb: i/o error [code -1]'')),
         (k - length cs, take k cs)))"
  using chunks_props [of data] writeChunked_budget [of _ "[]" data 0]
  by (intro exI [of _ "chunks data"]) simp

theorem writeChunked_pieces_witness:
  "\<exists>cs. concat cs = [1, 2, 3 :: byte] \<and> (\<forall>c \<in> set cs. 0 < length c \<and> length c \<le> 62)"
proof -
  obtain cs where "concat cs = [1, 2, 3 :: byte] \<and> (\<forall>c \<in> set cs. 0 < length c \<and> length c \<le> 62) \<and>
     (\<forall>k. writeChunked budget_write False (k, []) [1, 2, 3] 0 =
        (length (concat (take k cs)), (if length cs \<le> k then None else Some (ErrText ''libusb: i/o error [code -1]'')),
         (k - length cs, take k cs)))"
    using writeChunked_pieces [of "[1, 2, 3]"] ..
  then show ?thesis
    by (intro exI [of _ cs] conjI) (elim conjE, assumption)+
qed

text \<open>C19. A message over USB: its encoding, written in chunks and returned by the device in packets with two
  status bytes each, is read back as the same message.\<close>

theorem usb_message_roundtrip:
  assumes "within_limits m" and "Topic m \<noteq> ''''" and "length status = 2"
  shows "\<exists>data outs fuel msg r'. Encode m = Ret (Inr data) \<and>
     writeChunked budget_write False (100, []) data 0 = (length data, None, (100 - length outs, outs)) \<and>
     ReadMessage fuel (endpoint_Read packets_read) (NewMessageReader (fresh_endpoint (with_status status outs))) =
       Some (Ret (Inr msg, r')) \<and> load r' msg = m"
proof -
  let ?outs = "chunks (wire m)"
  let ?r = "NewMessageReader (fresh_endpoint (with_status status ?outs))"
  note fresh = fresh_packets [OF assms(3), of "wire m"]
  have "length (wire m) \<le> 1100"
    using within_limits_length [OF assms(1)] by simp
  then have len: "length ?outs \<le> 100"
    using chunks_length [of "wire m"] by simp
  have "Encode m = Ret (Inr (wire m))"
    using Encode_wire [OF within_limits_fits [OF assms(1)] assms(2)] .
  moreover have "writeChunked budget_write False (100, []) (wire m) 0 =
      (length (wire m), None, (100 - length ?outs, ?outs))"
    using writeChunked_budget [of 100 "[]" "wire m" 0] len chunks_props [of "wire m"] by simp
  moreover have "yields Outer (NewMessageReader ?outs) m []"
    using yields_segmented [of "NewMessageReader ?outs" m "[]"] assms(1) chunks_props [of "wire m"]
    by (auto simp: NewMessageReader_def unread_def reader_inv_def)
  then obtain fuel msg q where "ReadMessage fuel segments_read (map_reader data_to_come ?r) = Some (Ret (Inr msg, q))"
      "load q msg = m"
    unfolding yields_def ReadMessage_def by (auto simp: fresh(2))
  then obtain r' where "ReadMessage fuel (endpoint_Read packets_read) ?r = Some (Ret (Inr msg, r'))" "load r' msg = m"
    using ReadMessage_packets [of ?r fuel msg q] fresh(1) by (auto simp: NewMessageReader_def)
  ultimately show ?thesis
    by blast
qed

theorem usb_message_roundtrip_witness:
  "\<exists>data outs fuel msg r'. Encode demo_msg = Ret (Inr data) \<and>
     writeChunked budget_write False (100, []) data 0 = (length data, None, (100 - length outs, outs)) \<and>
     ReadMessage fuel (endpoint_Read packets_read) (NewMessageReader (fresh_endpoint (with_status [0x31, 0x60] outs))) =
       Some (Ret (Inr msg, r')) \<and> load r' msg = demo_msg"
  by (rule usb_message_roundtrip) (simp_all add: demo_msg_def within_limits_def)

end
