(* ===== verification/Qdp_Ftdi.thy ===== *)
theory Qdp_Ftdi
  imports Qdp_Usb
begin

unbundle bit_operations_syntax

text \<open>
  \<open>FTDITransport\<close> of \<open>lib/go/transport_ftdi.go\<close>: connecting to a USB device with all its error exits,
  the UART configuration, reconnecting, reading, writing and closing.

  The package \<open>gousb\<close> is foreign: its calls are the parameter \<open>ops\<close> on a state \<open>'u\<close> of the USB system,
  and the endpoints are read and written with \<open>epr\<close> and \<open>epw\<close>. What the Go code opens and closes is
  accounted for in the field \<open>opened\<close>, the list of the USB objects that are open: a context, a device,
  a configuration, an interface, each with the number of the context it belongs to. The four
  pointers of the transport name such objects.

  The reader holds the input endpoint; \<open>er_done\<close> in it is the state of the transport's context.
\<close>

section \<open>Definitions\<close>

record ftdi_config =
  VID :: u16
  PID :: u16
  Interface :: int
  ReadEP :: int
  WriteEP :: int
  BaudRate :: int
  DataBits :: int
  StopBits :: int
  Parity :: int
  FlowControl :: int

definition DefaultFTDIConfig :: ftdi_config where
  "DefaultFTDIConfig =
     \<lparr>VID = 0x0403, PID = 0x6001, Interface = 0, ReadEP = 0x81, WriteEP = 0x01, BaudRate = 115200,
      DataBits = 8, StopBits = 1, Parity = 0, FlowControl = 0\<rparr>"

datatype usb_kind = UContext | UDevice | UConfig | UInterface

type_synonym usb_object = "usb_kind \<times> nat"

text \<open>The calls of \<open>gousb\<close>. \<open>OpenDevice\<close> may return no error and no device; an endpoint may be nil.\<close>

record ('u, 'e, 'o) gousb =
  OpenDevice :: "u16 \<Rightarrow> u16 \<Rightarrow> 'u \<Rightarrow> (go_error + bool) \<times> 'u"
  SetAutoDetach :: "'u \<Rightarrow> go_error option \<times> 'u"
  DeviceConfig :: "int \<Rightarrow> 'u \<Rightarrow> go_error option \<times> 'u"
  ClaimInterface :: "int \<Rightarrow> int \<Rightarrow> 'u \<Rightarrow> go_error option \<times> 'u"
  GetInEndpoint :: "int \<Rightarrow> 'u \<Rightarrow> (go_error + 'e option) \<times> 'u"
  GetOutEndpoint :: "int \<Rightarrow> 'u \<Rightarrow> (go_error + 'o option) \<times> 'u"
  Control :: "byte \<times> byte \<times> u16 \<times> u16 \<Rightarrow> 'u \<Rightarrow> go_error option \<times> 'u"

record ('u, 'e, 'o) ftdi =
  usb :: 'u
  contexts :: nat
  opened :: "usb_object list"
  f_context :: "usb_object option"
  f_device :: "usb_object option"
  f_usbConfig :: "usb_object option"
  f_intf :: "usb_object option"
  f_outEndpoint :: "'o option"
  f_handler :: "connection_handler option"
  f_disconnected :: bool
  f_config :: ftdi_config
  f_done :: bool
  f_reader :: "'e endpoint_reader message_reader option"
  f_events :: "conn_event list"

definition open_object :: "usb_object \<Rightarrow> ('u, 'e, 'o) ftdi \<Rightarrow> ('u, 'e, 'o) ftdi" where
  "open_object x t = t\<lparr>opened := x # opened t\<rparr>"

definition close_object :: "usb_object \<Rightarrow> ('u, 'e, 'o) ftdi \<Rightarrow> ('u, 'e, 'o) ftdi" where
  "close_object x t = t\<lparr>opened := remove1 x (opened t)\<rparr>"

text \<open>\<open>gousb.NewContext()\<close>\<close>

definition NewContext :: "('u, 'e, 'o) ftdi \<Rightarrow> nat \<times> ('u, 'e, 'o) ftdi" where
  "NewContext t = (contexts t, open_object (UContext, contexts t) (t\<lparr>contexts := Suc (contexts t)\<rparr>))"

text \<open>The first part of \<open>connect\<close>: device, configuration, interface and endpoints, in the context \<open>c\<close>.
  Every error exit closes what was opened.\<close>

definition open_device ::
  "('u, 'e, 'o) gousb \<Rightarrow> nat \<Rightarrow> ('u, 'e, 'o) ftdi \<Rightarrow> (go_error + 'e \<times> 'o) \<times> ('u, 'e, 'o) ftdi" where
  "open_device ops c t =
     (let (dev, u) = OpenDevice ops (VID (f_config t)) (PID (f_config t)) (usb t); t = t\<lparr>usb := u\<rparr> in
      case dev of
        Inl e \<Rightarrow> (Inl (Wrapf ''failed to open device: '' e), close_object (UContext, c) t)
      | Inr False \<Rightarrow> (Inl (ErrText ''device not found''), close_object (UContext, c) t)
      | Inr True \<Rightarrow>
      let t = open_object (UDevice, c) t; (err, u) = SetAutoDetach ops (usb t); t = t\<lparr>usb := u\<rparr> in
      case err of
        Some e \<Rightarrow> (Inl (Wrapf ''failed to set auto detach: '' e),
           close_object (UContext, c) (close_object (UDevice, c) t))
      | None \<Rightarrow>
      let (err, u) = DeviceConfig ops 1 (usb t); t = t\<lparr>usb := u\<rparr> in
      case err of
        Some e \<Rightarrow> (Inl (Wrapf ''failed to get config: '' e),
           close_object (UContext, c) (close_object (UDevice, c) t))
      | None \<Rightarrow>
      let t = open_object (UConfig, c) t;
          (err, u) = ClaimInterface ops (Interface (f_config t)) 0 (usb t); t = t\<lparr>usb := u\<rparr> in
      case err of
        Some e \<Rightarrow> (Inl (Wrapf ''failed to claim interface: '' e),
           close_object (UContext, c) (close_object (UDevice, c) (close_object (UConfig, c) t)))
      | None \<Rightarrow>
      let t = open_object (UInterface, c) t;
          (inEp, u) = GetInEndpoint ops (ReadEP (f_config t)) (usb t); t = t\<lparr>usb := u\<rparr> in
      case inEp of
        Inl e \<Rightarrow> (Inl (Wrapf ''failed to get IN endpoint: '' e),
           close_object (UContext, c) (close_object (UDevice, c) (close_object (UConfig, c) (close_object (UInterface, c) t))))
      | Inr inEp \<Rightarrow>
      let (outEp, u) = GetOutEndpoint ops (WriteEP (f_config t)) (usb t); t = t\<lparr>usb := u\<rparr> in
      case outEp of
        Inl e \<Rightarrow> (Inl (Wrapf ''failed to get OUT endpoint: '' e),
           close_object (UContext, c) (close_object (UDevice, c) (close_object (UConfig, c) (close_object (UInterface, c) t))))
      | Inr outEp \<Rightarrow>
      case (inEp, outEp) of
        (Some i, Some j) \<Rightarrow> (Inr (i, j), t)
      | _ \<Rightarrow> (Inl (ErrText ''failed to get valid endpoints''),
           close_object (UContext, c) (close_object (UDevice, c) (close_object (UConfig, c) (close_object (UInterface, c) t)))))"

definition lineParams :: "ftdi_config \<Rightarrow> u16" where
  "lineParams cfg =
     word_of_int (DataBits cfg) OR push_bit 11 (word_of_int (StopBits cfg)) OR push_bit 8 (word_of_int (Parity cfg))"

text \<open>The UART settings: three control transfers. An error exit closes the device and the context.\<close>

definition uart_requests :: "int \<Rightarrow> ftdi_config \<Rightarrow> (string \<times> byte \<times> byte \<times> u16 \<times> u16) list" where
  "uart_requests inf_int cfg =
     (let (valueL, valueH) = calculateFTDIBaudRateDivisor inf_int (BaudRate cfg) in
      [(''failed to set baud rate: '', 0x40, 0x03, valueL, valueH),
       (''failed to set line properties: '', 0x40, 0x04, lineParams cfg, 0),
       (''failed to set flow control: '', 0x40, 0x02, word_of_int (FlowControl cfg), 0)])"

fun send_requests ::
  "('u, 'e, 'o) gousb \<Rightarrow> nat \<Rightarrow> (string \<times> byte \<times> byte \<times> u16 \<times> u16) list \<Rightarrow> ('u, 'e, 'o) ftdi
     \<Rightarrow> go_error option \<times> ('u, 'e, 'o) ftdi" where
  "send_requests ops c [] t = (None, t)"
| "send_requests ops c ((what, request) # rest) t =
     (let (err, u) = Control ops request (usb t); t = t\<lparr>usb := u\<rparr> in
      case err of
        Some e \<Rightarrow> (Some (Wrapf what e), close_object (UContext, c) (close_object (UDevice, c) t))
      | None \<Rightarrow> send_requests ops c rest t)"

definition on_connect :: "('u, 'e, 'o) ftdi \<Rightarrow> ('u, 'e, 'o) ftdi" where
  "on_connect t = (case f_handler t of None \<Rightarrow> t | Some f \<Rightarrow> t\<lparr>f_events := f_events t @ OnConnect f\<rparr>)"

definition on_disconnect :: "go_error option \<Rightarrow> ('u, 'e, 'o) ftdi \<Rightarrow> ('u, 'e, 'o) ftdi" where
  "on_disconnect err t = (case f_handler t of None \<Rightarrow> t | Some f \<Rightarrow> t\<lparr>f_events := f_events t @ OnDisconnect f err\<rparr>)"

text \<open>The end of \<open>connect\<close>: the transport takes over the objects and gets a fresh reader.\<close>

definition adopt :: "nat \<Rightarrow> 'e \<times> 'o \<Rightarrow> ('u, 'e, 'o) ftdi \<Rightarrow> ('u, 'e, 'o) ftdi" where
  "adopt c eps t =
     on_connect (t\<lparr>f_context := Some (UContext, c), f_device := Some (UDevice, c), f_usbConfig := Some (UConfig, c),
       f_intf := Some (UInterface, c), f_outEndpoint := Some (snd eps),
       f_reader := Some (NewMessageReader
         \<lparr>er_ep = Some (fst eps), er_done = f_done t, er_buf = Some (replicate ftdiMaxPacketSize 0),
          er_pos = 0, er_size = 0\<rparr>),
       f_disconnected := False\<rparr>)"

text \<open>\<open>connect\<close>; \<open>None\<close> is a nil context.\<close>

definition connect ::
  "('u, 'e, 'o) gousb \<Rightarrow> int \<Rightarrow> nat option \<Rightarrow> ('u, 'e, 'o) ftdi \<Rightarrow> go_error option \<times> ('u, 'e, 'o) ftdi" where
  "connect ops inf_int ctx t =
     (case ctx of
        None \<Rightarrow> (Some (ErrText ''USB context is nil''), t)
      | Some c \<Rightarrow>
        case open_device ops c t of
          (Inl e, t) \<Rightarrow> (Some e, t)
        | (Inr eps, t) \<Rightarrow>
          case send_requests ops c (uart_requests inf_int (f_config t)) t of
            (Some e, t) \<Rightarrow> (Some e, t)
          | (None, t) \<Rightarrow> (None, adopt c eps t))"

text \<open>\<open>NewFTDITransport\<close>; on an error the transport is dropped, its USB objects are what is left.
  The reader made by \<open>connect\<close> is replaced by one without a packet buffer.\<close>

definition NewFTDITransport ::
  "('u, 'e, 'o) gousb \<Rightarrow> int \<Rightarrow> 'u \<Rightarrow> ftdi_config \<Rightarrow> connection_handler option
     \<Rightarrow> go_error option \<times> ('u, 'e, 'o) ftdi" where
  "NewFTDITransport ops inf_int u cfg h =
     (let t = \<lparr>usb = u, contexts = 0, opened = [], f_context = None, f_device = None, f_usbConfig = None,
               f_intf = None, f_outEndpoint = None, f_handler = h, f_disconnected = False, f_config = cfg,
               f_done = False, f_reader = None, f_events = []\<rparr>;
          (c, t) = NewContext t
      in case connect ops inf_int (Some c) t of
           (Some e, t) \<Rightarrow> (Some e, t\<lparr>f_done := True\<rparr>)
         | (None, t) \<Rightarrow>
             (None, t\<lparr>f_reader := map_option (\<lambda>r. NewMessageReader ((reader r)\<lparr>er_buf := None\<rparr>)) (f_reader t)\<rparr>))"

definition close_pointer :: "usb_object option \<Rightarrow> ('u, 'e, 'o) ftdi \<Rightarrow> ('u, 'e, 'o) ftdi" where
  "close_pointer p t = (case p of None \<Rightarrow> t | Some x \<Rightarrow> close_object x t)"

definition closeResources :: "('u, 'e, 'o) ftdi \<Rightarrow> ('u, 'e, 'o) ftdi" where
  "closeResources t =
     (let t = (close_pointer (f_intf t) t)\<lparr>f_intf := None\<rparr>;
          t = (close_pointer (f_usbConfig t) t)\<lparr>f_usbConfig := None\<rparr>;
          t = (close_pointer (f_device t) t)\<lparr>f_device := None\<rparr>
      in (close_pointer (f_context t) t)\<lparr>f_context := None\<rparr>)"

definition tryReconnect ::
  "('u, 'e, 'o) gousb \<Rightarrow> int \<Rightarrow> ('u, 'e, 'o) ftdi \<Rightarrow> go_error option \<times> ('u, 'e, 'o) ftdi" where
  "tryReconnect ops inf_int t =
     (let (c, t) = NewContext (closeResources t)
      in case connect ops inf_int (Some c) t of
           (Some e, t) \<Rightarrow> (Some e, close_object (UContext, c) t)
         | (None, t) \<Rightarrow> (None, t))"

text \<open>\<open>err.Error()\<close>, \<open>strings.ToLower\<close> on ASCII, \<open>strings.Contains\<close>.\<close>

fun error_text :: "go_error \<Rightarrow> string" where
  "error_text ErrInvalidMessage = ''invalid message format''"
| "error_text ErrCRCMismatch = ''CRC checksum mismatch''"
| "error_text EOF = ''EOF''"
| "error_text Canceled = ''context canceled''"
| "error_text DeadlineExceeded = ''context deadline exceeded''"
| "error_text (ErrText s) = s"
| "error_text (Wrapf s e) = s @ error_text e"

definition lower_char :: "char \<Rightarrow> char" where
  "lower_char ch = (let n = of_char ch :: nat in if 65 \<le> n \<and> n \<le> 90 then char_of (n + 32) else ch)"

fun Contains :: "string \<Rightarrow> string \<Rightarrow> bool" where
  "Contains [] sub = (sub = [])"
| "Contains (ch # s) sub = (take (length sub) (ch # s) = sub \<or> Contains s sub)"

text \<open>\<open>usb_gone\<close>: the error is one of the constants \<open>gousb.ErrorNoDevice\<close>, \<open>gousb.ErrorNotFound\<close>.\<close>

definition isUsbDisconnectError :: "(go_error \<Rightarrow> bool) \<Rightarrow> go_error \<Rightarrow> bool" where
  "isUsbDisconnectError usb_gone err =
     (if usb_gone err then True
      else
        let s = map lower_char (error_text err) in
        Contains s ''no such device'' \<or> Contains s ''device not responding'' \<or> Contains s ''device not found'' \<or>
        Contains s ''device disconnected'' \<or> Contains s ''endpoint not found'' \<or> Contains s ''pipe error'' \<or>
        Contains s ''operation timed out'' \<or> Contains s ''resource temporarily unavailable'')"

text \<open>The two callbacks of \<open>ReadMessage\<close> and \<open>WriteMessage\<close>.\<close>

definition note_disconnect :: "(go_error \<Rightarrow> bool) \<Rightarrow> go_error \<Rightarrow> ('u, 'e, 'o) ftdi \<Rightarrow> ('u, 'e, 'o) ftdi" where
  "note_disconnect usb_gone err t =
     (if isUsbDisconnectError usb_gone err \<and> \<not> f_disconnected t
      then on_disconnect (Some (Wrapf ''USB device disconnected: '' err)) (t\<lparr>f_disconnected := True\<rparr>)
      else t)"

definition note_connect :: "('u, 'e, 'o) ftdi \<Rightarrow> ('u, 'e, 'o) ftdi" where
  "note_connect t = (if f_disconnected t then on_connect (t\<lparr>f_disconnected := False\<rparr>) else t)"

text \<open>A call of \<open>t.reader.ReadMessage()\<close>.\<close>

definition reader_call ::
  "nat \<Rightarrow> 'e usb_read \<Rightarrow> ('u, 'e, 'o) ftdi \<Rightarrow> ((go_error + message) \<times> ('u, 'e, 'o) ftdi) go option" where
  "reader_call fuel epr t =
     (case f_reader t of
        None \<Rightarrow> Some Panic
      | Some r \<Rightarrow>
          map_option (\<lambda>out. go_bind out (\<lambda>(res, r).
            Ret (case res of Inl e \<Rightarrow> Inl e | Inr msg \<Rightarrow> Inr (load r msg), t\<lparr>f_reader := Some r\<rparr>)))
          (ReadMessage fuel (endpoint_Read epr) r))"

definition ftdi_ReadMessage ::
  "nat \<Rightarrow> ('u, 'e, 'o) gousb \<Rightarrow> int \<Rightarrow> (go_error \<Rightarrow> bool) \<Rightarrow> 'e usb_read \<Rightarrow> ('u, 'e, 'o) ftdi transport_read" where
  "ftdi_ReadMessage fuel ops inf_int usb_gone epr t =
     (if f_reader t = None then Some (Ret (Inl (ErrText ''transport not initialized''), t))
      else case reader_call fuel epr t of
        None \<Rightarrow> None
      | Some Panic \<Rightarrow> Some Panic
      | Some (Ret (Inl err, t)) \<Rightarrow>
          (case tryReconnect ops inf_int (note_disconnect usb_gone err t) of
             (Some e, t) \<Rightarrow> Some (Ret (Inl (Wrapf ''reconnect failed: '' e), t))
           | (None, t) \<Rightarrow> reader_call fuel epr t)
      | Some (Ret (Inr msg, t)) \<Rightarrow> Some (Ret (Inr msg, note_connect t)))"

text \<open>A write to a nil endpoint panics.\<close>

definition writer_call ::
  "'o usb_write \<Rightarrow> byte list \<Rightarrow> ('u, 'e, 'o) ftdi \<Rightarrow> (go_error option \<times> ('u, 'e, 'o) ftdi) go" where
  "writer_call epw data t =
     (case f_outEndpoint t of
        None \<Rightarrow> if data = [] then Ret (None, t) else Panic
      | Some ep \<Rightarrow>
          let (_, err, ep) = writeChunked epw (f_done t) ep data 0 in Ret (err, t\<lparr>f_outEndpoint := Some ep\<rparr>))"

definition ftdi_WriteMessage ::
  "('u, 'e, 'o) gousb \<Rightarrow> int \<Rightarrow> (go_error \<Rightarrow> bool) \<Rightarrow> 'o usb_write \<Rightarrow> ('u, 'e, 'o) ftdi transport_write" where
  "ftdi_WriteMessage ops inf_int usb_gone epw msg t =
     go_bind (Encode msg) (\<lambda>enc.
     case enc of
       Inl err \<Rightarrow> Ret (Some err, t)
     | Inr encoded \<Rightarrow>
       go_bind (writer_call epw encoded t) (\<lambda>(err, t).
       case err of
         None \<Rightarrow> Ret (None, note_connect t)
       | Some e \<Rightarrow>
         (case tryReconnect ops inf_int (note_disconnect usb_gone e t) of
            (Some e, t) \<Rightarrow> Ret (Some (Wrapf ''reconnect failed: '' e), t)
          | (None, t) \<Rightarrow>
            go_bind (writer_call epw encoded t) (\<lambda>(err, t).
            case err of
              Some e \<Rightarrow> Ret (Some e, t)
            | None \<Rightarrow> Ret (None, note_connect t)))))"

definition cancel_context :: "('u, 'e, 'o) ftdi \<Rightarrow> ('u, 'e, 'o) ftdi" where
  "cancel_context t =
     t\<lparr>f_done := True,
       f_reader := map_option (\<lambda>r. r\<lparr>reader := (reader r)\<lparr>er_done := True\<rparr>\<rparr>) (f_reader t)\<rparr>"

definition ftdi_Close :: "('u, 'e, 'o) ftdi transport_close" where
  "ftdi_Close t =
     (let t = cancel_context t;
          (flag, es) = disconnect_once (f_handler t) None (f_disconnected t, f_events t)
      in (None, closeResources (t\<lparr>f_disconnected := flag, f_events := es\<rparr>)))"

section \<open>What connecting opens and closes\<close>

text \<open>The four objects of a connection in the context \<open>c\<close>, the last one opened first.\<close>

definition complete :: "nat \<Rightarrow> usb_object list" where
  "complete c = [(UInterface, c), (UConfig, c), (UDevice, c), (UContext, c)]"

lemma open_device_effect:
  "open_device ops c t = (r, t') \<Longrightarrow>
   \<exists>u. t' = t\<lparr>usb := u, opened :=
     (case r of Inl _ \<Rightarrow> remove1 (UContext, c) (opened t)
      | Inr _ \<Rightarrow> (UInterface, c) # (UConfig, c) # (UDevice, c) # opened t)\<rparr>"
  unfolding open_device_def
  by (cases t) (auto simp: Let_def open_object_def close_object_def split: prod.splits sum.splits bool.splits option.splits)

text \<open>An error exit of the UART stage closes the device and the context.\<close>

lemma send_requests_effect:
  "send_requests ops c rs t = (r, t') \<Longrightarrow>
   \<exists>u. t' = t\<lparr>usb := u, opened :=
     (if r = None then opened t else remove1 (UContext, c) (remove1 (UDevice, c) (opened t)))\<rparr>"
proof (induction rs arbitrary: t)
  case (Cons q rs)
  show ?case
  proof (cases "fst (Control ops (snd q) (usb t))")
    case None
    then have "send_requests ops c rs (t\<lparr>usb := snd (Control ops (snd q) (usb t))\<rparr>) = (r, t')"
      using Cons.prems by (cases q) (simp add: Let_def split: prod.splits)
    from Cons.IH [OF this] show ?thesis
      by (cases r) auto
  next
    case (Some e)
    then show ?thesis
      using Cons.prems by (cases q) (auto simp: Let_def close_object_def split: prod.splits)
  qed
qed (auto intro: exI [of _ "usb t'"])

definition uart_ok :: "('u, 'e, 'o) gousb \<Rightarrow> bool" where
  "uart_ok ops \<longleftrightarrow> (\<forall>request u. fst (Control ops request u) = None)"

lemma send_requests_ok: "uart_ok ops \<Longrightarrow> fst (send_requests ops c rs t) = None"
proof (induction rs arbitrary: t)
  case (Cons q rs)
  moreover obtain u where "Control ops (snd q) (usb t) = (None, u)"
    using Cons.prems by (cases "Control ops (snd q) (usb t)") (metis fst_conv uart_ok_def)
  ultimately show ?case
    by (cases q) (simp add: Let_def)
qed simp

lemma connect_succeeds:
  assumes "connect ops inf_int (Some c) t = (None, t')"
  shows "\<exists>u i j. t' = adopt c (i, j)
    (t\<lparr>usb := u, opened := (UInterface, c) # (UConfig, c) # (UDevice, c) # opened t\<rparr>)"
  using assms unfolding connect_def
  by (auto dest!: open_device_effect send_requests_effect split: prod.splits sum.splits option.splits) blast

lemma connect_fails:
  assumes "connect ops inf_int (Some c) t = (Some e, t')"
  shows "\<exists>u rest. t' = t\<lparr>usb := u, opened := rest @ remove1 (UContext, c) (opened t)\<rparr> \<and>
    (rest = [] \<or> rest = [(UInterface, c), (UConfig, c)] \<and> \<not> uart_ok ops)"
proof (cases "open_device ops c t")
  case (Pair r t1)
  show ?thesis
  proof (cases r)
    case (Inl e')
    then show ?thesis
      using assms Pair
      by (auto simp: connect_def dest!: open_device_effect intro!: exI [of _ "[] :: usb_object list"])
  next
    case (Inr eps)
    obtain r2 t2 where s: "send_requests ops c (uart_requests inf_int (f_config t1)) t1 = (r2, t2)"
      by (cases "send_requests ops c (uart_requests inf_int (f_config t1)) t1")
    then have "r2 = Some e" "t' = t2"
      using assms Pair Inr by (auto simp: connect_def split: option.splits)
    moreover from this have "\<not> uart_ok ops"
      using send_requests_ok [of ops c "uart_requests inf_int (f_config t1)" t1] s by auto
    ultimately show ?thesis
      using open_device_effect [OF Pair] send_requests_effect [OF s] Inr
      by (auto intro!: exI [of _ "[(UInterface, c), (UConfig, c)]"])
  qed
qed

section \<open>The open objects and the pointers\<close>

text \<open>The transport holds all four objects of one context, or none.\<close>

definition holds :: "nat option \<Rightarrow> ('u, 'e, 'o) ftdi \<Rightarrow> bool" where
  "holds c t \<longleftrightarrow>
     f_intf t = map_option (Pair UInterface) c \<and> f_usbConfig t = map_option (Pair UConfig) c \<and>
     f_device t = map_option (Pair UDevice) c \<and> f_context t = map_option (Pair UContext) c"

definition held :: "('u, 'e, 'o) ftdi \<Rightarrow> usb_object list" where
  "held t = List.map_filter id [f_intf t, f_usbConfig t, f_device t, f_context t]"

lemma held_holds: "holds c t \<Longrightarrow> held t = (case c of None \<Rightarrow> [] | Some n \<Rightarrow> complete n)"
  by (auto simp: holds_def held_def complete_def List.map_filter_def split: option.splits)

text \<open>Every object that is open is held, or it is a configuration or an interface.\<close>

definition resources_inv :: "('u, 'e, 'o) gousb \<Rightarrow> ('u, 'e, 'o) ftdi \<Rightarrow> bool" where
  "resources_inv ops t \<longleftrightarrow>
     (\<exists>c. holds c t) \<and>
     (\<exists>rest. opened t = held t @ rest \<and> (\<forall>x \<in> set rest. fst x \<in> {UConfig, UInterface}) \<and> (uart_ok ops \<longrightarrow> rest = []))"

lemma resources_invI:
  assumes "holds c t" "opened t = (case c of None \<Rightarrow> [] | Some n \<Rightarrow> complete n) @ rest"
    "\<forall>x \<in> set rest. fst x \<in> {UConfig, UInterface}" "uart_ok ops \<Longrightarrow> rest = []"
  shows "resources_inv ops t"
  using assms by (auto simp: resources_inv_def held_holds)

lemma resources_invE:
  assumes "resources_inv ops t"
  obtains c rest where "holds c t" "opened t = (case c of None \<Rightarrow> [] | Some n \<Rightarrow> complete n) @ rest"
    "\<forall>x \<in> set rest. fst x \<in> {UConfig, UInterface}" "uart_ok ops \<Longrightarrow> rest = []"
  using assms by (auto simp: resources_inv_def held_holds)

lemma closeResources_effect:
  assumes "resources_inv ops t"
  shows "\<exists>rest. closeResources t =
      t\<lparr>f_intf := None, f_usbConfig := None, f_device := None, f_context := None, opened := rest\<rparr> \<and>
    (\<forall>x \<in> set rest. fst x \<in> {UConfig, UInterface}) \<and> (uart_ok ops \<longrightarrow> rest = [])"
  using assms
proof (rule resources_invE)
  fix c rest
  assume "holds c t" "opened t = (case c of None \<Rightarrow> [] | Some n \<Rightarrow> complete n) @ rest"
    "\<forall>x \<in> set rest. fst x \<in> {UConfig, UInterface}" "uart_ok ops \<Longrightarrow> rest = []"
  then show ?thesis
    by (intro exI [of _ rest])
      (auto simp: closeResources_def close_pointer_def close_object_def holds_def complete_def Let_def split: option.splits)
qed

lemma adopt_sel [simp]:
  "opened (adopt c eps t) = opened t" "contexts (adopt c eps t) = contexts t" "f_handler (adopt c eps t) = f_handler t"
  "f_config (adopt c eps t) = f_config t" "f_done (adopt c eps t) = f_done t" "f_disconnected (adopt c eps t) = False"
  "f_outEndpoint (adopt c eps t) = Some (snd eps)"
  by (simp_all add: adopt_def on_connect_def split: option.splits)

lemma adopt_holds [simp]: "holds (Some c) (adopt c eps t)"
  by (simp add: adopt_def on_connect_def holds_def split: option.splits)

lemma tryReconnect_resources:
  assumes "resources_inv ops t" "tryReconnect ops inf_int t = (err, t')"
  shows "resources_inv ops t'"
proof -
  obtain rest where c: "closeResources t =
      t\<lparr>f_intf := None, f_usbConfig := None, f_device := None, f_context := None, opened := rest\<rparr>"
    and rest: "\<forall>x \<in> set rest. fst x \<in> {UConfig, UInterface}" "uart_ok ops \<longrightarrow> rest = []"
    using closeResources_effect [OF assms(1)] by blast
  have ctx: "remove1 (UContext, n) rest = rest" for n
    using rest(1) by (intro remove1_idem) force
  show ?thesis
  proof (cases err)
    case None
    then show ?thesis
      using assms(2) c rest
      by (auto simp: tryReconnect_def NewContext_def open_object_def complete_def Let_def
          dest!: connect_succeeds intro!: resources_invI [where c = "Some (contexts t)" and rest = rest]
          split: prod.splits option.splits)
  next
    case (Some e)
    then show ?thesis
      using assms(2) c rest
      by (auto simp: tryReconnect_def NewContext_def open_object_def close_object_def holds_def Let_def ctx
          dest!: connect_fails intro!: resources_invI [where c = None] split: prod.splits option.splits)
  qed
qed

section \<open>Runs of the transport\<close>

text \<open>A user of the transport: any sequence of reads, writes and closes, each with its outcome.\<close>

datatype ftdi_call = FtdiRead | FtdiWrite message | FtdiClose

inductive ftdi_step ::
  "('u, 'e, 'o) gousb \<Rightarrow> int \<Rightarrow> (go_error \<Rightarrow> bool) \<Rightarrow> 'e usb_read \<Rightarrow> 'o usb_write
     \<Rightarrow> ('u, 'e, 'o) ftdi \<Rightarrow> ftdi_call \<Rightarrow> ('u, 'e, 'o) ftdi \<Rightarrow> bool"
  for ops inf_int usb_gone epr epw where
  step_read: "ftdi_ReadMessage fuel ops inf_int usb_gone epr t = Some (Ret (res, t')) \<Longrightarrow>
    ftdi_step ops inf_int usb_gone epr epw t FtdiRead t'"
| step_write: "ftdi_WriteMessage ops inf_int usb_gone epw msg t = Ret (err, t') \<Longrightarrow>
    ftdi_step ops inf_int usb_gone epr epw t (FtdiWrite msg) t'"
| step_close: "ftdi_Close t = (err, t') \<Longrightarrow> ftdi_step ops inf_int usb_gone epr epw t FtdiClose t'"

inductive_cases ftdi_step_close: "ftdi_step ops inf_int usb_gone epr epw t FtdiClose t'"

inductive ftdi_run ::
  "('u, 'e, 'o) gousb \<Rightarrow> int \<Rightarrow> (go_error \<Rightarrow> bool) \<Rightarrow> 'e usb_read \<Rightarrow> 'o usb_write
     \<Rightarrow> ('u, 'e, 'o) ftdi \<Rightarrow> ftdi_call list \<Rightarrow> ('u, 'e, 'o) ftdi \<Rightarrow> bool"
  for ops inf_int usb_gone epr epw where
  ftdi_run_nil: "ftdi_run ops inf_int usb_gone epr epw t [] t"
| ftdi_run_cons: "ftdi_step ops inf_int usb_gone epr epw t a t' \<Longrightarrow>
    ftdi_run ops inf_int usb_gone epr epw t' as t'' \<Longrightarrow> ftdi_run ops inf_int usb_gone epr epw t (a # as) t''"

inductive_simps ftdi_run_simps [simp]:
  "ftdi_run ops inf_int usb_gone epr epw t [] t'"
  "ftdi_run ops inf_int usb_gone epr epw t (a # as) t'"

lemma ftdi_run_append [simp]:
  "ftdi_run ops inf_int usb_gone epr epw t (as @ bs) t' \<longleftrightarrow>
   (\<exists>s. ftdi_run ops inf_int usb_gone epr epw t as s \<and> ftdi_run ops inf_int usb_gone epr epw s bs t')"
  by (induction as arbitrary: t) auto

text \<open>The contract of an invariant: kept by the parts that the operations are made of. It is then
  kept by every run.\<close>

locale ftdi_invariant =
  fixes ops :: "('u, 'e, 'o) gousb" and inf_int :: int and P :: "('u, 'e, 'o) ftdi \<Rightarrow> bool"
  assumes keep_reader: "P t \<Longrightarrow> P (t\<lparr>f_reader := r\<rparr>)"
    and keep_endpoint: "P t \<Longrightarrow> P (t\<lparr>f_outEndpoint := ep\<rparr>)"
    and keep_note_connect: "P t \<Longrightarrow> P (note_connect t)"
    and keep_note_disconnect: "P t \<Longrightarrow> P (note_disconnect usb_gone err t)"
    and keep_reconnect: "P t \<Longrightarrow> P (snd (tryReconnect ops inf_int t))"
    and keep_close: "P t \<Longrightarrow> P (snd (ftdi_Close t))"
begin

lemma reader_call_keeps: "P t \<Longrightarrow> reader_call fuel epr t = Some (Ret (res, t')) \<Longrightarrow> P t'"
  by (auto simp: reader_call_def go_simps keep_reader split: option.splits)

lemma writer_call_keeps: "P t \<Longrightarrow> writer_call epw data t = Ret (err, t') \<Longrightarrow> P t'"
  by (auto simp: writer_call_def keep_endpoint split: option.splits if_splits prod.splits)

lemma reconnect_keeps: "P t \<Longrightarrow> tryReconnect ops inf_int (note_disconnect usb_gone e t) = (err, t') \<Longrightarrow> P t'"
  using keep_reconnect [OF keep_note_disconnect, of t usb_gone e] by simp

lemma read_keeps:
  assumes "P t" "ftdi_ReadMessage fuel ops inf_int usb_gone epr t = Some (Ret (res, t'))"
  shows "P t'"
proof (cases "f_reader t = None")
  case False
  with assms(2) obtain res1 t1 where call: "reader_call fuel epr t = Some (Ret (res1, t1))"
    by (auto simp: ftdi_ReadMessage_def split: option.splits go.splits)
  then have "P t1"
    using assms(1) reader_call_keeps by blast
  with assms(2) call False show ?thesis
    by (auto simp: ftdi_ReadMessage_def keep_note_connect split: sum.splits option.splits prod.splits
        dest: reconnect_keeps reader_call_keeps)
qed (use assms in \<open>simp add: ftdi_ReadMessage_def\<close>)

lemma retry_write_keeps:
  assumes "P t" "tryReconnect ops inf_int (note_disconnect usb_gone e t) = (None, t1)"
    and "writer_call epw data t1 = Ret (err, t')"
  shows "P t'"
  using assms by (blast dest: reconnect_keeps writer_call_keeps)

lemma write_keeps:
  assumes "P t" "ftdi_WriteMessage ops inf_int usb_gone epw msg t = Ret (err, t')"
  shows "P t'"
proof (cases "Encode msg")
  case (Ret enc)
  show ?thesis
  proof (cases enc)
    case (Inr bytes)
    with Ret assms(2) obtain err1 t1 where call: "writer_call epw bytes t = Ret (err1, t1)"
      by (auto simp: ftdi_WriteMessage_def go_simps)
    then have "P t1"
      using assms(1) writer_call_keeps by blast
    with assms(2) call Ret Inr show ?thesis
      by (cases err1; cases "tryReconnect ops inf_int (note_disconnect usb_gone (the err1) t1)")
        (auto simp: ftdi_WriteMessage_def go_simps keep_note_connect split: option.splits
          dest: reconnect_keeps retry_write_keeps)
  qed (use assms Ret in \<open>simp add: ftdi_WriteMessage_def\<close>)
qed (use assms in \<open>simp add: ftdi_WriteMessage_def\<close>)

lemma step_keeps: "ftdi_step ops inf_int usb_gone epr epw t a t' \<Longrightarrow> P t \<Longrightarrow> P t'"
  using keep_close [of t] by (auto elim!: ftdi_step.cases dest: read_keeps write_keeps)

lemma run_keeps: "ftdi_run ops inf_int usb_gone epr epw t as t' \<Longrightarrow> P t \<Longrightarrow> P t'"
  by (induction rule: ftdi_run.induct) (auto dest: step_keeps)

end

text \<open>The first instance: the open objects.\<close>

lemma pointers_update [simp]:
  "held (t\<lparr>f_reader := r\<rparr>) = held t" "held (t\<lparr>f_outEndpoint := ep\<rparr>) = held t"
  "held (t\<lparr>f_disconnected := b\<rparr>) = held t" "held (t\<lparr>f_events := es\<rparr>) = held t" "held (t\<lparr>f_done := b\<rparr>) = held t"
  "holds c (t\<lparr>f_reader := r\<rparr>) = holds c t" "holds c (t\<lparr>f_outEndpoint := ep\<rparr>) = holds c t"
  "holds c (t\<lparr>f_disconnected := b\<rparr>) = holds c t" "holds c (t\<lparr>f_events := es\<rparr>) = holds c t"
  "holds c (t\<lparr>f_done := b\<rparr>) = holds c t"
  by (simp_all add: held_def holds_def)

lemma on_connect_sel [simp]:
  "opened (on_connect t) = opened t" "held (on_connect t) = held t" "holds c (on_connect t) = holds c t"
  by (simp_all add: on_connect_def split: option.splits)

lemma on_disconnect_sel [simp]:
  "opened (on_disconnect e t) = opened t" "held (on_disconnect e t) = held t" "holds c (on_disconnect e t) = holds c t"
  by (simp_all add: on_disconnect_def split: option.splits)

lemma resources_inv_cong:
  "opened t' = opened t \<Longrightarrow> held t' = held t \<Longrightarrow> (\<And>c. holds c t' = holds c t) \<Longrightarrow>
   resources_inv ops t \<Longrightarrow> resources_inv ops t'"
  by (simp add: resources_inv_def)

lemma ftdi_Close_resources:
  assumes "resources_inv ops t"
  shows "resources_inv ops (snd (ftdi_Close t)) \<and> holds None (snd (ftdi_Close t))"
proof -
  let ?t = "(cancel_context t)\<lparr>f_disconnected := fst (disconnect_once (f_handler t) None (f_disconnected t, f_events t)),
    f_events := snd (disconnect_once (f_handler t) None (f_disconnected t, f_events t))\<rparr>"
  have "resources_inv ops ?t"
    by (rule resources_inv_cong [OF _ _ _ assms]) (simp_all add: cancel_context_def)
  from closeResources_effect [OF this] show ?thesis
    by (auto simp: ftdi_Close_def cancel_context_def holds_def split_beta Let_def intro!: resources_invI [where c = None])
qed

interpretation resources: ftdi_invariant ops inf_int "resources_inv ops" for ops inf_int
proof
  fix t :: "('a, 'b, 'c) ftdi"
  assume inv: "resources_inv ops t"
  show "resources_inv ops (t\<lparr>f_reader := r\<rparr>)" for r
    by (rule resources_inv_cong [OF _ _ _ inv]) simp_all
  show "resources_inv ops (t\<lparr>f_outEndpoint := ep\<rparr>)" for ep
    by (rule resources_inv_cong [OF _ _ _ inv]) simp_all
  show "resources_inv ops (note_connect t)"
    by (rule resources_inv_cong [OF _ _ _ inv]) (simp_all add: note_connect_def)
  show "resources_inv ops (note_disconnect usb_gone err t)" for usb_gone err
    by (rule resources_inv_cong [OF _ _ _ inv]) (simp_all add: note_disconnect_def)
  show "resources_inv ops (snd (tryReconnect ops inf_int t))"
    using tryReconnect_resources [OF inv] by (cases "tryReconnect ops inf_int t") auto
  show "resources_inv ops (snd (ftdi_Close t))"
    using ftdi_Close_resources [OF inv] by blast
qed

lemma NewFTDITransport_resources:
  assumes "NewFTDITransport ops inf_int u cfg h = (err, t)"
  shows "resources_inv ops t"
proof (cases err)
  case None
  then show ?thesis
    using assms unfolding NewFTDITransport_def
    by (auto simp: NewContext_def open_object_def complete_def holds_def Let_def adopt_def on_connect_def
        dest!: connect_succeeds intro!: resources_invI [where c = "Some 0" and rest = "[]"]
        split: prod.splits option.splits)
next
  case (Some e)
  then show ?thesis
    using assms unfolding NewFTDITransport_def
    by (auto simp: NewContext_def open_object_def holds_def Let_def
        dest!: connect_fails intro!: resources_invI [where c = None] split: prod.splits option.splits)
qed

section \<open>The callbacks\<close>

text \<open>The state of the connection after a log of callbacks: whether the last one was a disconnect;
  \<open>None\<close> when two disconnects have no connect between them.\<close>

fun track :: "bool \<Rightarrow> conn_event list \<Rightarrow> bool option" where
  "track down [] = Some down"
| "track down (Connected # es) = track False es"
| "track down (Disconnected _ # es) = (if down then None else track True es)"

lemma track_append: "track d (es @ es') = Option.bind (track d es) (\<lambda>d. track d es')"
  by (induction d es rule: track.induct) auto

definition events_inv :: "('u, 'e, 'o) ftdi \<Rightarrow> bool" where
  "events_inv t \<longleftrightarrow>
     (f_handler t = Some both_callbacks \<longrightarrow> track False (f_events t) = Some (f_disconnected t))"

lemmas callback_simps = on_connect_def on_disconnect_def both_callbacks_def OnConnect_def OnDisconnect_def track_append

lemma events_inv_adopt: "f_handler t = Some both_callbacks \<Longrightarrow> track False (f_events t) = Some d \<Longrightarrow> events_inv (adopt c eps t)"
  by (simp add: events_inv_def adopt_def callback_simps)

lemma closeResources_frame [simp]:
  "f_handler (closeResources t) = f_handler t" "f_events (closeResources t) = f_events t"
  "f_disconnected (closeResources t) = f_disconnected t" "f_done (closeResources t) = f_done t"
  "f_reader (closeResources t) = f_reader t" "f_config (closeResources t) = f_config t"
  "usb (closeResources t) = usb t" "contexts (closeResources t) = contexts t"
  by (simp_all add: closeResources_def close_pointer_def close_object_def Let_def split: option.splits)

lemma adopt_frame [simp]: "f_handler (adopt c eps t) = f_handler t"
  by (simp add: adopt_def on_connect_def split: option.splits)

lemma connect_events:
  assumes "connect ops inf_int (Some c) t = (err, t')" "events_inv t"
  shows "events_inv t'"
proof (cases err)
  case None
  then obtain u i j where t': "t' = adopt c (i, j)
      (t\<lparr>usb := u, opened := (UInterface, c) # (UConfig, c) # (UDevice, c) # opened t\<rparr>)"
    using connect_succeeds assms(1) by blast
  show ?thesis
  proof (cases "f_handler t = Some both_callbacks")
    case True
    then show ?thesis
      using assms(2) unfolding t' by (intro events_inv_adopt) (simp_all add: events_inv_def)
  qed (simp add: t' events_inv_def)
next
  case (Some e)
  then show ?thesis
    using assms by (auto simp: events_inv_def dest!: connect_fails)
qed

interpretation events: ftdi_invariant ops inf_int events_inv for ops inf_int
proof
  fix t :: "('a, 'b, 'c) ftdi"
  assume inv: "events_inv t"
  show "events_inv (t\<lparr>f_reader := r\<rparr>)" "events_inv (t\<lparr>f_outEndpoint := ep\<rparr>)" for r ep
    using inv by (simp_all add: events_inv_def)
  show "events_inv (note_connect t)"
    using inv by (auto simp: events_inv_def note_connect_def callback_simps split: option.splits)
  show "events_inv (note_disconnect usb_gone err t)" for usb_gone err
    using inv by (auto simp: events_inv_def note_disconnect_def callback_simps split: option.splits)
  show "events_inv (snd (ftdi_Close t))"
    using inv
    by (auto simp: events_inv_def ftdi_Close_def cancel_context_def disconnect_once_def callback_simps split_beta Let_def
        split: option.splits)
  show "events_inv (snd (tryReconnect ops inf_int t))"
  proof -
    obtain c s where c: "NewContext (closeResources t) = (c, s)"
      by (cases "NewContext (closeResources t)")
    then have "events_inv s"
      using inv by (auto simp: NewContext_def open_object_def events_inv_def)
    then have "events_inv t'" if "connect ops inf_int (Some c) s = (err, t')" for err t'
      using that connect_events by blast
    then show ?thesis
      using c
      by (cases "connect ops inf_int (Some c) s")
        (auto simp: tryReconnect_def close_object_def events_inv_def Let_def split: option.splits)
  qed
qed

lemma NewFTDITransport_events:
  assumes "NewFTDITransport ops inf_int u cfg h = (err, t)"
  shows "events_inv t"
proof (cases err)
  case None
  then show ?thesis
    using assms unfolding NewFTDITransport_def
    by (auto simp: NewContext_def open_object_def events_inv_def adopt_def callback_simps Let_def
        dest!: connect_succeeds split: prod.splits option.splits)
next
  case (Some e)
  then show ?thesis
    using assms unfolding NewFTDITransport_def
    by (auto simp: NewContext_def open_object_def events_inv_def Let_def
        dest!: connect_fails split: prod.splits option.splits)
qed

section \<open>The errors a read can meet\<close>

text \<open>An error of \<open>MessageReader.ReadMessage\<close> is one of the underlying reader.\<close>

lemma readMore_error: "readMore rd r = Ret (Some e, r') \<Longrightarrow> \<exists>s n bs s'. rd s n = (bs, Some e, s')"
  by (auto simp: readMore_def go_simps split_beta Let_def split: if_splits) (metis prod.collapse)

lemma read_step_error: "read_step rd pc r = Return (Inl e) r' \<Longrightarrow> \<exists>s n bs s'. rd s n = (bs, Some e, s')"
  by (cases pc)
    (auto simp: outer_step_def scan_step_def Let_def dest!: readMore_error
      split: if_splits go.splits sum.splits prod.splits option.splits)

lemma read_run_error: "read_run fuel rd pc r = Some (Ret (Inl e, r')) \<Longrightarrow> \<exists>s n bs s'. rd s n = (bs, Some e, s')"
  by (induction fuel arbitrary: pc r) (auto dest: read_step_error split: read_outcome.splits)

lemma endpoint_Read_error:
  assumes "endpoint_Read epr r n = (bs, Some e, r')"
  shows "e = EOF \<or> e = ErrText ''endpoint is nil'' \<or>
    (errors_Is e Canceled \<or> errors_Is e DeadlineExceeded) \<and> (\<exists>d ep m bs ep'. epr d ep m = (bs, Some e, ep'))"
  using assms by (fastforce simp: endpoint_Read_def copy_out_def Let_def split: option.splits prod.splits if_splits)

lemma reader_call_error:
  assumes "reader_call fuel epr t = Some (Ret (Inl e, t'))"
  shows "e = EOF \<or> e = ErrText ''endpoint is nil'' \<or>
    (errors_Is e Canceled \<or> errors_Is e DeadlineExceeded) \<and> (\<exists>d ep m bs ep'. epr d ep m = (bs, Some e, ep'))"
proof -
  obtain r r' where "ReadMessage fuel (endpoint_Read epr) r = Some (Ret (Inl e, r'))"
    using assms
    by (auto simp: reader_call_def go_simps split: option.splits) (auto split: sum.splits)
  then show ?thesis
    unfolding ReadMessage_def by (blast dest: read_run_error endpoint_Read_error)
qed

text \<open>The handler never changes.\<close>

lemma callbacks_frame [simp]:
  "f_handler (on_connect t) = f_handler t" "f_handler (on_disconnect e t) = f_handler t"
  by (simp_all add: on_connect_def on_disconnect_def split: option.splits)

lemma connect_handler: "connect ops inf_int (Some c) t = (err, t') \<Longrightarrow> f_handler t' = f_handler t"
  by (cases err) (auto dest!: connect_succeeds connect_fails)

lemma tryReconnect_handler: "f_handler (snd (tryReconnect ops inf_int t)) = f_handler t"
  by (auto simp: tryReconnect_def NewContext_def open_object_def close_object_def Let_def
      dest!: connect_handler split: prod.splits option.splits)

interpretation handler: ftdi_invariant ops inf_int "\<lambda>t. f_handler t = h" for ops inf_int h
  by unfold_locales
    (simp_all add: note_connect_def note_disconnect_def tryReconnect_handler ftdi_Close_def cancel_context_def split_beta Let_def)

lemma NewFTDITransport_handler: "NewFTDITransport ops inf_int u cfg h = (err, t) \<Longrightarrow> f_handler t = h"
  unfolding NewFTDITransport_def
  by (auto simp: NewContext_def open_object_def Let_def dest!: connect_handler split: prod.splits option.splits)

end
