(* ===== verification/Qdp_Broker.thy ===== *)
theory Qdp_Broker
  imports Qdp_Ftdi
begin

text \<open>
  \<open>MessageBroker\<close> of \<open>message_broker.go\<close>: the worker that keeps one protocol per enabled transport
  entity while it is the leader. Handlers of the application and callbacks of the data store run on
  the main thread; callbacks of the transports and of the protocols only queue a task for it
  (\<open>DoInMainThread\<close>), so every main-thread handler and every task is one step. The goroutines of the
  protocols and the transports take steps between them.

  Foreign code is a parameter: \<open>st\<close> is the data store of \<open>qlib\<close> on a state \<open>'d\<close>, whose reads do not
  change it. The transports are used through \<open>ITransport\<close> and their constructors only, the parameter
  \<open>k\<close>: the constructors on a state \<open>'n\<close> of network and USB, the three methods, and the log of the
  connection callbacks that a transport has made. A transport and a protocol are objects, named by
  their number: \<open>protocolsByEntity\<close> holds numbers of protocols, and a protocol the number of its
  transport, so that two protocols may share one. The application calls \<open>Init\<close> first; the queue
  stands for its handle.
\<close>

section \<open>Definitions\<close>

type_synonym i64 = "64 word"

datatype store_callback = OnSchemaUpdatedCb | OnTcpIsEnabledCb | OnTxMessageCb | OnFtdiIsEnabledCb

record notify_config =
  EntityType :: string
  FieldName :: string
  ContextFields :: "string list"
  Callback :: store_callback

text \<open>The data store: queries by entity type, reads and writes of a field of an entity,
  notifications.\<close>

record 'd data_store =
  Execute :: "string \<Rightarrow> 'd \<Rightarrow> string list"
  ReadBool :: "string \<Rightarrow> string \<Rightarrow> 'd \<Rightarrow> bool"
  ReadInt :: "string \<Rightarrow> string \<Rightarrow> 'd \<Rightarrow> i64"
  ReadString :: "string \<Rightarrow> string \<Rightarrow> 'd \<Rightarrow> string"
  ReadEntityReference :: "string \<Rightarrow> string \<Rightarrow> 'd \<Rightarrow> string"
  WriteBool :: "string \<Rightarrow> string \<Rightarrow> bool \<Rightarrow> 'd \<Rightarrow> 'd"
  WriteInt :: "string \<Rightarrow> string \<Rightarrow> i64 \<Rightarrow> 'd \<Rightarrow> 'd"
  WriteString :: "string \<Rightarrow> string \<Rightarrow> string \<Rightarrow> 'd \<Rightarrow> 'd"
  Notify :: "notify_config \<Rightarrow> 'd \<Rightarrow> nat \<times> 'd"
  Unbind :: "nat \<Rightarrow> 'd \<Rightarrow> 'd"

text \<open>The transports; the handler given to a constructor has both callbacks.\<close>

record ('n, 't) transport_kit =
  kit_client :: "string \<Rightarrow> 'n \<Rightarrow> (go_error + 't) \<times> 'n"
  kit_server :: "string \<Rightarrow> 'n \<Rightarrow> (go_error + 't) \<times> 'n"
  kit_ftdi :: "ftdi_config \<Rightarrow> 'n \<Rightarrow> (go_error + 't) \<times> 'n"
  kit_read :: "'t transport_read"
  kit_write :: "'t transport_write"
  kit_close :: "'t transport_close"
  kit_events :: "'t \<Rightarrow> conn_event list"

text \<open>The functions that are queued for the main thread, with the entity and the transport or message
  they capture.\<close>

datatype task =
    ConnectTask string nat
  | DisconnectTask string nat "go_error option"
  | RxTask string message
  | TxTask string message

record agent =
  ag_entity :: string
  ag_session :: "nat session"

text \<open>\<open>transports\<close> and \<open>agents\<close> are the transports and the protocols created so far, with the entity their
  callbacks capture; \<open>closures\<close> gives the topic entity of each subscription handler; \<open>bound\<close> holds the
  tokens returned by \<open>Notify\<close> that were not unbound. A nil map is \<open>None\<close>.\<close>

record ('d, 'n, 't) broker =
  b_store :: 'd
  b_net :: 'n
  isLeader :: bool
  b_done :: bool
  protocolsByEntity :: "(string \<Rightarrow> nat option) option"
  tokens :: "nat list"
  bound :: "nat list"
  queue :: "task list"
  transports :: "(string \<times> 't) list"
  agents :: "agent list"
  closures :: "string list"

definition NewMessageBroker :: "'d \<Rightarrow> 'n \<Rightarrow> ('d, 'n, 't) broker" where
  "NewMessageBroker d n =
     \<lparr>b_store = d, b_net = n, isLeader = False, b_done = False, protocolsByEntity = None, tokens = [],
      bound = [], queue = [], transports = [], agents = [], closures = []\<rparr>"

definition Init :: "('d, 'n, 't) broker \<Rightarrow> ('d, 'n, 't) broker" where
  "Init w = w\<lparr>protocolsByEntity := Some (\<lambda>_. None)\<rparr>"

text \<open>\<open>w.protocolsByEntity[id]\<close> and \<open>delete\<close>, also of a nil map.\<close>

definition protocol_of :: "('d, 'n, 't) broker \<Rightarrow> string \<Rightarrow> nat option" where
  "protocol_of w ent = (case protocolsByEntity w of None \<Rightarrow> None | Some m \<Rightarrow> m ent)"

definition forget :: "string \<Rightarrow> ('d, 'n, 't) broker \<Rightarrow> ('d, 'n, 't) broker" where
  "forget ent w = w\<lparr>protocolsByEntity := map_option (\<lambda>m. m(ent := None)) (protocolsByEntity w)\<rparr>"

text \<open>The callbacks a transport makes: \<open>OnConnectFunc\<close> and \<open>OnDisconnectFunc\<close> queue a task.\<close>

fun connection_task :: "string \<Rightarrow> nat \<Rightarrow> conn_event \<Rightarrow> task" where
  "connection_task ent tid Connected = ConnectTask ent tid"
| "connection_task ent tid (Disconnected err) = DisconnectTask ent tid err"

text \<open>A new transport, and one that a call has changed: the callbacks it has made meanwhile.\<close>

definition register :: "('n, 't) transport_kit \<Rightarrow> string \<Rightarrow> 't \<Rightarrow> ('d, 'n, 't) broker \<Rightarrow> ('d, 'n, 't) broker" where
  "register k ent t w =
     w\<lparr>transports := transports w @ [(ent, t)],
       queue := queue w @ map (connection_task ent (length (transports w))) (kit_events k t)\<rparr>"

definition put_transport :: "('n, 't) transport_kit \<Rightarrow> nat \<Rightarrow> 't \<Rightarrow> ('d, 'n, 't) broker \<Rightarrow> ('d, 'n, 't) broker" where
  "put_transport k tid t' w =
     (let (ent, t) = transports w ! tid
      in w\<lparr>transports := (transports w)[tid := (ent, t')],
           queue := queue w @ map (connection_task ent tid) (drop (length (kit_events k t)) (kit_events k t'))\<rparr>)"

text \<open>A protocol with its transport loaded, and stored again.\<close>

definition with_transport :: "'b \<Rightarrow> 'a protocol \<Rightarrow> 'b protocol" where
  "with_transport t p =
     \<lparr>transport = t, subscribers = subscribers p, msgCh = msgCh p, msgHandler = msgHandler p,
      own_ctx_done = own_ctx_done p, calls = calls p\<rparr>"

definition with_protocol :: "'b protocol \<Rightarrow> 'a session \<Rightarrow> 'b session" where
  "with_protocol p s =
     \<lparr>proto = p, recv = recv s, proc = proc s, ctx_done = ctx_done s, received = received s, handled = handled s\<rparr>"

definition load_session :: "nat \<Rightarrow> ('d, 'n, 't) broker \<Rightarrow> 't session" where
  "load_session pid w =
     (let s = ag_session (agents w ! pid); p = proto s
      in with_protocol (with_transport (snd (transports w ! transport p)) p) s)"

text \<open>The calls of the message handler and of the subscription handlers: the first queue a task, the
  second write the payload into the fields of the topic entity they capture.\<close>

fun perform :: "'d data_store \<Rightarrow> string \<Rightarrow> callback \<Rightarrow> ('d, 'n, 't) broker \<Rightarrow> ('d, 'n, 't) broker" where
  "perform st ent (HandlerRx msg) w = w\<lparr>queue := queue w @ [RxTask ent msg]\<rparr>"
| "perform st ent (HandlerTx msg) w = w\<lparr>queue := queue w @ [TxTask ent msg]\<rparr>"
| "perform st ent (Deliver h msg) w =
     (let topic = closures w ! ident h; s = bytes_string (Payload msg)
      in w\<lparr>b_store := WriteString st topic ''RxMessageFn'' s (WriteString st topic ''RxMessage'' s (b_store w))\<rparr>)"

definition store_session ::
  "'d data_store \<Rightarrow> ('n, 't) transport_kit \<Rightarrow> nat \<Rightarrow> 't session \<Rightarrow> ('d, 'n, 't) broker \<Rightarrow> ('d, 'n, 't) broker" where
  "store_session st k pid s' w =
     (let a = agents w ! pid; p = proto (ag_session a); p' = proto s';
          w = put_transport k (transport p) (transport p') w;
          w = w\<lparr>agents := (agents w)[pid := a\<lparr>ag_session := with_protocol (with_transport (transport p) p') s'\<rparr>]\<rparr>
      in fold (perform st (ag_entity a)) (drop (length (calls p)) (calls p')) w)"

definition close_protocol ::
  "'d data_store \<Rightarrow> ('n, 't) transport_kit \<Rightarrow> nat \<Rightarrow> ('d, 'n, 't) broker \<Rightarrow> ('d, 'n, 't) broker" where
  "close_protocol st k pid w =
     (let s = load_session pid w
      in store_session st k pid (s\<lparr>proto := snd (protocol_Close (kit_close k) (proto s))\<rparr>) w)"

text \<open>The sequence \<open>protocol.Close(); delete(w.protocolsByEntity, ent)\<close>.\<close>

definition drop_protocol ::
  "'d data_store \<Rightarrow> ('n, 't) transport_kit \<Rightarrow> string \<Rightarrow> nat \<Rightarrow> ('d, 'n, 't) broker \<Rightarrow> ('d, 'n, 't) broker" where
  "drop_protocol st k ent pid w = forget ent (close_protocol st k pid w)"

definition write_bool ::
  "'d data_store \<Rightarrow> string \<Rightarrow> string \<Rightarrow> bool \<Rightarrow> ('d, 'n, 't) broker \<Rightarrow> ('d, 'n, 't) broker" where
  "write_bool st ent field b w = w\<lparr>b_store := WriteBool st ent field b (b_store w)\<rparr>"

subsection \<open>Setting up the transports\<close>

definition open_transport ::
  "('n, 't) transport_kit \<Rightarrow> string \<Rightarrow> ('n \<Rightarrow> (go_error + 't) \<times> 'n) \<Rightarrow> ('d, 'n, 't) broker \<Rightarrow> ('d, 'n, 't) broker" where
  "open_transport k ent constructor w =
     (let (res, n) = constructor (b_net w); w = w\<lparr>b_net := n\<rparr>
      in case res of Inl _ \<Rightarrow> w | Inr t \<Rightarrow> register k ent t w)"

definition setupTcpTransport ::
  "'d data_store \<Rightarrow> ('n, 't) transport_kit \<Rightarrow> string \<Rightarrow> ('d, 'n, 't) broker \<Rightarrow> ('d, 'n, 't) broker" where
  "setupTcpTransport st k ent w =
     (let w = write_bool st ent ''IsConnected'' False w
      in if \<not> ReadBool st ent ''IsEnabled'' (b_store w) then w
         else
           let addr = ReadString st ent ''Address'' (b_store w);
               isClient = ReadBool st ent ''IsClient'' (b_store w)
           in open_transport k ent (if isClient then kit_client k addr else kit_server k addr) w)"

definition entity_ftdi_config :: "'d data_store \<Rightarrow> string \<Rightarrow> 'd \<Rightarrow> ftdi_config" where
  "entity_ftdi_config st ent d =
     \<lparr>VID = ucast (ReadInt st ent ''VendorID'' d), PID = ucast (ReadInt st ent ''ProductID'' d),
      Interface = sint (ReadInt st ent ''Interface'' d), ReadEP = sint (ReadInt st ent ''ReadEndpoint'' d),
      WriteEP = sint (ReadInt st ent ''WriteEndpoint'' d), BaudRate = sint (ReadInt st ent ''BaudRate'' d),
      DataBits = sint (ReadInt st ent ''DataBits'' d), StopBits = sint (ReadInt st ent ''StopBits'' d),
      Parity = sint (ReadInt st ent ''Parity'' d), FlowControl = sint (ReadInt st ent ''FlowControl'' d)\<rparr>"

definition setupFtdiTransport ::
  "'d data_store \<Rightarrow> ('n, 't) transport_kit \<Rightarrow> string \<Rightarrow> ('d, 'n, 't) broker \<Rightarrow> ('d, 'n, 't) broker" where
  "setupFtdiTransport st k ent w =
     (let w = write_bool st ent ''IsConnected'' False w
      in if \<not> ReadBool st ent ''IsEnabled'' (b_store w) then w
         else open_transport k ent (kit_ftdi k (entity_ftdi_config st ent (b_store w))) w)"

definition notify_configs :: "notify_config list" where
  "notify_configs =
     [\<lparr>EntityType = ''Root'', FieldName = ''SchemaUpdateTrigger'', ContextFields = [], Callback = OnSchemaUpdatedCb\<rparr>,
      \<lparr>EntityType = ''QdpTcpTransport'', FieldName = ''IsEnabled'', ContextFields = [], Callback = OnTcpIsEnabledCb\<rparr>,
      \<lparr>EntityType = ''QdpTopic'', FieldName = ''TxMessage'', ContextFields = [''Topic'', ''TransportReference''],
       Callback = OnTxMessageCb\<rparr>,
      \<lparr>EntityType = ''QdpFtdiTransport'', FieldName = ''IsEnabled'', ContextFields = [], Callback = OnFtdiIsEnabledCb\<rparr>]"

definition add_token :: "'d data_store \<Rightarrow> notify_config \<Rightarrow> ('d, 'n, 't) broker \<Rightarrow> ('d, 'n, 't) broker" where
  "add_token st cfg w =
     (let (token, d) = Notify st cfg (b_store w)
      in w\<lparr>b_store := d, tokens := tokens w @ [token], bound := bound w @ [token]\<rparr>)"

definition setup_broker :: "'d data_store \<Rightarrow> ('n, 't) transport_kit \<Rightarrow> ('d, 'n, 't) broker \<Rightarrow> ('d, 'n, 't) broker" where
  "setup_broker st k w =
     (let w = fold (add_token st) notify_configs w;
          w = fold (setupTcpTransport st k) (Execute st ''QdpTcpTransport'' (b_store w)) w
      in fold (setupFtdiTransport st k) (Execute st ''QdpFtdiTransport'' (b_store w)) w)"

text \<open>\<open>teardown\<close>: \<open>ids\<close> are the keys of the map in the order of Go's iteration, which is not specified.\<close>

fun close_all ::
  "'d data_store \<Rightarrow> ('n, 't) transport_kit \<Rightarrow> string list \<Rightarrow> ('d, 'n, 't) broker \<Rightarrow> ('d, 'n, 't) broker" where
  "close_all st k [] w = w"
| "close_all st k (ent # ids) w =
     close_all st k ids (case protocol_of w ent of None \<Rightarrow> w | Some pid \<Rightarrow> drop_protocol st k ent pid w)"

definition unbind_token :: "'d data_store \<Rightarrow> nat \<Rightarrow> ('d, 'n, 't) broker \<Rightarrow> ('d, 'n, 't) broker" where
  "unbind_token st token w = w\<lparr>b_store := Unbind st token (b_store w), bound := remove1 token (bound w)\<rparr>"

definition teardown ::
  "'d data_store \<Rightarrow> ('n, 't) transport_kit \<Rightarrow> string list \<Rightarrow> ('d, 'n, 't) broker \<Rightarrow> ('d, 'n, 't) broker" where
  "teardown st k ids w =
     (let w = close_all st k ids w
      in (fold (unbind_token st) (tokens w) w)\<lparr>tokens := []\<rparr>)"

definition map_keys :: "('d, 'n, 't) broker \<Rightarrow> string list \<Rightarrow> bool" where
  "map_keys w ids \<longleftrightarrow> distinct ids \<and> set ids = {ent. protocol_of w ent \<noteq> None}"

subsection \<open>The tasks\<close>

definition subscribe_topic ::
  "'d data_store \<Rightarrow> string \<Rightarrow> nat \<Rightarrow> string \<Rightarrow> ('d, 'n, 't) broker \<Rightarrow> ('d, 'n, 't) broker" where
  "subscribe_topic st ent pid topicEntity w =
     (let topic = ReadString st topicEntity ''Topic'' (b_store w);
          transportReference = ReadEntityReference st topicEntity ''TransportReference'' (b_store w)
      in if transportReference \<noteq> ent then w
         else
           let h = \<lparr>dyn = MessageRxHandlerFunc, ident = length (closures w)\<rparr>; a = agents w ! pid; s = ag_session a
           in w\<lparr>agents := (agents w)[pid := a\<lparr>ag_session := s\<lparr>proto := protocol_Subscribe topic h (proto s)\<rparr>\<rparr>],
                closures := closures w @ [topicEntity]\<rparr>)"

definition new_agent :: "string \<Rightarrow> nat \<Rightarrow> bool \<Rightarrow> agent" where
  "new_agent ent tid ctx_is_done =
     \<lparr>ag_entity = ent, ag_session = StartReceiving
        (NewProtocol tid None (Some \<lparr>OnMessageRxFunc = True, OnMessageTxFunc = True\<rparr>)) ctx_is_done\<rparr>"

definition connect_task ::
  "'d data_store \<Rightarrow> string \<Rightarrow> nat \<Rightarrow> ('d, 'n, 't) broker \<Rightarrow> ('d, 'n, 't) broker go" where
  "connect_task st ent tid w =
     (if \<not> isLeader w then Ret w
      else
        let w = write_bool st ent ''IsConnected'' True w in
        case protocolsByEntity w of
          None \<Rightarrow> Panic
        | Some m \<Rightarrow>
            let pid = length (agents w);
                w = w\<lparr>protocolsByEntity := Some (m(ent := Some pid)), agents := agents w @ [new_agent ent tid (b_done w)]\<rparr>
            in Ret (fold (subscribe_topic st ent pid) (Execute st ''QdpTopic'' (b_store w)) w))"

definition disconnect_task ::
  "'d data_store \<Rightarrow> ('n, 't) transport_kit \<Rightarrow> string \<Rightarrow> ('d, 'n, 't) broker \<Rightarrow> ('d, 'n, 't) broker" where
  "disconnect_task st k ent w =
     (if \<not> isLeader w then w
      else
        let w = write_bool st ent ''IsConnected'' False w
        in case protocol_of w ent of None \<Rightarrow> w | Some pid \<Rightarrow> drop_protocol st k ent pid w)"

text \<open>The counters.\<close>

definition count_task :: "'d data_store \<Rightarrow> string \<Rightarrow> string \<Rightarrow> ('d, 'n, 't) broker \<Rightarrow> ('d, 'n, 't) broker" where
  "count_task st ent field w =
     (if \<not> isLeader w then w
      else w\<lparr>b_store := WriteInt st ent field (ReadInt st ent field (b_store w) + 1) (b_store w)\<rparr>)"

fun run_task ::
  "'d data_store \<Rightarrow> ('n, 't) transport_kit \<Rightarrow> task \<Rightarrow> ('d, 'n, 't) broker \<Rightarrow> ('d, 'n, 't) broker go" where
  "run_task st k (ConnectTask ent tid) w = connect_task st ent tid w"
| "run_task st k (DisconnectTask ent tid err) w = Ret (disconnect_task st k ent w)"
| "run_task st k (RxTask ent msg) w = Ret (count_task st ent ''TotalReceived'' w)"
| "run_task st k (TxTask ent msg) w = Ret (count_task st ent ''TotalSent'' w)"

subsection \<open>The handlers\<close>

definition OnBecameLeader ::
  "'d data_store \<Rightarrow> ('n, 't) transport_kit \<Rightarrow> string list \<Rightarrow> ('d, 'n, 't) broker \<Rightarrow> ('d, 'n, 't) broker" where
  "OnBecameLeader st k ids w = setup_broker st k (teardown st k ids (w\<lparr>isLeader := True\<rparr>))"

definition OnLosingLeadership ::
  "'d data_store \<Rightarrow> ('n, 't) transport_kit \<Rightarrow> string list \<Rightarrow> ('d, 'n, 't) broker \<Rightarrow> ('d, 'n, 't) broker" where
  "OnLosingLeadership st k ids w = teardown st k ids (w\<lparr>isLeader := False\<rparr>)"

definition OnSchemaUpdated ::
  "'d data_store \<Rightarrow> ('n, 't) transport_kit \<Rightarrow> string list \<Rightarrow> ('d, 'n, 't) broker \<Rightarrow> ('d, 'n, 't) broker" where
  "OnSchemaUpdated st k ids w = (if \<not> isLeader w then w else setup_broker st k (teardown st k ids w))"

text \<open>\<open>w.cancel()\<close> also ends the contexts that \<open>StartReceiving\<close> derived from it.\<close>

definition cancel_broker :: "('d, 'n, 't) broker \<Rightarrow> ('d, 'n, 't) broker" where
  "cancel_broker w =
     w\<lparr>b_done := True, agents := map (\<lambda>a. a\<lparr>ag_session := (ag_session a)\<lparr>ctx_done := True\<rparr>\<rparr>) (agents w)\<rparr>"

definition Deinit ::
  "'d data_store \<Rightarrow> ('n, 't) transport_kit \<Rightarrow> string list \<Rightarrow> ('d, 'n, 't) broker \<Rightarrow> ('d, 'n, 't) broker" where
  "Deinit st k ids w = teardown st k ids (cancel_broker w)"

definition onTcpTransportIsEnabledChanged ::
  "'d data_store \<Rightarrow> ('n, 't) transport_kit \<Rightarrow> string \<Rightarrow> bool \<Rightarrow> ('d, 'n, 't) broker \<Rightarrow> ('d, 'n, 't) broker" where
  "onTcpTransportIsEnabledChanged st k ent isEnabled w =
     (let existingProtocol = protocol_of w ent in
      if \<not> isEnabled \<and> existingProtocol \<noteq> None then drop_protocol st k ent (the existingProtocol) w
      else if isEnabled \<and> existingProtocol \<noteq> None then w
      else if isEnabled then setupTcpTransport st k ent w
      else w)"

definition onFtdiTransportIsEnabledChanged ::
  "'d data_store \<Rightarrow> ('n, 't) transport_kit \<Rightarrow> string \<Rightarrow> bool \<Rightarrow> ('d, 'n, 't) broker \<Rightarrow> ('d, 'n, 't) broker" where
  "onFtdiTransportIsEnabledChanged st k ent isEnabled w =
     (let existingProtocol = protocol_of w ent in
      if \<not> isEnabled \<and> existingProtocol \<noteq> None then drop_protocol st k ent (the existingProtocol) w
      else if isEnabled \<and> existingProtocol \<noteq> None then w
      else if isEnabled then setupFtdiTransport st k ent w
      else w)"

definition onTxMessage ::
  "'d data_store \<Rightarrow> ('n, 't) transport_kit \<Rightarrow> string \<Rightarrow> string \<Rightarrow> string \<Rightarrow> ('d, 'n, 't) broker
     \<Rightarrow> ('d, 'n, 't) broker go" where
  "onTxMessage st k txMessage topic transportEntity w =
     (case protocol_of w transportEntity of
        None \<Rightarrow> Ret w
      | Some pid \<Rightarrow>
          let s = load_session pid w
          in go_bind (SendMessage (kit_write k) (proto s) \<lparr>Topic = topic, Payload = string_bytes txMessage\<rparr>)
               (\<lambda>(err, p). Ret (store_session st k pid (s\<lparr>proto := p\<rparr>) w)))"

subsection \<open>Runs\<close>

datatype broker_event =
    BecomeLeader | LoseLeadership | SchemaUpdated | Shutdown
  | TcpIsEnabled string bool | FtdiIsEnabled string bool | TxRequest string string string
  | RunTask nat        \<comment> \<open>the main thread runs a queued task\<close>
  | AgentStep nat      \<comment> \<open>a goroutine of a protocol\<close>
  | TransportStep nat  \<comment> \<open>a goroutine of a transport\<close>
  | Outside            \<comment> \<open>the store, the network and the USB devices change\<close>

inductive broker_step ::
  "'d data_store \<Rightarrow> ('n, 't) transport_kit \<Rightarrow> ('d, 'n, 't) broker \<Rightarrow> broker_event \<Rightarrow> ('d, 'n, 't) broker \<Rightarrow> bool"
  for st k where
  became_leader: "map_keys w ids \<Longrightarrow> broker_step st k w BecomeLeader (OnBecameLeader st k ids w)"
| losing_leadership: "map_keys w ids \<Longrightarrow> broker_step st k w LoseLeadership (OnLosingLeadership st k ids w)"
| schema_updated: "map_keys w ids \<Longrightarrow> broker_step st k w SchemaUpdated (OnSchemaUpdated st k ids w)"
| deinit: "map_keys w ids \<Longrightarrow> broker_step st k w Shutdown (Deinit st k ids w)"
| tcp_enabled: "broker_step st k w (TcpIsEnabled ent b) (onTcpTransportIsEnabledChanged st k ent b w)"
| ftdi_enabled: "broker_step st k w (FtdiIsEnabled ent b) (onFtdiTransportIsEnabledChanged st k ent b w)"
| tx_message: "onTxMessage st k payload topic ent w = Ret w' \<Longrightarrow> broker_step st k w (TxRequest payload topic ent) w'"
| run_queued: "i < length (queue w) \<Longrightarrow>
    run_task st k (queue w ! i) (w\<lparr>queue := take i (queue w) @ drop (Suc i) (queue w)\<rparr>) = Ret w' \<Longrightarrow>
    broker_step st k w (RunTask i) w'"
| agent_step: "pid < length (agents w) \<Longrightarrow> e \<in> {Recv, Proc} \<Longrightarrow>
    session_step (kit_read k) (kit_write k) (kit_close k) (load_session pid w) e s' \<Longrightarrow>
    broker_step st k w (AgentStep pid) (store_session st k pid s' w)"
| transport_step: "tid < length (transports w) \<Longrightarrow> broker_step st k w (TransportStep tid) (put_transport k tid t w)"
| outside: "broker_step st k w Outside (w\<lparr>b_store := d, b_net := n\<rparr>)"

inductive broker_run ::
  "'d data_store \<Rightarrow> ('n, 't) transport_kit \<Rightarrow> ('d, 'n, 't) broker \<Rightarrow> broker_event list \<Rightarrow> ('d, 'n, 't) broker \<Rightarrow> bool"
  for st k where
  broker_run_nil: "broker_run st k w [] w"
| broker_run_cons: "broker_step st k w e w' \<Longrightarrow> broker_run st k w' es w'' \<Longrightarrow> broker_run st k w (e # es) w''"

inductive_simps broker_run_simps [simp]:
  "broker_run st k w [] w'"
  "broker_run st k w (e # es) w'"

lemma broker_run_append:
  "broker_run st k w (es @ es') w' \<longleftrightarrow> (\<exists>v. broker_run st k w es v \<and> broker_run st k v es' w')"
  by (induction es arbitrary: w) auto

section \<open>What the parts change\<close>

text \<open>A task that connects refers to a transport of its entity.\<close>

fun task_ok :: "string list \<Rightarrow> task \<Rightarrow> bool" where
  "task_ok ents (ConnectTask ent tid) = (tid < length ents \<and> ents ! tid = ent)"
| "task_ok ents q = True"

definition agent_ok :: "string list \<Rightarrow> nat \<Rightarrow> agent \<Rightarrow> bool" where
  "agent_ok ents n a \<longleftrightarrow>
     (let p = proto (ag_session a)
      in transport p < length ents \<and> ents ! transport p = ag_entity a \<and>
         msgHandler p = \<lparr>OnMessageRxFunc = True, OnMessageTxFunc = True\<rparr> \<and>
         (\<forall>sub \<in> set (subscribers p). ident (sub_handler sub) < n))"

definition entities :: "('d, 'n, 't) broker \<Rightarrow> string list" where
  "entities w = map fst (transports w)"

lemma length_entities [simp]: "length (entities w) = length (transports w)"
  by (simp add: entities_def)

text \<open>The objects are well-formed: every number that a protocol, a subscription handler or a task holds is
  the number of an object.\<close>

definition heap_ok :: "('d, 'n, 't) broker \<Rightarrow> bool" where
  "heap_ok w \<longleftrightarrow>
     (\<forall>a \<in> set (agents w). agent_ok (entities w) (length (closures w)) a) \<and>
     (\<forall>q \<in> set (queue w). task_ok (entities w) q)"

text \<open>The fields that calls on transports and protocols do not touch.\<close>

definition same_control :: "('d, 'n, 't) broker \<Rightarrow> ('d, 'n, 't) broker \<Rightarrow> bool" where
  "same_control w w' \<longleftrightarrow>
     isLeader w' = isLeader w \<and> b_done w' = b_done w \<and> protocolsByEntity w' = protocolsByEntity w \<and>
     tokens w' = tokens w \<and> bound w' = bound w"

lemma same_control_refl [simp]: "same_control w w"
  by (simp add: same_control_def)

lemma same_control_trans: "same_control w w' \<Longrightarrow> same_control w' w'' \<Longrightarrow> same_control w w''"
  by (simp add: same_control_def)

lemma same_control_protocol_of: "same_control w w' \<Longrightarrow> protocol_of w' = protocol_of w"
  by (auto simp: same_control_def protocol_of_def)

lemma task_ok_append: "task_ok ents q \<Longrightarrow> task_ok (ents @ ents2) q"
  by (cases q) (auto simp: nth_append)

lemma agent_ok_mono: "agent_ok ents n a \<Longrightarrow> n \<le> n' \<Longrightarrow> agent_ok (ents @ ents2) n' a"
  by (auto simp: agent_ok_def Let_def nth_append)

lemma task_ok_connection: "tid < length ents \<Longrightarrow> ents ! tid = ent \<Longrightarrow> task_ok ents (connection_task ent tid e)"
  by (cases e) auto

lemma put_transport_sel:
  assumes "tid < length (transports w)"
  shows "entities (put_transport k tid t w) = entities w"
    and "agents (put_transport k tid t w) = agents w" "closures (put_transport k tid t w) = closures w"
    and "same_control w (put_transport k tid t w)" "b_store (put_transport k tid t w) = b_store w"
    and "\<exists>es. queue (put_transport k tid t w) = queue w @ map (connection_task (entities w ! tid) tid) es"
  using assms
  by (auto simp: put_transport_def entities_def same_control_def split_beta Let_def map_update
      list_update_same_conv)

lemma put_transport_heap:
  assumes "heap_ok w" "tid < length (transports w)"
  shows "heap_ok (put_transport k tid t w)"
proof -
  obtain es where "queue (put_transport k tid t w) = queue w @ map (connection_task (entities w ! tid) tid) es"
    using put_transport_sel(6) [OF assms(2)] by blast
  with assms show ?thesis
    by (auto simp: heap_ok_def put_transport_sel(1-3) intro!: task_ok_connection)
qed

lemma register_heap: "heap_ok w \<Longrightarrow> heap_ok (register k ent t w)"
  by (auto simp: heap_ok_def register_def entities_def nth_append
      intro: agent_ok_mono task_ok_append intro!: task_ok_connection)

lemma register_control: "same_control w (register k ent t w)"
  by (simp add: register_def same_control_def)

lemma perform_fold:
  "\<exists>q d. fold (perform st ent) cs w = w\<lparr>queue := queue w @ q, b_store := d\<rparr> \<and> (\<forall>x \<in> set q. \<forall>ents. task_ok ents x)"
proof (induction cs arbitrary: w)
  case Nil
  then show ?case
    by (auto intro!: exI [of _ "[]"] exI [of _ "b_store w"])
next
  case (Cons c cs)
  show ?case
  proof (cases c)
    case (HandlerRx m)
    then show ?thesis
      using Cons [of "w\<lparr>queue := queue w @ [RxTask ent m]\<rparr>"] by (auto 4 3 intro: exI [of _ "RxTask ent m # _"])
  next
    case (HandlerTx m)
    then show ?thesis
      using Cons [of "w\<lparr>queue := queue w @ [TxTask ent m]\<rparr>"] by (auto 4 3 intro: exI [of _ "TxTask ent m # _"])
  next
    case (Deliver h m)
    then show ?thesis
      using Cons [of "perform st ent c w"] by (auto simp: Let_def)
  qed
qed

text \<open>A protocol that a call has changed is stored again, its subscriptions unchanged.\<close>

definition stored_agent :: "agent \<Rightarrow> 't session \<Rightarrow> agent" where
  "stored_agent a s' = a\<lparr>ag_session := with_protocol (with_transport (transport (proto (ag_session a))) (proto s')) s'\<rparr>"

lemma stored_agent_sel [simp]:
  "ag_entity (stored_agent a s') = ag_entity a"
  "transport (proto (ag_session (stored_agent a s'))) = transport (proto (ag_session a))"
  "subscribers (proto (ag_session (stored_agent a s'))) = subscribers (proto s')"
  "own_ctx_done (proto (ag_session (stored_agent a s'))) = own_ctx_done (proto s')"
  "msgHandler (proto (ag_session (stored_agent a s'))) = msgHandler (proto s')"
  by (simp_all add: stored_agent_def with_protocol_def with_transport_def)

lemma heap_ok_agent:
  assumes "heap_ok w" "pid < length (agents w)"
  shows "transport (proto (ag_session (agents w ! pid))) < length (transports w)"
  using assms by (auto simp: heap_ok_def agent_ok_def Let_def dest!: nth_mem)

lemma store_session_effect:
  assumes "heap_ok w" "pid < length (agents w)" "subscribers (proto s') = subscribers (proto (ag_session (agents w ! pid)))"
    "msgHandler (proto s') = msgHandler (proto (ag_session (agents w ! pid)))"
  shows "heap_ok (store_session st k pid s' w)" "same_control w (store_session st k pid s' w)"
    "agents (store_session st k pid s' w) = (agents w)[pid := stored_agent (agents w ! pid) s']"
    "length (transports (store_session st k pid s' w)) = length (transports w)"
proof -
  let ?a = "agents w ! pid"
  let ?w1 = "put_transport k (transport (proto (ag_session ?a))) (transport (proto s')) w"
  let ?w2 = "?w1\<lparr>agents := (agents w)[pid := stored_agent ?a s']\<rparr>"
  note tid = heap_ok_agent [OF assms(1,2)]
  note put = put_transport_sel [OF tid] put_transport_heap [OF assms(1) tid]
  have ok: "agent_ok (entities w) (length (closures w)) (stored_agent ?a s')"
    using assms by (auto simp: heap_ok_def agent_ok_def Let_def)
  have h2: "heap_ok ?w2"
    using put(7) [of k "transport (proto s')"] ok put(1-3) [of k "transport (proto s')"] assms(1,2)
    by (auto simp: heap_ok_def entities_def dest!: set_update_subset_insert [THEN subsetD])
  obtain q d where w': "store_session st k pid s' w = ?w2\<lparr>queue := queue ?w2 @ q, b_store := d\<rparr>"
    and q: "\<forall>x \<in> set q. \<forall>ents. task_ok ents x"
    using perform_fold [of st "ag_entity ?a" "drop (length (calls (proto (ag_session ?a)))) (calls (proto s'))" ?w2] put(2)
    by (auto simp: store_session_def stored_agent_def Let_def)
  show "heap_ok (store_session st k pid s' w)"
    unfolding w' using h2 q by (auto simp: heap_ok_def entities_def)
  show "same_control w (store_session st k pid s' w)"
    unfolding w' using put(4) [of k "transport (proto s')"] by (simp add: same_control_def)
  show "agents (store_session st k pid s' w) = (agents w)[pid := stored_agent ?a s']"
    unfolding w' by simp
  show "length (transports (store_session st k pid s' w)) = length (transports w)"
    unfolding w' using put(1) [of k "transport (proto s')"] by (simp flip: length_entities)
qed

section \<open>The map of protocols\<close>

text \<open>An entry of the map is an open protocol of its entity.\<close>

definition links_ok :: "('d, 'n, 't) broker \<Rightarrow> bool" where
  "links_ok w \<longleftrightarrow>
     (\<forall>ent pid. protocol_of w ent = Some pid \<longrightarrow>
        pid < length (agents w) \<and> ag_entity (agents w ! pid) = ent \<and> \<not> own_ctx_done (proto (ag_session (agents w ! pid))))"

lemma links_okD:
  "links_ok w \<Longrightarrow> protocol_of w ent = Some pid \<Longrightarrow>
   pid < length (agents w) \<and> ag_entity (agents w ! pid) = ent \<and> \<not> own_ctx_done (proto (ag_session (agents w ! pid)))"
  by (simp add: links_ok_def)

lemma links_ok_agents:
  "links_ok w \<Longrightarrow> protocol_of w' = protocol_of w \<Longrightarrow> agents w' = agents w @ as \<Longrightarrow> links_ok w'"
  by (fastforce simp: links_ok_def nth_append)

lemma load_session_sel [simp]:
  "subscribers (proto (load_session pid w)) = subscribers (proto (ag_session (agents w ! pid)))"
  "own_ctx_done (proto (load_session pid w)) = own_ctx_done (proto (ag_session (agents w ! pid)))"
  "msgHandler (proto (load_session pid w)) = msgHandler (proto (ag_session (agents w ! pid)))"
  "calls (proto (load_session pid w)) = calls (proto (ag_session (agents w ! pid)))"
  "transport (proto (load_session pid w)) = snd (transports w ! transport (proto (ag_session (agents w ! pid))))"
  by (simp_all add: load_session_def with_protocol_def with_transport_def Let_def)

lemma store_session_links:
  assumes "links_ok w" "heap_ok w" "pid < length (agents w)"
    "subscribers (proto s') = subscribers (proto (load_session pid w))"
    "msgHandler (proto s') = msgHandler (proto (load_session pid w))"
    "own_ctx_done (proto s') = own_ctx_done (proto (load_session pid w))"
  shows "links_ok (store_session st k pid s' w)"
  using assms store_session_effect [of w pid s' st k]
  by (auto simp: links_ok_def same_control_protocol_of nth_list_update)

lemma close_protocol_effect:
  assumes "heap_ok w" "pid < length (agents w)"
  shows "heap_ok (close_protocol st k pid w)" "same_control w (close_protocol st k pid w)"
    "length (agents (close_protocol st k pid w)) = length (agents w)"
    "length (transports (close_protocol st k pid w)) = length (transports w)"
    "own_ctx_done (proto (ag_session (agents (close_protocol st k pid w) ! pid)))"
    "n \<noteq> pid \<Longrightarrow> agents (close_protocol st k pid w) ! n = agents w ! n"
    "n < length (agents w) \<Longrightarrow> ag_entity (agents (close_protocol st k pid w) ! n) = ag_entity (agents w ! n)"
  using assms
  by (auto simp: close_protocol_def protocol_Close_def split_beta Let_def store_session_effect nth_list_update)

lemma forget_sel [simp]:
  "protocol_of (forget ent w) = (protocol_of w)(ent := None)" "heap_ok (forget ent w) = heap_ok w"
  "agents (forget ent w) = agents w" "isLeader (forget ent w) = isLeader w" "b_done (forget ent w) = b_done w"
  "tokens (forget ent w) = tokens w" "bound (forget ent w) = bound w" "transports (forget ent w) = transports w"
  "(protocolsByEntity (forget ent w) = None) = (protocolsByEntity w = None)"
  by (auto simp: forget_def protocol_of_def heap_ok_def entities_def split: option.splits)

text \<open>The fields that closing protocols does not touch.\<close>

definition same_roles :: "('d, 'n, 't) broker \<Rightarrow> ('d, 'n, 't) broker \<Rightarrow> bool" where
  "same_roles w w' \<longleftrightarrow>
     isLeader w' = isLeader w \<and> b_done w' = b_done w \<and> tokens w' = tokens w \<and> bound w' = bound w \<and>
     (protocolsByEntity w' = None) = (protocolsByEntity w = None) \<and> length (agents w') = length (agents w)"

lemma drop_protocol_effect:
  assumes "heap_ok w" "links_ok w" "protocol_of w ent = Some pid"
  shows "heap_ok (drop_protocol st k ent pid w)" "links_ok (drop_protocol st k ent pid w)"
    "protocol_of (drop_protocol st k ent pid w) = (protocol_of w)(ent := None)"
    "same_roles w (drop_protocol st k ent pid w)"
proof -
  note pid = links_okD [OF assms(2,3)]
  note close = close_protocol_effect [OF assms(1) conjunct1 [OF pid], where st = st and k = k]
  have of_eq: "protocol_of (close_protocol st k pid w) = protocol_of w"
    using close(2) pid same_control_protocol_of by blast
  show "heap_ok (drop_protocol st k ent pid w)"
    using close(1) pid by (simp add: drop_protocol_def)
  show "protocol_of (drop_protocol st k ent pid w) = (protocol_of w)(ent := None)"
    by (simp add: drop_protocol_def of_eq)
  show "same_roles w (drop_protocol st k ent pid w)"
    using close(2,3) pid by (auto simp: same_roles_def same_control_def drop_protocol_def)
  have "n \<noteq> pid" if "protocol_of w ent' = Some n" "ent' \<noteq> ent" for ent' n
    using links_okD [OF assms(2) that(1)] pid that(2) by auto
  then show "links_ok (drop_protocol st k ent pid w)"
    using assms(2) close pid by (auto simp: links_ok_def drop_protocol_def of_eq)
qed

lemma close_all_effect:
  assumes "heap_ok w" "links_ok w"
  shows "heap_ok (close_all st k ids w) \<and> links_ok (close_all st k ids w) \<and> same_roles w (close_all st k ids w) \<and>
    protocol_of (close_all st k ids w) = (\<lambda>ent. if ent \<in> set ids then None else protocol_of w ent)"
  using assms
proof (induction ids arbitrary: w)
  case (Cons ent ids)
  show ?case
  proof (cases "protocol_of w ent")
    case None
    then show ?thesis
      using Cons by (auto simp: fun_eq_iff)
  next
    case (Some pid)
    note drop = drop_protocol_effect [OF Cons.prems Some, of st k]
    show ?thesis
      using Cons.IH [OF drop(1,2)] drop(3,4) Some by (auto simp: same_roles_def fun_eq_iff)
  qed
qed (simp add: same_roles_def)

section \<open>The invariant\<close>

definition broker_ok :: "('d, 'n, 't) broker \<Rightarrow> bool" where
  "broker_ok w \<longleftrightarrow>
     protocolsByEntity w \<noteq> None \<and> heap_ok w \<and> links_ok w \<and> bound w = tokens w \<and>
     (if isLeader w then length (tokens w) = 4 \<or> b_done w \<and> tokens w = []
      else tokens w = [] \<and> (\<forall>ent. protocol_of w ent = None))"

lemma unbind_fold:
  "\<exists>d. fold (unbind_token st) ts w = w\<lparr>b_store := d, bound := fold remove1 ts (bound w)\<rparr>"
proof (induction ts arbitrary: w)
  case Nil
  then show ?case
    by (auto intro: exI [of _ "b_store w"])
next
  case (Cons token ts)
  then show ?case
    using Cons [of "unbind_token st token w"] by (auto simp: unbind_token_def)
qed

lemma fold_remove1_self: "fold remove1 ts ts = []"
  by (induction ts) auto

lemma teardown_effect:
  assumes "heap_ok w" "links_ok w" "map_keys w ids" "bound w = tokens w"
  shows "heap_ok (teardown st k ids w)" "protocol_of (teardown st k ids w) = (\<lambda>_. None)"
    "tokens (teardown st k ids w) = []" "bound (teardown st k ids w) = []"
    "isLeader (teardown st k ids w) = isLeader w" "b_done (teardown st k ids w) = b_done w"
    "(protocolsByEntity (teardown st k ids w) = None) = (protocolsByEntity w = None)"
    "length (agents (teardown st k ids w)) = length (agents w)"
proof -
  let ?w = "close_all st k ids w"
  obtain d where t: "teardown st k ids w = ?w\<lparr>b_store := d, bound := fold remove1 (tokens ?w) (bound ?w), tokens := []\<rparr>"
    using unbind_fold [of st "tokens ?w" ?w] by (auto simp: teardown_def Let_def)
  have c: "heap_ok ?w" "same_roles w ?w" "protocol_of ?w = (\<lambda>_. None)"
    using close_all_effect [OF assms(1,2), of st k ids] assms(3) by (auto simp: map_keys_def fun_eq_iff)
  show "protocol_of (teardown st k ids w) = (\<lambda>_. None)"
    using c(3) by (simp add: t protocol_of_def [abs_def])
  show "heap_ok (teardown st k ids w)"
    using c(1) by (simp add: t heap_ok_def entities_def)
  show "bound (teardown st k ids w) = []"
    using c(2) assms(4) by (simp add: t same_roles_def fold_remove1_self)
  show "tokens (teardown st k ids w) = []" "isLeader (teardown st k ids w) = isLeader w"
    "b_done (teardown st k ids w) = b_done w" "length (agents (teardown st k ids w)) = length (agents w)"
    "(protocolsByEntity (teardown st k ids w) = None) = (protocolsByEntity w = None)"
    using c(2) by (simp_all add: t same_roles_def)
qed

text \<open>Setting up a transport creates no protocol yet.\<close>

definition adds_transports :: "('d, 'n, 't) broker \<Rightarrow> ('d, 'n, 't) broker \<Rightarrow> bool" where
  "adds_transports w w' \<longleftrightarrow>
     (heap_ok w \<longrightarrow> heap_ok w') \<and> same_control w w' \<and> agents w' = agents w \<and> closures w' = closures w"

lemma adds_transports_trans: "adds_transports w w' \<Longrightarrow> adds_transports w' w'' \<Longrightarrow> adds_transports w w''"
  using same_control_trans by (auto simp: adds_transports_def)

lemma open_transport_adds: "adds_transports w (open_transport k ent constructor w)"
proof -
  have "heap_ok w \<Longrightarrow> heap_ok (register k ent t (w\<lparr>b_net := n\<rparr>))" for t n
    by (rule register_heap) (simp add: heap_ok_def entities_def)
  then show ?thesis
    by (auto simp: adds_transports_def open_transport_def split_beta Let_def heap_ok_def entities_def same_control_def
        register_def split: sum.splits)
qed

lemma write_bool_sel [simp]:
  "heap_ok (write_bool st ent f b w) = heap_ok w" "same_control w (write_bool st ent f b w)"
  "agents (write_bool st ent f b w) = agents w" "closures (write_bool st ent f b w) = closures w"
  "protocol_of (write_bool st ent f b w) = protocol_of w" "links_ok (write_bool st ent f b w) = links_ok w"
  "isLeader (write_bool st ent f b w) = isLeader w" "b_done (write_bool st ent f b w) = b_done w"
  "protocolsByEntity (write_bool st ent f b w) = protocolsByEntity w" "tokens (write_bool st ent f b w) = tokens w"
  "bound (write_bool st ent f b w) = bound w" "transports (write_bool st ent f b w) = transports w"
  "queue (write_bool st ent f b w) = queue w"
  by (auto simp: write_bool_def heap_ok_def entities_def same_control_def protocol_of_def links_ok_def)

lemma write_bool_adds: "adds_transports w (write_bool st ent f b w)"
  by (simp add: adds_transports_def)

lemma setupTcpTransport_adds: "adds_transports w (setupTcpTransport st k ent w)"
  by (simp add: setupTcpTransport_def Let_def write_bool_adds adds_transports_trans [OF write_bool_adds open_transport_adds])

lemma setupFtdiTransport_adds: "adds_transports w (setupFtdiTransport st k ent w)"
  by (simp add: setupFtdiTransport_def Let_def write_bool_adds adds_transports_trans [OF write_bool_adds open_transport_adds])

lemma adds_transports_fold:
  assumes "\<And>ent w. adds_transports w (f ent w)"
  shows "adds_transports w (fold f ents w)"
proof (induction ents arbitrary: w)
  case (Cons ent ents)
  show ?case
    using adds_transports_trans [OF assms Cons] by simp
qed (simp add: adds_transports_def)

lemma adds_transports_ok: "broker_ok w \<Longrightarrow> adds_transports w w' \<Longrightarrow> broker_ok w'"
  by (auto simp: broker_ok_def adds_transports_def same_control_def links_ok_def protocol_of_def)

lemma setup_broker_ok:
  assumes "protocolsByEntity w \<noteq> None" "heap_ok w" "isLeader w" "tokens w = []" "bound w = []" "protocol_of w = (\<lambda>_. None)"
  shows "broker_ok (setup_broker st k w)"
proof -
  let ?w = "fold (add_token st) notify_configs w"
  have "protocolsByEntity w = Some (\<lambda>_. None)"
    using assms(1,6) by (auto simp: protocol_of_def [abs_def])
  then have "broker_ok ?w"
    using assms(2-5)
    by (auto simp: notify_configs_def add_token_def split_beta Let_def broker_ok_def heap_ok_def entities_def links_ok_def
        protocol_of_def)
  then show ?thesis
    unfolding setup_broker_def Let_def
    by (blast intro: adds_transports_ok adds_transports_fold setupTcpTransport_adds setupFtdiTransport_adds)
qed

subsection \<open>Every step keeps it\<close>

text \<open>Steps that leave the roles alone and keep the objects and the map well-formed.\<close>

lemma broker_ok_control:
  "broker_ok w \<Longrightarrow> heap_ok w' \<Longrightarrow> links_ok w' \<Longrightarrow> same_control w w' \<Longrightarrow> broker_ok w'"
  by (auto simp: broker_ok_def same_control_def protocol_of_def)

lemma broker_ok_drop:
  assumes "broker_ok w" "protocol_of w ent = Some pid"
  shows "broker_ok (drop_protocol st k ent pid w)"
  using assms drop_protocol_effect [of w ent pid st k] by (auto simp: broker_ok_def same_roles_def)

lemma broker_ok_store [simp]: "broker_ok (w\<lparr>b_store := d\<rparr>) = broker_ok w" "broker_ok (w\<lparr>b_net := n\<rparr>) = broker_ok w"
  by (simp_all add: broker_ok_def heap_ok_def entities_def links_ok_def protocol_of_def)

lemma write_bool_ok: "broker_ok (write_bool st ent f b w) = broker_ok w"
  by (simp add: write_bool_def)

lemma broker_ok_links: "broker_ok w \<Longrightarrow> protocol_of w ent = Some pid \<Longrightarrow> pid < length (agents w)"
  by (simp add: broker_ok_def links_ok_def)

lemma broker_ok_dequeue: "broker_ok w \<Longrightarrow> set q \<subseteq> set (queue w) \<Longrightarrow> broker_ok (w\<lparr>queue := q\<rparr>)"
  by (auto simp: broker_ok_def heap_ok_def entities_def links_ok_def protocol_of_def)

lemma subscribe_topic_effect:
  assumes "heap_ok w" "links_ok w" "pid < length (agents w)"
  shows "heap_ok (subscribe_topic st ent pid topic w)" "links_ok (subscribe_topic st ent pid topic w)"
    "same_control w (subscribe_topic st ent pid topic w)"
    "length (agents (subscribe_topic st ent pid topic w)) = length (agents w)"
proof -
  let ?w = "subscribe_topic st ent pid topic w"
  have grow: "agent_ok (entities w) (Suc (length (closures w))) a" if "a \<in> set (agents w)" for a
    using assms(1) that agent_ok_mono [of "entities w" "length (closures w)" a "Suc (length (closures w))" "[]"]
    by (auto simp: heap_ok_def)
  show "heap_ok ?w"
    using assms(1) grow grow [OF nth_mem [OF assms(3)]]
    by (auto simp: subscribe_topic_def Let_def heap_ok_def entities_def agent_ok_def protocol_Subscribe_def Subscribe_def
        dest!: set_update_subset_insert [THEN subsetD])
  show "links_ok ?w" "same_control w ?w" "length (agents ?w) = length (agents w)"
    using assms(2,3)
    by (auto simp: subscribe_topic_def Let_def links_ok_def same_control_def protocol_of_def protocol_Subscribe_def
        nth_list_update)
qed

lemma subscribe_topics_effect:
  assumes "heap_ok w" "links_ok w" "pid < length (agents w)"
  shows "heap_ok (fold (subscribe_topic st ent pid) topics w) \<and> links_ok (fold (subscribe_topic st ent pid) topics w) \<and>
    same_control w (fold (subscribe_topic st ent pid) topics w) \<and>
    length (agents (fold (subscribe_topic st ent pid) topics w)) = length (agents w)"
  using assms
proof (induction topics arbitrary: w)
  case (Cons topic topics)
  note step = subscribe_topic_effect [OF Cons.prems, of st ent topic]
  show ?case
    using Cons.IH [OF step(1,2)] step(3,4) Cons.prems(3) same_control_trans by auto
qed simp

text \<open>The connect task runs to its end: the map is there.\<close>

lemma connect_task_ok:
  assumes "broker_ok w" "task_ok (entities w) (ConnectTask ent tid)"
  shows "\<exists>w'. connect_task st ent tid w = Ret w' \<and> broker_ok w'"
proof (cases "isLeader w")
  case True
  obtain m where m: "protocolsByEntity w = Some m"
    using assms(1) by (auto simp: broker_ok_def)
  let ?w = "(write_bool st ent ''IsConnected'' True w)\<lparr>protocolsByEntity := Some (m(ent := Some (length (agents w)))),
    agents := agents w @ [new_agent ent tid (b_done w)]\<rparr>"
  have "agent_ok (entities w) (length (closures w)) (new_agent ent tid (b_done w))"
    using assms(2) by (simp add: agent_ok_def new_agent_def StartReceiving_def NewProtocol_def NewSubscriptionManager_def)
  then have "heap_ok ?w"
    using assms(1) by (auto simp: broker_ok_def heap_ok_def entities_def)
  moreover have "links_ok ?w"
    using assms(1) m
    by (auto simp: broker_ok_def links_ok_def protocol_of_def nth_append new_agent_def StartReceiving_def NewProtocol_def
        less_Suc_eq)
  ultimately show ?thesis
    using subscribe_topics_effect [of ?w "length (agents w)" st ent "Execute st ''QdpTopic'' (b_store ?w)"] True m assms(1)
    by (auto simp: connect_task_def Let_def broker_ok_def same_control_def)
qed (use assms in \<open>simp add: connect_task_def\<close>)

lemma run_task_ok:
  assumes "broker_ok w" "task_ok (entities w) q"
  shows "\<exists>w'. run_task st k q w = Ret w' \<and> broker_ok w'"
proof (cases q)
  case (DisconnectTask ent tid err)
  then show ?thesis
    using assms
    by (auto simp: disconnect_task_def write_bool_ok Let_def split: option.splits intro!: broker_ok_drop)
next
  case (ConnectTask ent tid)
  then show ?thesis
    using connect_task_ok [OF assms(1), of ent tid st] assms(2) by simp
qed (use assms in \<open>auto simp: count_task_def\<close>)

lemma goroutine_frame:
  assumes "session_step rd wr cl s e s'" "e \<in> {Recv, Proc}"
  shows "subscribers (proto s') = subscribers (proto s) \<and> own_ctx_done (proto s') = own_ctx_done (proto s) \<and>
    msgHandler (proto s') = msgHandler (proto s)"
  using assms by cases (auto simp: recv_return_def handleMessage_def Let_def dest!: ReceiveMessage_frame)

lemma store_session_ok:
  assumes "broker_ok w" "pid < length (agents w)"
    "subscribers (proto s') = subscribers (proto (load_session pid w))"
    "msgHandler (proto s') = msgHandler (proto (load_session pid w))"
    "own_ctx_done (proto s') = own_ctx_done (proto (load_session pid w))"
  shows "broker_ok (store_session st k pid s' w)"
  using assms store_session_links [of w pid s' st k] store_session_effect [of w pid s' st k]
  by (intro broker_ok_control [OF assms(1)]) (auto simp: broker_ok_def)

lemma onTxMessage_ok:
  assumes "broker_ok w" "onTxMessage st k payload topic ent w = Ret w'"
  shows "broker_ok w'"
  using assms
  by (auto simp: onTxMessage_def go_simps Let_def dest!: SendMessage_frame split: option.splits
      intro!: store_session_ok dest: broker_ok_links)

lemma onTcpTransportIsEnabledChanged_ok: "broker_ok w \<Longrightarrow> broker_ok (onTcpTransportIsEnabledChanged st k ent b w)"
  by (auto simp: onTcpTransportIsEnabledChanged_def Let_def
      intro: broker_ok_drop adds_transports_ok setupTcpTransport_adds)

lemma onFtdiTransportIsEnabledChanged_ok: "broker_ok w \<Longrightarrow> broker_ok (onFtdiTransportIsEnabledChanged st k ent b w)"
  by (auto simp: onFtdiTransportIsEnabledChanged_def Let_def
      intro: broker_ok_drop adds_transports_ok setupFtdiTransport_adds)

lemma teardown_ok:
  assumes "broker_ok w" "map_keys w ids"
  shows "heap_ok (teardown st k ids (w\<lparr>isLeader := b\<rparr>))" "protocol_of (teardown st k ids (w\<lparr>isLeader := b\<rparr>)) = (\<lambda>_. None)"
    "tokens (teardown st k ids (w\<lparr>isLeader := b\<rparr>)) = []" "bound (teardown st k ids (w\<lparr>isLeader := b\<rparr>)) = []"
    "isLeader (teardown st k ids (w\<lparr>isLeader := b\<rparr>)) = b" "protocolsByEntity (teardown st k ids (w\<lparr>isLeader := b\<rparr>)) \<noteq> None"
proof -
  let ?w = "w\<lparr>isLeader := b\<rparr>"
  have "heap_ok ?w" "links_ok ?w" "map_keys ?w ids" "bound ?w = tokens ?w" "protocolsByEntity ?w \<noteq> None"
    using assms by (simp_all add: broker_ok_def heap_ok_def entities_def links_ok_def protocol_of_def map_keys_def)
  note w = this teardown_effect [OF this(1-4), of st k]
  show "heap_ok (teardown st k ids ?w)" "protocol_of (teardown st k ids ?w) = (\<lambda>_. None)"
    "tokens (teardown st k ids ?w) = []" "bound (teardown st k ids ?w) = []"
    "isLeader (teardown st k ids ?w) = b" "protocolsByEntity (teardown st k ids ?w) \<noteq> None"
    using w by simp_all
qed

lemma OnBecameLeader_ok: "broker_ok w \<Longrightarrow> map_keys w ids \<Longrightarrow> broker_ok (OnBecameLeader st k ids w)"
  unfolding OnBecameLeader_def by (rule setup_broker_ok) (use teardown_ok [of w ids st k True] in blast)+

lemma OnSchemaUpdated_ok:
  assumes "broker_ok w" "map_keys w ids"
  shows "broker_ok (OnSchemaUpdated st k ids w)"
proof (cases "isLeader w")
  case True
  then have "w = w\<lparr>isLeader := True\<rparr>"
    by simp
  then have "OnSchemaUpdated st k ids w = OnBecameLeader st k ids w"
    unfolding OnSchemaUpdated_def OnBecameLeader_def using True by (metis (full_types))
  then show ?thesis
    using OnBecameLeader_ok [OF assms] by simp
qed (use assms in \<open>simp add: OnSchemaUpdated_def\<close>)

lemma no_protocols_ok:
  assumes "heap_ok w" "protocol_of w = (\<lambda>_. None)" "tokens w = []" "bound w = []" "protocolsByEntity w \<noteq> None"
    "isLeader w \<longrightarrow> b_done w"
  shows "broker_ok w"
  using assms by (simp add: broker_ok_def links_ok_def)

lemma OnLosingLeadership_ok: "broker_ok w \<Longrightarrow> map_keys w ids \<Longrightarrow> broker_ok (OnLosingLeadership st k ids w)"
  unfolding OnLosingLeadership_def by (rule no_protocols_ok) (use teardown_ok [of w ids st k False] in simp_all)

lemma Deinit_ok:
  assumes "broker_ok w" "map_keys w ids"
  shows "broker_ok (Deinit st k ids w)"
proof -
  have "heap_ok (cancel_broker w)" "links_ok (cancel_broker w)" "map_keys (cancel_broker w) ids"
      "bound (cancel_broker w) = tokens (cancel_broker w)" "protocolsByEntity (cancel_broker w) \<noteq> None"
      "b_done (cancel_broker w)"
    using assms
    by (auto simp: broker_ok_def cancel_broker_def heap_ok_def entities_def agent_ok_def links_ok_def protocol_of_def
        map_keys_def Let_def)
  with teardown_effect [OF this(1-4), of st k] show ?thesis
    unfolding Deinit_def by (intro no_protocols_ok) simp_all
qed

lemma dequeued_ok:
  assumes "broker_ok w" "i < length (queue w)"
  shows "broker_ok (w\<lparr>queue := take i (queue w) @ drop (Suc i) (queue w)\<rparr>)"
    "task_ok (entities (w\<lparr>queue := take i (queue w) @ drop (Suc i) (queue w)\<rparr>)) (queue w ! i)"
proof -
  have "set (take i (queue w) @ drop (Suc i) (queue w)) \<subseteq> set (queue w)"
    using set_take_subset [of i "queue w"] set_drop_subset [of "Suc i" "queue w"] by auto
  then show "broker_ok (w\<lparr>queue := take i (queue w) @ drop (Suc i) (queue w)\<rparr>)"
    using assms(1) broker_ok_dequeue by blast
  show "task_ok (entities (w\<lparr>queue := take i (queue w) @ drop (Suc i) (queue w)\<rparr>)) (queue w ! i)"
    using assms nth_mem [OF assms(2)] by (simp add: broker_ok_def heap_ok_def entities_def)
qed

lemma broker_step_ok: "broker_step st k w e w' \<Longrightarrow> broker_ok w \<Longrightarrow> broker_ok w'"
proof (induction rule: broker_step.induct)
  case (run_queued i w w')
  then show ?case
    using run_task_ok [OF dequeued_ok, of w i st k] by auto
next
  case (agent_step pid w e s')
  then show ?case
    using goroutine_frame [OF agent_step.hyps(3,2)] by (intro store_session_ok) auto
next
  case (transport_step tid w t)
  then have "heap_ok (put_transport k tid t w)"
    using put_transport_heap by (auto simp: broker_ok_def)
  moreover have "links_ok (put_transport k tid t w)"
  proof (rule links_ok_agents [where as = "[]"])
    show "links_ok w"
      using transport_step.prems by (simp add: broker_ok_def)
    show "protocol_of (put_transport k tid t w) = protocol_of w"
      by (rule same_control_protocol_of [OF put_transport_sel(4) [OF transport_step.hyps]])
  qed (simp add: put_transport_sel(2) [OF transport_step.hyps])
  ultimately show ?case
    using broker_ok_control [OF transport_step.prems] put_transport_sel(4) [OF transport_step.hyps] by blast
qed (simp_all add: OnBecameLeader_ok OnLosingLeadership_ok OnSchemaUpdated_ok Deinit_ok onTxMessage_ok
    onTcpTransportIsEnabledChanged_ok onFtdiTransportIsEnabledChanged_ok)

lemma broker_run_ok: "broker_run st k w es w' \<Longrightarrow> broker_ok w \<Longrightarrow> broker_ok w'"
  by (induction rule: broker_run.induct) (auto dest: broker_step_ok)

lemma Init_ok: "broker_ok (Init (NewMessageBroker d n))"
  by (simp add: broker_ok_def Init_def NewMessageBroker_def heap_ok_def links_ok_def protocol_of_def)

end
