(* ===== verification/Qdp_Broker_Effects.thy ===== *)
theory Qdp_Broker_Effects
  imports Qdp_Broker
begin

text \<open>
  What the steps of the message broker do, beyond the invariant: only \<open>Deinit\<close> cancels the context; a
  handled message is written to the topic entities and queues one counting task; a connect task
  creates and subscribes one protocol; closing all protocols closes their transports; and a transport
  that nobody refers to stays as it is.
\<close>

section \<open>Shutting down\<close>

lemma setup_broker_done: "b_done (setup_broker st k w) = b_done w"
proof -
  let ?w = "fold (add_token st) notify_configs w"
  let ?w2 = "fold (setupTcpTransport st k) (Execute st ''QdpTcpTransport'' (b_store ?w)) ?w"
  have "adds_transports ?w ?w2" "adds_transports ?w2 (fold (setupFtdiTransport st k) (Execute st ''QdpFtdiTransport'' (b_store ?w2)) ?w2)"
    by (intro adds_transports_fold setupTcpTransport_adds setupFtdiTransport_adds)+
  moreover have "b_done ?w = b_done w"
    by (simp add: notify_configs_def add_token_def split_beta Let_def)
  ultimately show ?thesis
    by (simp add: setup_broker_def Let_def adds_transports_def same_control_def)
qed

lemma adds_transports_done: "adds_transports w w' \<Longrightarrow> b_done w' = b_done w"
  by (simp add: adds_transports_def same_control_def)

lemma store_session_done:
  "broker_ok w \<Longrightarrow> pid < length (agents w) \<Longrightarrow> subscribers (proto s') = subscribers (proto (load_session pid w)) \<Longrightarrow>
   msgHandler (proto s') = msgHandler (proto (load_session pid w)) \<Longrightarrow> b_done (store_session st k pid s' w) = b_done w"
  using store_session_effect(2) [of w pid s' st k] by (auto simp: broker_ok_def same_control_def)

lemma drop_protocol_done: "broker_ok w \<Longrightarrow> protocol_of w ent = Some pid \<Longrightarrow> b_done (drop_protocol st k ent pid w) = b_done w"
  using drop_protocol_effect(4) [of w ent pid st k] by (simp add: broker_ok_def same_roles_def)

lemma teardown_done: "broker_ok w \<Longrightarrow> map_keys w ids \<Longrightarrow> b_done (teardown st k ids (w\<lparr>isLeader := b\<rparr>)) = b_done w"
  by (subst teardown_effect(6))
    (simp_all add: broker_ok_def heap_ok_def entities_def links_ok_def protocol_of_def map_keys_def)

lemma run_task_done:
  assumes "broker_ok w" "task_ok (entities w) q" "run_task st k q w = Ret w'"
  shows "b_done w' = b_done w"
proof (cases q)
  case (ConnectTask ent tid)
  let ?w = "\<lambda>m. (write_bool st ent ''IsConnected'' True w)\<lparr>protocolsByEntity := Some (m(ent := Some (length (agents w)))),
    agents := agents w @ [new_agent ent tid (b_done w)]\<rparr>"
  have "b_done (fold (subscribe_topic st ent pid) topics v) = b_done v" for pid topics and v :: "('a, 'b, 'c) broker"
    by (induction topics arbitrary: v) (simp_all add: subscribe_topic_def Let_def)
  then show ?thesis
    using assms(3) ConnectTask by (auto simp: connect_task_def Let_def split: if_splits option.splits)
next
  case (DisconnectTask ent tid err)
  then show ?thesis
    using assms drop_protocol_done [of "write_bool st ent ''IsConnected'' False w" ent]
    by (auto simp: disconnect_task_def Let_def write_bool_ok split: if_splits option.splits)
qed (use assms in \<open>auto simp: count_task_def split: if_splits\<close>)

lemma broker_step_done:
  "broker_step st k w e w' \<Longrightarrow> broker_ok w \<Longrightarrow> e \<noteq> Shutdown \<Longrightarrow> b_done w' = b_done w"
proof (induction rule: broker_step.induct)
  case (schema_updated w ids)
  then show ?case
    using teardown_done [of w ids st k "isLeader w"] by (simp add: OnSchemaUpdated_def setup_broker_done)
next
  case (tx_message payload topic ent w w')
  then show ?case
    by (auto simp: onTxMessage_def go_simps Let_def store_session_done broker_ok_links dest!: SendMessage_frame
        split: option.splits)
next
  case (run_queued i w w')
  then show ?case
    using run_task_done [OF dequeued_ok, of w i st k w'] by auto
next
  case (agent_step pid w e s')
  then show ?case
    using goroutine_frame [OF agent_step.hyps(3,2)] by (intro store_session_done) auto
next
  case (transport_step tid w t)
  then show ?case
    using put_transport_sel(4) [OF transport_step.hyps] by (simp add: same_control_def)
qed (auto simp: OnBecameLeader_def OnLosingLeadership_def setup_broker_done teardown_done onTcpTransportIsEnabledChanged_def
    onFtdiTransportIsEnabledChanged_def Let_def drop_protocol_done adds_transports_done setupTcpTransport_adds
    setupFtdiTransport_adds)

lemma broker_run_done:
  "broker_run st k w es w' \<Longrightarrow> broker_ok w \<Longrightarrow> Shutdown \<notin> set es \<Longrightarrow> b_done w' = b_done w"
  by (induction rule: broker_run.induct) (auto dest: broker_step_ok broker_step_done)

section \<open>Messages\<close>

text \<open>What the broker relies on: a field that was written reads back, and no other field changes.\<close>

definition store_contract :: "'d data_store \<Rightarrow> bool" where
  "store_contract st \<longleftrightarrow>
     (\<forall>e f v d e' f'. ReadString st e' f' (WriteString st e f v d) = (if (e', f') = (e, f) then v else ReadString st e' f' d)) \<and>
     (\<forall>e f v d e' f'. ReadInt st e' f' (WriteInt st e f v d) = (if (e', f') = (e, f) then v else ReadInt st e' f' d))"

lemma deliver_fold:
  assumes "store_contract st"
  shows "\<exists>d. fold (perform st ent) (map (\<lambda>h. Deliver h m) hs) w = w\<lparr>b_store := d\<rparr> \<and>
    (\<forall>topic f. ReadString st topic f d =
       (if f \<in> {''RxMessage'', ''RxMessageFn''} \<and> topic \<in> (\<lambda>h. closures w ! ident h) ` set hs
        then bytes_string (Payload m) else ReadString st topic f (b_store w)))"
proof (induction hs arbitrary: w)
  case Nil
  then show ?case
    by (auto intro!: exI [of _ "b_store w"])
next
  case (Cons h hs)
  let ?w = "perform st ent (Deliver h m) w"
  have w: "closures ?w = closures w" "?w\<lparr>b_store := d\<rparr> = w\<lparr>b_store := d\<rparr>" for d
    by (simp_all add: Let_def)
  have "ReadString st topic f (b_store ?w) =
      (if f \<in> {''RxMessage'', ''RxMessageFn''} \<and> topic = closures w ! ident h
       then bytes_string (Payload m) else ReadString st topic f (b_store w))" for topic f
    using assms by (auto simp: store_contract_def Let_def)
  with Cons [of ?w] w show ?case
    by (auto simp del: perform.simps)
qed

text \<open>A call that leaves the transport's callback log alone queues no connection task.\<close>

lemma put_transport_quiet:
  assumes "tid < length (transports w)" "kit_events k t = kit_events k (snd (transports w ! tid))"
  shows "put_transport k tid t w = w\<lparr>transports := (transports w)[tid := (fst (transports w ! tid), t)]\<rparr>"
  using assms by (simp add: put_transport_def split_beta Let_def)

lemma agent_handler:
  assumes "broker_ok w" "pid < length (agents w)"
  shows "msgHandler (proto (ag_session (agents w ! pid))) = \<lparr>OnMessageRxFunc = True, OnMessageTxFunc = True\<rparr>"
    "transport (proto (ag_session (agents w ! pid))) < length (transports w)"
    "fst (transports w ! transport (proto (ag_session (agents w ! pid)))) = ag_entity (agents w ! pid)"
proof -
  have "agent_ok (entities w) (length (closures w)) (agents w ! pid)"
    using assms by (simp add: broker_ok_def heap_ok_def)
  then show "msgHandler (proto (ag_session (agents w ! pid))) = \<lparr>OnMessageRxFunc = True, OnMessageTxFunc = True\<rparr>"
    "transport (proto (ag_session (agents w ! pid))) < length (transports w)"
    "fst (transports w ! transport (proto (ag_session (agents w ! pid)))) = ag_entity (agents w ! pid)"
    by (auto simp: agent_ok_def Let_def entities_def)
qed

lemma handled_message_effect:
  assumes "broker_ok w" "pid < length (agents w)" "store_contract st" "s = load_session pid w"
    and w': "w' = store_session st k pid (s\<lparr>proto := handleMessage ((proto s)\<lparr>msgCh := ms\<rparr>) m, handled := hs\<rparr>) w"
  shows "queue w' = queue w @ [RxTask (ag_entity (agents w ! pid)) m]"
    "sub \<in> set (subscribers (proto (ag_session (agents w ! pid)))) \<Longrightarrow> matchTopic (sub_topic sub) (Topic m) \<Longrightarrow>
     f \<in> {''RxMessage'', ''RxMessageFn''} \<Longrightarrow>
     ReadString st (closures w ! ident (sub_handler sub)) f (b_store w') = bytes_string (Payload m)"
proof -
  let ?p = "proto (ag_session (agents w ! pid))"
  let ?s = "s\<lparr>proto := handleMessage ((proto s)\<lparr>msgCh := ms\<rparr>) m, handled := hs\<rparr>"
  note a = agent_handler [OF assms(1,2)]
  have calls: "drop (length (calls ?p)) (calls (proto ?s)) =
      HandlerRx m # map (\<lambda>h. Deliver h m) (OnMessageRx (subscribers ?p) m)"
    using a(1) by (simp add: assms(4) handleMessage_def MessageHandler_OnMessageRx_def Let_def)
  let ?w1 = "put_transport k (transport ?p) (transport (proto ?s)) w"
  have "transport (proto ?s) = snd (transports w ! transport ?p)"
    by (simp add: assms(4) handleMessage_def Let_def)
  then have w1: "?w1 = w\<lparr>transports := (transports w)[transport ?p := (fst (transports w ! transport ?p), transport (proto ?s))]\<rparr>"
    using put_transport_quiet [OF a(2)] by simp
  let ?w2 = "(w\<lparr>transports := (transports w)[transport ?p := (fst (transports w ! transport ?p), transport (proto ?s))],
    agents := (agents w)[pid := (agents w ! pid)\<lparr>ag_session := with_protocol (with_transport (transport ?p) (proto ?s)) ?s\<rparr>],
    queue := queue w @ [RxTask (ag_entity (agents w ! pid)) m]\<rparr>) "
  obtain d where d: "fold (perform st (ag_entity (agents w ! pid))) (map (\<lambda>h. Deliver h m) (OnMessageRx (subscribers ?p) m)) ?w2 =
      ?w2\<lparr>b_store := d\<rparr>"
    "\<forall>topic f. ReadString st topic f d =
       (if f \<in> {''RxMessage'', ''RxMessageFn''} \<and> topic \<in> (\<lambda>h. closures ?w2 ! ident h) ` set (OnMessageRx (subscribers ?p) m)
        then bytes_string (Payload m) else ReadString st topic f (b_store ?w2))"
    using deliver_fold [OF assms(3), of "ag_entity (agents w ! pid)" m "OnMessageRx (subscribers ?p) m" ?w2] by blast
  have "w' = ?w2\<lparr>b_store := d\<rparr>"
    unfolding w' store_session_def Let_def calls w1 using d(1) by simp
  then show "queue w' = queue w @ [RxTask (ag_entity (agents w ! pid)) m]"
    "sub \<in> set (subscribers ?p) \<Longrightarrow> matchTopic (sub_topic sub) (Topic m) \<Longrightarrow> f \<in> {''RxMessage'', ''RxMessageFn''} \<Longrightarrow>
     ReadString st (closures w ! ident (sub_handler sub)) f (b_store w') = bytes_string (Payload m)"
    using d(2) by (auto simp: OnMessageRx_filter)
qed

section \<open>Subscriptions of a new protocol\<close>

text \<open>The subscriptions of a protocol with the topic entities that their handlers write.\<close>

definition topic_view :: "('d, 'n, 't) broker \<Rightarrow> nat \<Rightarrow> (string \<times> string) list" where
  "topic_view w pid =
     map (\<lambda>sub. (sub_topic sub, closures w ! ident (sub_handler sub))) (subscribers (proto (ag_session (agents w ! pid))))"

lemma topic_view_step:
  assumes "heap_ok w" "pid < length (agents w)"
  shows "topic_view (subscribe_topic st ent pid topic w) pid = topic_view w pid @
    (if ReadEntityReference st topic ''TransportReference'' (b_store w) = ent
     then [(ReadString st topic ''Topic'' (b_store w), topic)] else [])"
proof -
  have "ident (sub_handler sub) < length (closures w)"
    if "sub \<in> set (subscribers (proto (ag_session (agents w ! pid))))" for sub
    using assms that nth_mem [OF assms(2)] by (auto simp: heap_ok_def agent_ok_def Let_def)
  then show ?thesis
    using assms(2)
    by (auto simp: topic_view_def subscribe_topic_def Let_def protocol_Subscribe_def Subscribe_def nth_append)
qed

lemma topic_view_fold:
  assumes "heap_ok w" "links_ok w" "pid < length (agents w)"
  shows "topic_view (fold (subscribe_topic st ent pid) topics w) pid = topic_view w pid @
    map (\<lambda>t. (ReadString st t ''Topic'' (b_store w), t))
      (filter (\<lambda>t. ReadEntityReference st t ''TransportReference'' (b_store w) = ent) topics)"
  using assms
proof (induction topics arbitrary: w)
  case (Cons topic topics)
  note step = subscribe_topic_effect [OF Cons.prems, of st ent topic]
  have "b_store (subscribe_topic st ent pid topic w) = b_store w"
    by (simp add: subscribe_topic_def Let_def)
  then show ?case
    using Cons.IH [OF step(1,2)] step(4) topic_view_step [OF Cons.prems(1,3)] Cons.prems(3) by simp
qed simp

lemma subscribe_topics_agents:
  "n \<noteq> pid \<Longrightarrow> agents (fold (subscribe_topic st ent pid) topics w) ! n = agents w ! n"
  by (induction topics arbitrary: w) (simp_all add: subscribe_topic_def Let_def)

lemma subscribe_topics_frame:
  "transports (fold (subscribe_topic st ent pid) topics w) = transports w"
  "b_store (fold (subscribe_topic st ent pid) topics w) = b_store w"
  by (induction topics arbitrary: w) (simp_all add: subscribe_topic_def Let_def)

lemma subscribe_topics_transport:
  "pid < length (agents w) \<Longrightarrow>
   transport (proto (ag_session (agents (fold (subscribe_topic st ent pid) topics w) ! pid))) =
   transport (proto (ag_session (agents w ! pid)))"
  by (induction topics arbitrary: w) (simp_all add: subscribe_topic_def Let_def protocol_Subscribe_def)

text \<open>What a connect task does on the leader: a new protocol on the transport, in the map.\<close>

lemma connect_task_leader:
  assumes "broker_ok w" "task_ok (entities w) (ConnectTask ent tid)" "isLeader w"
  shows "\<exists>w'. connect_task st ent tid w = Ret w' \<and> protocol_of w' ent = Some (length (agents w)) \<and>
    (\<forall>n < length (agents w). agents w' ! n = agents w ! n) \<and> length (agents w') = Suc (length (agents w)) \<and>
    transport (proto (ag_session (agents w' ! length (agents w)))) = tid \<and> transports w' = transports w \<and>
    topic_view w' (length (agents w)) = (let d = WriteBool st ent ''IsConnected'' True (b_store w) in
      map (\<lambda>t. (ReadString st t ''Topic'' d, t))
        (filter (\<lambda>t. ReadEntityReference st t ''TransportReference'' d = ent) (Execute st ''QdpTopic'' d)))"
proof -
  obtain m where m: "protocolsByEntity w = Some m"
    using assms(1) by (auto simp: broker_ok_def)
  let ?pid = "length (agents w)"
  let ?w = "(write_bool st ent ''IsConnected'' True w)\<lparr>protocolsByEntity := Some (m(ent := Some ?pid)),
    agents := agents w @ [new_agent ent tid (b_done w)]\<rparr>"
  let ?w' = "fold (subscribe_topic st ent ?pid) (Execute st ''QdpTopic'' (b_store ?w)) ?w"
  have new: "agent_ok (entities w) (length (closures w)) (new_agent ent tid (b_done w))"
    using assms(2) by (simp add: agent_ok_def new_agent_def StartReceiving_def NewProtocol_def NewSubscriptionManager_def)
  have h: "heap_ok ?w" and pid: "?pid < length (agents ?w)"
    using assms(1) new by (auto simp: broker_ok_def heap_ok_def entities_def)
  have l: "links_ok ?w"
    using assms(1) m
    by (auto simp: broker_ok_def links_ok_def protocol_of_def nth_append new_agent_def StartReceiving_def NewProtocol_def
        less_Suc_eq)
  note fold = subscribe_topics_effect [OF h l pid, of st ent "Execute st ''QdpTopic'' (b_store ?w)"]
  have "connect_task st ent tid w = Ret ?w'"
    using assms(3) m by (simp add: connect_task_def Let_def)
  moreover have "protocol_of ?w' ent = Some ?pid"
    using fold same_control_protocol_of [of ?w ?w'] by (simp add: protocol_of_def)
  moreover have "\<forall>n < ?pid. agents ?w' ! n = agents w ! n"
    by (simp add: subscribe_topics_agents nth_append)
  moreover have "transport (proto (ag_session (agents ?w' ! ?pid))) = tid"
    using subscribe_topics_transport [OF pid, of st ent "Execute st ''QdpTopic'' (b_store ?w)"]
    by (simp add: new_agent_def StartReceiving_def NewProtocol_def)
  moreover have "transports ?w' = transports w"
    by (simp add: subscribe_topics_frame)
  moreover have "topic_view ?w ?pid = []"
    by (simp add: topic_view_def new_agent_def StartReceiving_def NewProtocol_def NewSubscriptionManager_def)
  moreover have "b_store ?w = WriteBool st ent ''IsConnected'' True (b_store w)"
    by (simp add: write_bool_def)
  ultimately show ?thesis
    using topic_view_fold [OF h l pid, of st ent "Execute st ''QdpTopic'' (b_store ?w)"] fold by (simp add: Let_def)
qed

section \<open>Closing\<close>

lemma store_session_transports:
  assumes "heap_ok w" "pid < length (agents w)"
  shows "transports (store_session st k pid s' w) =
    (transports w)[transport (proto (ag_session (agents w ! pid))) :=
       (fst (transports w ! transport (proto (ag_session (agents w ! pid)))), transport (proto s'))]"
proof -
  have "transports (fold (perform st ent) cs v) = transports v" for ent cs and v :: "('a, 'b, 'c) broker"
    using perform_fold [of st ent cs v] by auto
  then show ?thesis
    by (simp add: store_session_def put_transport_def split_beta Let_def)
qed

lemma drop_protocol_objects:
  assumes "heap_ok w" "pid < length (agents w)"
  shows "own_ctx_done (proto (ag_session (agents (drop_protocol st k ent pid w) ! n))) =
      (n = pid \<or> own_ctx_done (proto (ag_session (agents w ! n))))"
    "transport (proto (ag_session (agents (drop_protocol st k ent pid w) ! n))) = transport (proto (ag_session (agents w ! n)))"
    "transports (drop_protocol st k ent pid w) = (let tid = transport (proto (ag_session (agents w ! pid))) in
      (transports w)[tid := (fst (transports w ! tid), snd (kit_close k (snd (transports w ! tid))))])"
proof -
  let ?s = "(load_session pid w)\<lparr>proto := snd (protocol_Close (kit_close k) (proto (load_session pid w)))\<rparr>"
  have eq: "subscribers (proto ?s) = subscribers (proto (ag_session (agents w ! pid)))"
      "msgHandler (proto ?s) = msgHandler (proto (ag_session (agents w ! pid)))"
    by (simp_all add: protocol_Close_frame)
  show "own_ctx_done (proto (ag_session (agents (drop_protocol st k ent pid w) ! n))) =
      (n = pid \<or> own_ctx_done (proto (ag_session (agents w ! n))))"
    "transport (proto (ag_session (agents (drop_protocol st k ent pid w) ! n))) = transport (proto (ag_session (agents w ! n)))"
    "transports (drop_protocol st k ent pid w) = (let tid = transport (proto (ag_session (agents w ! pid))) in
      (transports w)[tid := (fst (transports w ! tid), snd (kit_close k (snd (transports w ! tid))))])"
    using store_session_effect(3) [OF assms eq, of st k] store_session_transports [OF assms, of st k ?s] assms(2)
    by (auto simp: drop_protocol_def close_protocol_def Let_def protocol_Close_frame nth_list_update)
qed

text \<open>Every protocol of the map is closed, its context cancelled and its transport closed; \<open>is_shut\<close> is what
  the transport's \<open>Close\<close> establishes.\<close>

lemma close_all_closed:
  assumes "heap_ok w" "links_ok w" "\<And>t. is_shut (snd (kit_close k t))"
  shows "own_ctx_done (proto (ag_session (agents w ! n))) \<or> (\<exists>ent \<in> set ids. protocol_of w ent = Some n) \<Longrightarrow>
      own_ctx_done (proto (ag_session (agents (close_all st k ids w) ! n)))"
    "tid < length (transports w) \<Longrightarrow>
      is_shut (snd (transports w ! tid)) \<or> (\<exists>ent \<in> set ids. \<exists>n. protocol_of w ent = Some n \<and> transport (proto (ag_session (agents w ! n))) = tid) \<Longrightarrow>
      is_shut (snd (transports (close_all st k ids w) ! tid))"
  using assms(1,2)
proof (induction ids arbitrary: w)
  case (Cons ent ids)
  {
    case 1
    show ?case
    proof (cases "protocol_of w ent")
      case None
      then show ?thesis
        using Cons.IH(1) [OF _ 1(2,3)] 1(1) by auto
    next
      case (Some pid)
      note drop = drop_protocol_effect [OF 1(2,3) Some, of st k]
      have pid: "pid < length (agents w)"
        using links_okD [OF 1(3) Some] by blast
      have "own_ctx_done (proto (ag_session (agents (drop_protocol st k ent pid w) ! n))) \<or>
          (\<exists>e \<in> set ids. protocol_of (drop_protocol st k ent pid w) e = Some n)"
        unfolding drop(3) drop_protocol_objects(1) [OF 1(2) pid] using 1(1) Some
        by (metis fun_upd_other option.inject set_ConsD)
      then show ?thesis
        using Cons.IH(1) [OF _ drop(1,2)] Some by simp
    qed
  next
    case 2
    show ?case
    proof (cases "protocol_of w ent")
      case None
      then show ?thesis
        using Cons.IH(2) [OF 2(1) _ 2(3,4)] 2(2) by auto
    next
      case (Some pid)
      note drop = drop_protocol_effect [OF 2(3,4) Some, of st k]
      have pid: "pid < length (agents w)"
        using links_okD [OF 2(4) Some] by blast
      note obj = drop_protocol_objects [OF 2(3) pid, of st k ent]
      have len: "tid < length (transports (drop_protocol st k ent pid w))"
        using 2(1) obj(3) by (simp add: Let_def)
      have "is_shut (snd (transports (drop_protocol st k ent pid w) ! tid)) \<or> (\<exists>e \<in> set ids. \<exists>n.
          protocol_of (drop_protocol st k ent pid w) e = Some n \<and>
          transport (proto (ag_session (agents (drop_protocol st k ent pid w) ! n))) = tid)"
      proof (cases "transport (proto (ag_session (agents w ! pid))) = tid")
        case True
        then show ?thesis
          unfolding drop(3) obj using 2(1) assms(3) by (simp add: Let_def)
      next
        case False
        then have "snd (transports (drop_protocol st k ent pid w) ! tid) = snd (transports w ! tid)"
          unfolding obj by (simp add: Let_def)
        then show ?thesis
          unfolding drop(3) obj(2) using 2(2) Some False by (metis fun_upd_other option.inject set_ConsD)
      qed
      then show ?thesis
        using Cons.IH(2) [OF len _ drop(1,2)] Some by simp
    qed
  }
qed auto

section \<open>Transports nobody refers to\<close>

text \<open>A transport without a protocol and without a pending connect task. The broker holds no other
  reference to a transport, so it never touches such a one again.\<close>

definition orphan :: "nat \<Rightarrow> ('d, 'n, 't) broker \<Rightarrow> bool" where
  "orphan tid w \<longleftrightarrow>
     tid < length (transports w) \<and> (\<forall>a \<in> set (agents w). transport (proto (ag_session a)) \<noteq> tid) \<and>
     (\<forall>ent. ConnectTask ent tid \<notin> set (queue w))"

definition leaves_orphan :: "nat \<Rightarrow> ('d, 'n, 't) broker \<Rightarrow> ('d, 'n, 't) broker \<Rightarrow> bool" where
  "leaves_orphan tid w w' \<longleftrightarrow> (orphan tid w \<longrightarrow> orphan tid w' \<and> transports w' ! tid = transports w ! tid)"

lemma leaves_orphan_refl [simp]: "leaves_orphan tid w w"
  by (simp add: leaves_orphan_def)

lemma leaves_orphan_trans: "leaves_orphan tid w w' \<Longrightarrow> leaves_orphan tid w' w'' \<Longrightarrow> leaves_orphan tid w w''"
  by (simp add: leaves_orphan_def)

lemma leaves_orphan_fold:
  assumes "\<And>x w. leaves_orphan tid w (f x w)"
  shows "leaves_orphan tid w (fold f xs w)"
proof (induction xs arbitrary: w)
  case (Cons x xs)
  show ?case
    using leaves_orphan_trans [OF assms Cons] by simp
qed simp

lemma connection_task_inject: "ConnectTask ent tid = connection_task ent' tid' e \<Longrightarrow> tid = tid'"
  by (cases e) auto

lemma put_transport_orphan: "tid' \<noteq> tid \<Longrightarrow> leaves_orphan tid w (put_transport k tid' t w)"
  by (auto simp: leaves_orphan_def orphan_def put_transport_def split_beta Let_def dest: connection_task_inject)

lemma register_orphan: "leaves_orphan tid w (register k ent t w)"
  by (auto simp: leaves_orphan_def orphan_def register_def nth_append dest: connection_task_inject)

lemma perform_orphan: "leaves_orphan tid w (perform st ent c w)"
  by (cases c) (auto simp: leaves_orphan_def orphan_def Let_def)

lemma store_session_orphan:
  assumes "pid < length (agents w)"
  shows "leaves_orphan tid w (store_session st k pid s' w)"
proof (cases "transport (proto (ag_session (agents w ! pid))) = tid")
  case True
  then show ?thesis
    using assms by (auto simp: leaves_orphan_def orphan_def)
next
  case False
  let ?w1 = "put_transport k (transport (proto (ag_session (agents w ! pid)))) (transport (proto s')) w"
  let ?w2 = "?w1\<lparr>agents := (agents w)[pid := stored_agent (agents w ! pid) s']\<rparr>"
  have agents: "agents ?w1 = agents w"
    by (simp add: put_transport_def split_beta Let_def)
  have "leaves_orphan tid ?w1 ?w2"
    using assms False agents
    by (auto simp: leaves_orphan_def orphan_def dest!: set_update_subset_insert [THEN subsetD])
  then have "leaves_orphan tid w ?w2"
    by (rule leaves_orphan_trans [OF put_transport_orphan [OF False]])
  then have "leaves_orphan tid w (fold (perform st (ag_entity (agents w ! pid)))
      (drop (length (calls (proto (ag_session (agents w ! pid))))) (calls (proto s'))) ?w2)"
    by (rule leaves_orphan_trans [OF _ leaves_orphan_fold [OF perform_orphan]])
  then show ?thesis
    by (simp add: store_session_def stored_agent_def Let_def agents)
qed

lemma forget_orphan: "leaves_orphan tid w (forget ent w)"
  by (simp add: leaves_orphan_def orphan_def forget_def)

lemma drop_protocol_orphan: "pid < length (agents w) \<Longrightarrow> leaves_orphan tid w (drop_protocol st k ent pid w)"
  unfolding drop_protocol_def close_protocol_def Let_def
  by (rule leaves_orphan_trans [OF store_session_orphan forget_orphan])

lemma close_all_orphan:
  assumes "heap_ok w" "links_ok w"
  shows "leaves_orphan tid w (close_all st k ids w)"
  using assms
proof (induction ids arbitrary: w)
  case (Cons ent ids)
  show ?case
  proof (cases "protocol_of w ent")
    case (Some pid)
    note drop = drop_protocol_effect [OF Cons.prems Some, of st k]
    have "pid < length (agents w)"
      using links_okD [OF Cons.prems(2) Some] by blast
    then show ?thesis
      using leaves_orphan_trans [OF drop_protocol_orphan Cons.IH [OF drop(1,2)]] Some by simp
  qed (use Cons in simp)
qed simp

lemma teardown_orphan:
  assumes "heap_ok w" "links_ok w"
  shows "leaves_orphan tid w (teardown st k ids w)"
proof -
  have "leaves_orphan tid v (v\<lparr>b_store := d, bound := b, tokens := ts\<rparr>)" for v :: "('a, 'b, 'c) broker" and d b ts
    by (simp add: leaves_orphan_def orphan_def)
  then show ?thesis
    using close_all_orphan [OF assms, of tid st k ids] unbind_fold [of st "tokens (close_all st k ids w)" "close_all st k ids w"]
    by (auto simp: teardown_def Let_def leaves_orphan_def)
qed

lemma open_transport_orphan: "leaves_orphan tid w (open_transport k ent constructor w)"
proof -
  have "leaves_orphan tid w (w\<lparr>b_net := n\<rparr>)" for n
    by (simp add: leaves_orphan_def orphan_def)
  note net = this leaves_orphan_trans [OF this register_orphan]
  show ?thesis
    by (simp add: open_transport_def split_beta Let_def net split: sum.splits)
qed

lemma write_bool_orphan: "leaves_orphan tid w (write_bool st ent f b w)"
  by (simp add: leaves_orphan_def orphan_def)

lemma setup_orphan:
  "leaves_orphan tid w (setupTcpTransport st k ent w)" "leaves_orphan tid w (setupFtdiTransport st k ent w)"
  by (auto simp: setupTcpTransport_def setupFtdiTransport_def Let_def write_bool_orphan
      intro: leaves_orphan_trans [OF write_bool_orphan open_transport_orphan])

lemma setup_broker_orphan: "leaves_orphan tid w (setup_broker st k w)"
proof -
  have "leaves_orphan tid v (add_token st cfg v)" for v :: "('a, 'b, 'c) broker" and cfg
    by (simp add: add_token_def leaves_orphan_def orphan_def split_beta Let_def)
  then show ?thesis
    unfolding setup_broker_def Let_def
    by (rule leaves_orphan_trans [OF leaves_orphan_trans [OF leaves_orphan_fold leaves_orphan_fold] leaves_orphan_fold])
      (rule setup_orphan)+
qed

lemma subscribe_topic_orphan:
  assumes "orphan tid w" "pid < length (agents w)"
  shows "orphan tid (subscribe_topic st ent pid topic w) \<and> pid < length (agents (subscribe_topic st ent pid topic w))"
proof -
  have "transport (proto (ag_session (agents w ! pid))) \<noteq> tid"
    using assms by (auto simp: orphan_def)
  with assms show ?thesis
    by (auto simp: orphan_def subscribe_topic_def Let_def protocol_Subscribe_def dest!: set_update_subset_insert [THEN subsetD])
qed

lemma subscribe_topics_orphan:
  "orphan tid w \<Longrightarrow> pid < length (agents w) \<Longrightarrow> orphan tid (fold (subscribe_topic st ent pid) topics w)"
  by (induction topics arbitrary: w) (simp_all add: subscribe_topic_orphan)

lemma connect_task_orphan:
  assumes "connect_task st ent tid' w = Ret w'" "tid' \<noteq> tid"
  shows "leaves_orphan tid w w'"
proof (cases "isLeader w")
  case True
  obtain m where m: "protocolsByEntity w = Some m"
    using assms(1) True by (cases "protocolsByEntity w") (simp_all add: connect_task_def Let_def)
  let ?w = "(write_bool st ent ''IsConnected'' True w)\<lparr>protocolsByEntity := Some (m(ent := Some (length (agents w)))),
    agents := agents w @ [new_agent ent tid' (b_done w)]\<rparr>"
  have w': "w' = fold (subscribe_topic st ent (length (agents w))) (Execute st ''QdpTopic'' (b_store ?w)) ?w"
    using assms(1) True m by (simp add: connect_task_def Let_def)
  have "orphan tid ?w" if "orphan tid w"
    using that assms(2) by (simp add: orphan_def new_agent_def StartReceiving_def NewProtocol_def)
  then show ?thesis
    unfolding w' leaves_orphan_def by (simp add: subscribe_topics_orphan subscribe_topics_frame)
qed (use assms in \<open>simp add: connect_task_def\<close>)

lemma leaves_orphan_leader: "leaves_orphan tid (w\<lparr>isLeader := b\<rparr>) w' = leaves_orphan tid w w'"
  by (simp add: leaves_orphan_def orphan_def)

lemma run_task_orphan:
  assumes "broker_ok w" "run_task st k q w = Ret w'" "\<And>ent. q \<noteq> ConnectTask ent tid"
  shows "leaves_orphan tid w w'"
proof (cases q)
  case (ConnectTask ent tid')
  then show ?thesis
    using assms(2,3) connect_task_orphan [of st ent tid' w w' tid] by auto
next
  case (DisconnectTask ent tid' err)
  let ?w = "write_bool st ent ''IsConnected'' False w"
  have "leaves_orphan tid w (drop_protocol st k ent pid ?w)" if "protocol_of w ent = Some pid" for pid
    using broker_ok_links [OF assms(1) that]
    by (intro leaves_orphan_trans [OF write_bool_orphan drop_protocol_orphan]) simp
  then show ?thesis
    using assms(2) DisconnectTask write_bool_orphan
    by (auto simp: disconnect_task_def Let_def split: if_splits option.splits)
qed (use assms in \<open>auto simp: count_task_def leaves_orphan_def orphan_def split: if_splits\<close>)

lemma onTxMessage_orphan:
  assumes "broker_ok w" "onTxMessage st k payload topic ent w = Ret w'"
  shows "leaves_orphan tid w w'"
  using assms
  by (auto simp: onTxMessage_def go_simps Let_def split: option.splits
      intro!: store_session_orphan dest: broker_ok_links)

lemma onIsEnabledChanged_orphan:
  assumes "broker_ok w"
  shows "leaves_orphan tid w (onTcpTransportIsEnabledChanged st k ent b w)"
    "leaves_orphan tid w (onFtdiTransportIsEnabledChanged st k ent b w)"
  using assms broker_ok_links [of w ent]
  by (auto simp: onTcpTransportIsEnabledChanged_def onFtdiTransportIsEnabledChanged_def Let_def setup_orphan
      intro!: drop_protocol_orphan)

lemma cancel_broker_orphan: "leaves_orphan tid w (cancel_broker w)"
  by (auto simp: leaves_orphan_def orphan_def cancel_broker_def)

lemma broker_ok_tear:
  assumes "broker_ok w"
  shows "heap_ok w" "links_ok w" "heap_ok (w\<lparr>isLeader := b\<rparr>)" "links_ok (w\<lparr>isLeader := b\<rparr>)"
    "heap_ok (cancel_broker w)" "links_ok (cancel_broker w)"
  using assms
  by (auto simp: broker_ok_def cancel_broker_def heap_ok_def entities_def agent_ok_def links_ok_def protocol_of_def Let_def)

lemma broker_step_orphan:
  "broker_step st k w e w' \<Longrightarrow> broker_ok w \<Longrightarrow> e \<noteq> TransportStep tid \<Longrightarrow> leaves_orphan tid w w'"
proof (induction rule: broker_step.induct)
  case (became_leader w ids)
  then show ?case
    unfolding OnBecameLeader_def leaves_orphan_leader [where w = w and b = True, symmetric]
    by (intro leaves_orphan_trans [OF teardown_orphan setup_broker_orphan] broker_ok_tear)
next
  case (losing_leadership w ids)
  then show ?case
    unfolding OnLosingLeadership_def leaves_orphan_leader [where w = w and b = False, symmetric]
    by (intro teardown_orphan broker_ok_tear)
next
  case (schema_updated w ids)
  then show ?case
    by (simp add: OnSchemaUpdated_def leaves_orphan_trans [OF teardown_orphan setup_broker_orphan] broker_ok_tear(1,2))
next
  case (deinit w ids)
  then show ?case
    unfolding Deinit_def by (intro leaves_orphan_trans [OF cancel_broker_orphan teardown_orphan] broker_ok_tear)
next
  case (run_queued i w w')
  let ?w = "w\<lparr>queue := take i (queue w) @ drop (Suc i) (queue w)\<rparr>"
  have o: "orphan tid ?w \<and> queue w ! i \<noteq> ConnectTask ent tid" if "orphan tid w" for ent
    using that nth_mem [OF run_queued.hyps(1)]
    by (auto simp: orphan_def simp del: nth_mem dest: in_set_takeD in_set_dropD)
  show ?case
    using o run_task_orphan [OF dequeued_ok(1) run_queued.hyps(2), of tid] run_queued.prems(1) run_queued.hyps(1)
    by (auto simp: leaves_orphan_def)
next
  case (transport_step tid' w t)
  then show ?case
    by (intro put_transport_orphan) auto
next
  case (outside w d n)
  then show ?case
    by (simp add: leaves_orphan_def orphan_def)
qed (simp_all add: onTxMessage_orphan onIsEnabledChanged_orphan store_session_orphan)

lemma broker_run_orphan:
  "broker_run st k w es w' \<Longrightarrow> broker_ok w \<Longrightarrow> TransportStep tid \<notin> set es \<Longrightarrow> leaves_orphan tid w w'"
proof (induction rule: broker_run.induct)
  case (broker_run_cons w e w' es w'')
  then show ?case
    using broker_step_ok broker_step_orphan leaves_orphan_trans by (metis list.set_intros(1) list.set_intros(2))
qed simp

end
