(* ===== verification/Qdp_Ftdi_Props.thy ===== *)
theory Qdp_Ftdi_Props
  imports Qdp_Ftdi
begin

text \<open>
  What \<open>FTDITransport\<close> guarantees: the USB objects it opens are the ones it holds, closing releases
  them, the connection callbacks are paired; and where it falls short: the UART stage of \<open>connect\<close>
  leaves two objects open, a failed read never reports a disconnect, a read after \<open>Close\<close> opens the
  device again.
\<close>

section \<open>A device on the bench\<close>

text \<open>A device that is present; \<open>ctl\<close> is what its control transfers return. Its state gives the packets
  it will send and the number of transfers it will take after each opening.\<close>

definition bench_usb :: "go_error option \<Rightarrow> (nat \<times> byte list list, byte list list, nat \<times> byte list list) gousb" where
  "bench_usb ctl =
     \<lparr>OpenDevice = \<lambda>_ _ u. (Inr True, u), SetAutoDetach = \<lambda>u. (None, u), DeviceConfig = \<lambda>_ u. (None, u),
      ClaimInterface = \<lambda>_ _ u. (None, u), GetInEndpoint = \<lambda>_ u. (Inr (Some (snd u)), u),
      GetOutEndpoint = \<lambda>_ u. (Inr (Some (fst u, [])), u), Control = \<lambda>_ u. (ctl, u)\<rparr>"

definition device_present :: "('u, 'e, 'o) gousb \<Rightarrow> bool" where
  "device_present ops \<longleftrightarrow> uart_ok ops \<and>
     (\<forall>v p u. fst (OpenDevice ops v p u) = Inr True) \<and> (\<forall>u. fst (SetAutoDetach ops u) = None) \<and>
     (\<forall>n u. fst (DeviceConfig ops n u) = None) \<and> (\<forall>i a u. fst (ClaimInterface ops i a u) = None) \<and>
     (\<forall>n u. \<exists>ep. fst (GetInEndpoint ops n u) = Inr (Some ep)) \<and>
     (\<forall>n u. \<exists>ep. fst (GetOutEndpoint ops n u) = Inr (Some ep))"

lemma bench_ops [simp]:
  "OpenDevice (bench_usb ctl) v p u = (Inr True, u)" "SetAutoDetach (bench_usb ctl) u = (None, u)"
  "DeviceConfig (bench_usb ctl) n u = (None, u)" "ClaimInterface (bench_usb ctl) i a u = (None, u)"
  "GetInEndpoint (bench_usb ctl) n u = (Inr (Some (snd u)), u)"
  "GetOutEndpoint (bench_usb ctl) n u = (Inr (Some (fst u, [])), u)" "Control (bench_usb ctl) q u = (ctl, u)"
  by (simp_all add: bench_usb_def)

lemma bench_present [simp]: "device_present (bench_usb None)" "uart_ok (bench_usb None)"
  by (simp_all add: device_present_def uart_ok_def)

lemma open_device_present:
  assumes "device_present ops"
  shows "\<exists>eps t'. open_device ops c t = (Inr eps, t')"
proof -
  have ep: "\<exists>ep. fst (GetInEndpoint ops n u) = Inr (Some ep)" "\<exists>ep. fst (GetOutEndpoint ops n u) = Inr (Some ep)" for n u
    using assms by (simp_all add: device_present_def)
  show ?thesis
    using assms unfolding device_present_def open_device_def
    by (auto simp: split_beta Let_def split: sum.splits option.splits)
      (metis ep Inr_inject option.distinct(1) sum.distinct(1))+
qed

lemma connect_present:
  assumes "device_present ops"
  shows "\<exists>t'. connect ops inf_int (Some c) t = (None, t')"
proof -
  obtain eps t1 where "open_device ops c t = (Inr eps, t1)"
    using open_device_present [OF assms] by blast
  then show ?thesis
    using assms send_requests_ok [of ops c "uart_requests inf_int (f_config t1)" t1]
    by (cases "send_requests ops c (uart_requests inf_int (f_config t1)) t1")
      (auto simp: connect_def device_present_def)
qed

lemma send_requests_bench [simp]: "send_requests (bench_usb None) c rs t = (None, t)"
  by (induction rs) auto

lemma connect_bench:
  "connect (bench_usb None) inf_int (Some c) t =
     (None, adopt c (snd (usb t), (fst (usb t), []))
        (t\<lparr>opened := (UInterface, c) # (UConfig, c) # (UDevice, c) # opened t\<rparr>))"
  by (simp add: connect_def open_device_def open_object_def Let_def)

lemma new_bench:
  "\<exists>t. NewFTDITransport (bench_usb None) inf_int u cfg h = (None, t) \<and> f_outEndpoint t = Some (fst u, []) \<and>
     f_done t = False \<and> f_handler t = h \<and> usb t = u \<and> f_events t = (case h of None \<Rightarrow> [] | Some f \<Rightarrow> OnConnect f) \<and>
     f_reader t = Some (NewMessageReader (fresh_endpoint (snd u))) \<and> \<not> f_disconnected t \<and> contexts t = 1"
  by (simp add: NewFTDITransport_def connect_bench NewContext_def open_object_def Let_def adopt_def on_connect_def
      fresh_endpoint_def NewMessageReader_def split: option.splits)

lemma writer_bench:
  "f_outEndpoint t = Some (0, outs) \<Longrightarrow> \<not> f_done t \<Longrightarrow> data \<noteq> [] \<Longrightarrow>
   writer_call budget_write data t = Ret (Some (ErrText ''libusb: i/o error [code -1]''), t)"
  by (simp add: writer_call_def writeChunked_step)

lemma disconnect_texts:
  "isUsbDisconnectError usb_gone EOF = usb_gone EOF"
  "isUsbDisconnectError usb_gone Canceled = usb_gone Canceled"
  "isUsbDisconnectError usb_gone DeadlineExceeded = usb_gone DeadlineExceeded"
  "isUsbDisconnectError usb_gone (ErrText ''endpoint is nil'') = usb_gone (ErrText ''endpoint is nil'')"
  "isUsbDisconnectError usb_gone (ErrText ''libusb: i/o error [code -1]'') = usb_gone (ErrText ''libusb: i/o error [code -1]'')"
  by (simp_all add: isUsbDisconnectError_def lower_char_def Let_def)

text \<open>A failing write: the device is opened again and the message written again, in vain.\<close>

lemma bench_write_close:
  fixes u :: "nat \<times> byte list list"
  assumes "fst u = 0"
  shows "\<exists>t0 t. NewFTDITransport (bench_usb None) 0 u DefaultFTDIConfig (Some both_callbacks) = (None, t0) \<and>
    ftdi_run (bench_usb None) 0 (\<lambda>_. False) packets_read budget_write t0 [FtdiWrite sample_msg, FtdiClose] t \<and>
    f_events t = [Connected, Connected, Disconnected None] \<and> contexts t = 2"
proof -
  have "Topic sample_msg \<noteq> ''''"
    by (simp add: sample_msg_def)
  then have enc: "Encode sample_msg = Ret (Inr (wire sample_msg))" "wire sample_msg \<noteq> []"
    using within_limits_length [OF sample_msg_limits]
    by (simp_all add: within_limits_fits Encode_wire flip: length_greater_0_conv)
  obtain t0 where new: "NewFTDITransport (bench_usb None) 0 u DefaultFTDIConfig (Some both_callbacks) = (None, t0)"
    and t0: "f_outEndpoint t0 = Some (0, [])" "\<not> f_done t0" "f_handler t0 = Some both_callbacks" "usb t0 = u"
      "f_events t0 = [Connected]" "\<not> f_disconnected t0" "contexts t0 = 1"
    using new_bench [of 0 u DefaultFTDIConfig "Some both_callbacks"] assms
    by (auto simp: OnConnect_def both_callbacks_def)
  obtain t1 where re: "tryReconnect (bench_usb None) 0 t0 = (None, t1)"
    and t1: "f_outEndpoint t1 = Some (0, [])" "\<not> f_done t1" "f_handler t1 = Some both_callbacks"
      "f_events t1 = [Connected, Connected]" "\<not> f_disconnected t1" "contexts t1 = 2"
    using t0 assms
    by (simp add: tryReconnect_def NewContext_def connect_bench open_object_def Let_def adopt_def callback_simps)
  have "ftdi_WriteMessage (bench_usb None) 0 (\<lambda>_. False) budget_write sample_msg t0 =
      Ret (Some (ErrText ''libusb: i/o error [code -1]''), t1)"
    using t0 t1 re by (simp add: ftdi_WriteMessage_def enc writer_bench note_disconnect_def disconnect_texts)
  then have "ftdi_step (bench_usb None) 0 (\<lambda>_. False) packets_read budget_write t0 (FtdiWrite sample_msg) t1"
    by (rule step_write)
  moreover have "ftdi_step (bench_usb None) 0 (\<lambda>_. False) packets_read budget_write t1 FtdiClose (snd (ftdi_Close t1))"
    by (rule step_close [OF surjective_pairing])
  moreover have "f_events (snd (ftdi_Close t1)) = [Connected, Connected, Disconnected None]"
      "contexts (snd (ftdi_Close t1)) = 2"
    using t1 by (simp_all add: ftdi_Close_def cancel_context_def disconnect_once_def callback_simps)
  ultimately show ?thesis
    using new unfolding ftdi_run_simps by blast
qed


lemma uart_requests_some: "uart_requests inf_int cfg \<noteq> []"
  by (simp add: uart_requests_def split_beta Let_def)

lemma send_requests_fails:
  assumes "\<And>request u. fst (Control ops request u) \<noteq> None" "rs \<noteq> []"
  shows "\<exists>e t'. send_requests ops c rs t = (Some e, t')"
proof (cases rs)
  case (Cons q rs')
  then show ?thesis
    using assms(1) [of "snd q" "usb t"]
    by (cases q; cases "Control ops (snd q) (usb t)") (auto simp: Let_def)
qed (use assms in simp)

text \<open>Reading and reconnecting report no disconnect by themselves.\<close>

lemma reader_call_events: "reader_call fuel epr t = Some (Ret (res, t')) \<Longrightarrow> f_events t' = f_events t"
  by (auto simp: reader_call_def go_simps split: option.splits)

lemma disconnects_on_connect [simp]: "disconnects (f_events (on_connect t)) = disconnects (f_events t)"
  by (simp add: on_connect_def split: option.splits)

lemma disconnects_note_connect [simp]: "disconnects (f_events (note_connect t)) = disconnects (f_events t)"
  by (simp add: note_connect_def)

lemma connect_disconnects: "connect ops inf_int (Some c) t = (err, t') \<Longrightarrow> disconnects (f_events t') = disconnects (f_events t)"
  by (cases err) (auto simp: adopt_def dest!: connect_succeeds connect_fails)

lemma tryReconnect_disconnects:
  "tryReconnect ops inf_int t = (err, t') \<Longrightarrow> disconnects (f_events t') = disconnects (f_events t)"
  by (auto simp: tryReconnect_def NewContext_def open_object_def close_object_def Let_def
      dest!: connect_disconnects split: prod.splits option.splits)

text \<open>A read with a cancelled context.\<close>

definition cancelled_endpoint :: "'e \<Rightarrow> 'e endpoint_reader" where
  "cancelled_endpoint ep =
     \<lparr>er_ep = Some ep, er_done = True, er_buf = Some (replicate ftdiMaxPacketSize 0), er_pos = 0, er_size = 0\<rparr>"

lemma read_failing:
  assumes "reader_inv r" "count r < pos r + 8" "\<And>n. 0 < n \<Longrightarrow> \<exists>s. rd (reader r) n = ([], Some e, s)"
  shows "\<exists>r'. ReadMessage 1 rd r = Some (Ret (Inl e, r'))"
proof -
  have "0 < 2048 - kept r"
    using assms(1,2) by (auto simp: kept_def reader_inv_def)
  then obtain s where "rd (reader r) (2048 - kept r) = ([], Some e, s)"
    using assms(3) by blast
  from readMore_ok [of r rd, OF assms(1) this] obtain r' where "readMore rd r = Ret (Some e, r')"
      "count r' = kept r" "pos r' = (if 1024 < count r then 0 else pos r)"
    by auto
  then show ?thesis
    using assms(1,2) unfolding ReadMessage_def One_nat_def read_run.simps
    by (auto simp: outer_step_def kept_def)
qed

lemma read_cancelled:
  assumes "reader_inv r" "count r < pos r + 8" "er_done (reader r)" "er_ep (reader r) = Some ep"
    "er_size (reader r) \<le> er_pos (reader r)" "\<And>ep n. epr True ep n = ([], Some Canceled, ep)"
  shows "\<exists>r'. ReadMessage 1 (endpoint_Read epr) r = Some (Ret (Inl Canceled, r'))"
  using assms(3-6) by (intro read_failing [OF assms(1,2)]) (simp add: endpoint_Read_def Let_def)

lemma read_unplugged:
  assumes "er_ep s = Some []" "\<not> er_done s" "er_size s \<le> er_pos s"
  shows "\<exists>r'. ReadMessage 1 (endpoint_Read packets_read) (NewMessageReader s) = Some (Ret (Inl EOF, r'))"
  using assms
  by (intro read_failing)
    (simp_all add: endpoint_Read_def packets_read.simps Let_def NewMessageReader_def reader_inv_def)

lemma on_connect_reader [simp]: "f_reader (on_connect t) = f_reader t"
  by (simp add: on_connect_def split: option.splits)

text \<open>The device is unplugged: the read fails, the device is opened again, the read fails again.\<close>

lemma bench_read_unplugged:
  fixes u :: "nat \<times> byte list list"
  assumes "snd u = []" "NewFTDITransport (bench_usb None) 0 u cfg (Some both_callbacks) = (None, t)" "\<not> usb_gone EOF"
  shows "\<exists>t'. ftdi_ReadMessage 1 (bench_usb None) 0 usb_gone packets_read t = Some (Ret (Inl EOF, t')) \<and>
    f_events t' = f_events t @ [Connected]"
proof -
  have t: "f_reader t = Some (NewMessageReader (fresh_endpoint []))" "usb t = u" "\<not> f_done t" "f_handler t = Some both_callbacks"
    using new_bench [of 0 u cfg "Some both_callbacks"] assms by auto
  obtain r where "ReadMessage 1 (endpoint_Read packets_read) (NewMessageReader (fresh_endpoint [])) = Some (Ret (Inl EOF, r))"
    using read_unplugged [of "fresh_endpoint []"] by (auto simp: fresh_endpoint_def)
  then have call: "reader_call 1 packets_read t = Some (Ret (Inl EOF, t\<lparr>f_reader := Some r\<rparr>))"
    using t by (simp add: reader_call_def)
  define t1 where "t1 = note_disconnect usb_gone EOF (t\<lparr>f_reader := Some r\<rparr>)"
  have "usb t1 = u" "\<not> f_done t1" "f_handler t1 = Some both_callbacks" "f_events t1 = f_events t"
    using t assms(3) by (simp_all add: t1_def note_disconnect_def disconnect_texts)
  then have "\<exists>t2. tryReconnect (bench_usb None) 0 t1 = (None, t2) \<and> f_events t2 = f_events t @ [Connected] \<and>
      f_reader t2 = Some (NewMessageReader
      \<lparr>er_ep = Some [], er_done = False, er_buf = Some (replicate ftdiMaxPacketSize 0), er_pos = 0, er_size = 0\<rparr>)"
    using assms(1)
    by (simp add: tryReconnect_def NewContext_def connect_bench open_object_def Let_def adopt_def callback_simps)
  then obtain t2 where re: "tryReconnect (bench_usb None) 0 t1 = (None, t2)" "f_events t2 = f_events t @ [Connected]"
    and t2: "f_reader t2 = Some (NewMessageReader
      \<lparr>er_ep = Some [], er_done = False, er_buf = Some (replicate ftdiMaxPacketSize 0), er_pos = 0, er_size = 0\<rparr>)"
    by blast
  obtain r2 where "reader_call 1 packets_read t2 = Some (Ret (Inl EOF, t2\<lparr>f_reader := Some r2\<rparr>))"
    using read_unplugged [of "\<lparr>er_ep = Some [], er_done = False, er_buf = Some (replicate ftdiMaxPacketSize 0),
      er_pos = 0, er_size = 0\<rparr>"] t2 by (auto simp: reader_call_def)
  with t(1) call re show ?thesis
    by (simp add: ftdi_ReadMessage_def t1_def)
qed

lemma reconnect_present:
  assumes "device_present ops" "closeResources t = t" "f_handler t = Some both_callbacks" "f_done t"
  shows "\<exists>i t'. tryReconnect ops inf_int t = (None, t') \<and> opened t' = complete (contexts t) @ opened t \<and>
    f_events t' = f_events t @ [Connected] \<and> f_reader t' = Some (NewMessageReader (cancelled_endpoint i))"
proof -
  let ?s = "snd (NewContext t)"
  obtain t' where t': "connect ops inf_int (Some (contexts t)) ?s = (None, t')"
    using connect_present [OF assms(1)] by blast
  from connect_succeeds [OF this] obtain u i j where "t' = adopt (contexts t) (i, j)
      (?s\<lparr>usb := u, opened := (UInterface, contexts t) # (UConfig, contexts t) # (UDevice, contexts t) # opened ?s\<rparr>)"
    by blast
  with t' assms(2-) show ?thesis
    by (auto simp: tryReconnect_def NewContext_def open_object_def complete_def adopt_def callback_simps
        cancelled_endpoint_def Let_def)
qed

section \<open>Properties\<close>

text \<open>C17. The USB objects that are open are exactly those the transport holds, after any sequence of
  reads, writes and closes with all their reconnects, as long as the control transfers of the UART
  stage do not fail; and when these fail, what is left over are configurations and interfaces only.\<close>

theorem ftdi_open_objects:
  assumes "NewFTDITransport ops inf_int u cfg h = (None, t0)"
    and "ftdi_run ops inf_int usb_gone epr epw t0 as t"
  shows "\<exists>rest. opened t = held t @ rest \<and> (\<forall>x \<in> set rest. fst x \<in> {UConfig, UInterface}) \<and>
    (uart_ok ops \<longrightarrow> rest = [])"
  using resources.run_keeps [OF assms(2) NewFTDITransport_resources [OF assms(1)]]
  by (simp add: resources_inv_def)

theorem ftdi_open_objects_witness:
  "\<exists>t0 t. NewFTDITransport (bench_usb None) 0 (0, []) DefaultFTDIConfig (Some both_callbacks) = (None, t0) \<and>
     ftdi_run (bench_usb None) 0 (\<lambda>_. False) packets_read budget_write t0 [FtdiWrite sample_msg, FtdiClose] t \<and>
     opened t = held t"
proof -
  obtain t0 t where new: "NewFTDITransport (bench_usb None) 0 (0, []) DefaultFTDIConfig (Some both_callbacks) = (None, t0)"
    and run: "ftdi_run (bench_usb None) 0 (\<lambda>_. False) packets_read budget_write t0 [FtdiWrite sample_msg, FtdiClose] t"
    using bench_write_close [of "(0, [])"] by auto
  from ftdi_open_objects [OF new run] new run show ?thesis
    by auto
qed

text \<open>After \<open>Close\<close> no device and no context is open, and if the control transfers do not fail nothing
  at all.\<close>

theorem ftdi_close_releases:
  assumes "NewFTDITransport ops inf_int u cfg h = (None, t0)"
    and "ftdi_run ops inf_int usb_gone epr epw t0 (as @ [FtdiClose]) t"
  shows "(UDevice, n) \<notin> set (opened t) \<and> (UContext, n) \<notin> set (opened t) \<and> (uart_ok ops \<longrightarrow> opened t = [])"
proof -
  obtain s where run: "ftdi_run ops inf_int usb_gone epr epw t0 as s" and t: "t = snd (ftdi_Close s)"
    using assms(2) by (auto elim: ftdi_step_close)
  have "resources_inv ops s"
    using resources.run_keeps [OF run NewFTDITransport_resources [OF assms(1)]] .
  then have "resources_inv ops t" "held t = []"
    using ftdi_Close_resources [of ops s] held_holds [of None t] by (auto simp: t)
  then show ?thesis
    by (fastforce simp: resources_inv_def)
qed

theorem ftdi_close_releases_witness:
  "\<exists>t0 t. NewFTDITransport (bench_usb None) 0 (0, []) DefaultFTDIConfig (Some both_callbacks) = (None, t0) \<and>
     ftdi_run (bench_usb None) 0 (\<lambda>_. False) packets_read budget_write t0 [FtdiWrite sample_msg, FtdiClose] t \<and>
     contexts t = 2 \<and> opened t = []"
proof -
  obtain t0 t where new: "NewFTDITransport (bench_usb None) 0 (0, []) DefaultFTDIConfig (Some both_callbacks) = (None, t0)"
    and run: "ftdi_run (bench_usb None) 0 (\<lambda>_. False) packets_read budget_write t0 [FtdiWrite sample_msg, FtdiClose] t"
    and t: "contexts t = 2"
    using bench_write_close [of "(0, [])"] by auto
  have "ftdi_run (bench_usb None) 0 (\<lambda>_. False) packets_read budget_write t0 ([FtdiWrite sample_msg] @ [FtdiClose]) t"
    using run by simp
  from ftdi_close_releases [OF new this] new run t show ?thesis
    by auto
qed



text \<open>A failed UART stage leaks: when the device opens but a control transfer fails, the constructor
  returns an error and the claimed interface and the configuration stay open, with no pointer left to
  close them.\<close>

theorem ftdi_uart_failure_leaks:
  assumes "\<And>t. \<exists>eps t'. open_device ops 0 t = (Inr eps, t')"
    and "\<And>request u. fst (Control ops request u) \<noteq> None"
  shows "\<exists>e t. NewFTDITransport ops inf_int u cfg h = (Some e, t) \<and>
    opened t = [(UInterface, 0), (UConfig, 0)] \<and> f_events t = []"
proof -
  let ?t = "snd (NewContext \<lparr>usb = u, contexts = 0, opened = [], f_context = None, f_device = None, f_usbConfig = None,
    f_intf = None, f_outEndpoint = None, f_handler = h, f_disconnected = False, f_config = cfg, f_done = False,
    f_reader = None, f_events = []\<rparr>) :: ('a, 'b, 'c) ftdi"
  obtain eps t1 where t1: "open_device ops 0 ?t = (Inr eps, t1)"
    using assms(1) by blast
  obtain e t2 where t2: "send_requests ops 0 (uart_requests inf_int (f_config t1)) t1 = (Some e, t2)"
    using send_requests_fails [OF assms(2), of "uart_requests inf_int (f_config t1)" 0 t1] uart_requests_some by blast
  show ?thesis
    using open_device_effect [OF t1] send_requests_effect [OF t2] t1 t2
    by (auto simp: NewFTDITransport_def connect_def NewContext_def open_object_def)
qed

theorem ftdi_uart_failure_leaks_witness:
  "\<exists>e t. NewFTDITransport (bench_usb (Some EOF)) 0 (0, []) DefaultFTDIConfig None = (Some e, t) \<and>
     opened t = [(UInterface, 0), (UConfig, 0)] \<and> f_events t = []"
  by (rule ftdi_uart_failure_leaks) (simp_all add: open_device_def open_object_def Let_def)

text \<open>A read never reports a disconnect: whatever the USB device does, also when it is unplugged,
  \<open>ReadMessage\<close> calls \<open>OnDisconnect\<close> at no time, since the endpoint reader turns every USB error into
  \<open>io.EOF\<close> before \<open>isUsbDisconnectError\<close> sees it. The errors it lets through are those of the context,
  which \<open>gousb\<close> passes on unchanged.\<close>

theorem ftdi_read_reports_no_disconnect:
  assumes "\<And>d ep n bs e ep'. epr d ep n = (bs, Some e, ep') \<Longrightarrow> errors_Is e Canceled \<Longrightarrow> e = Canceled"
    and "\<And>d ep n bs e ep'. epr d ep n = (bs, Some e, ep') \<Longrightarrow> errors_Is e DeadlineExceeded \<Longrightarrow> e = DeadlineExceeded"
    and "\<forall>e. usb_gone e \<longrightarrow> e \<notin> {EOF, Canceled, DeadlineExceeded, ErrText ''endpoint is nil''}"
    and "ftdi_ReadMessage fuel ops inf_int usb_gone epr t = Some (Ret (res, t'))"
  shows "disconnects (f_events t') = disconnects (f_events t)"
proof (cases "f_reader t = None")
  case False
  with assms(4) obtain res1 t1 where call: "reader_call fuel epr t = Some (Ret (res1, t1))"
    by (auto simp: ftdi_ReadMessage_def split: option.splits go.splits)
  note t1 = reader_call_events [OF call]
  show ?thesis
  proof (cases res1)
    case (Inl e)
    have "e \<in> {EOF, Canceled, DeadlineExceeded, ErrText ''endpoint is nil''}"
      using reader_call_error [of fuel epr t e t1] call Inl assms(1,2) by blast
    then have "note_disconnect usb_gone e t1 = t1"
      using assms(3) by (auto simp: note_disconnect_def disconnect_texts)
    with assms(4) call False Inl t1 show ?thesis
      by (auto simp: ftdi_ReadMessage_def split: prod.splits option.splits
          dest!: tryReconnect_disconnects reader_call_events)
  qed (use assms(4) call False t1 in \<open>auto simp: ftdi_ReadMessage_def\<close>)
qed (use assms(4) in \<open>simp add: ftdi_ReadMessage_def\<close>)

theorem ftdi_read_reports_no_disconnect_witness:
  "\<exists>t t'. NewFTDITransport (bench_usb None) 0 (0, []) DefaultFTDIConfig (Some both_callbacks) = (None, t) \<and>
     ftdi_ReadMessage 1 (bench_usb None) 0 (\<lambda>_. False) packets_read t = Some (Ret (Inl EOF, t')) \<and>
     disconnects (f_events t') = 0"
proof -
  obtain t where new: "NewFTDITransport (bench_usb None) 0 (0, []) DefaultFTDIConfig (Some both_callbacks) = (None, t)"
    and t: "f_events t = OnConnect both_callbacks"
    using new_bench [of 0 "(0, [])" DefaultFTDIConfig "Some both_callbacks"] by auto
  obtain t' where read: "ftdi_ReadMessage 1 (bench_usb None) 0 (\<lambda>_. False) packets_read t = Some (Ret (Inl EOF, t'))"
    using bench_read_unplugged [OF _ new, of "\<lambda>_. False"] by auto
  have "disconnects (f_events t') = disconnects (f_events t)"
    by (rule ftdi_read_reports_no_disconnect [OF _ _ _ read])
      (auto simp: packets_read.simps split: if_splits list.splits)
  with new read t show ?thesis
    by auto
qed

text \<open>A read after \<open>Close\<close> opens the device again: the cancelled context makes the read fail, the
  transport reconnects, calls \<open>OnConnect\<close>, fails again, and the four USB objects stay open.\<close>

theorem ftdi_read_after_close_reopens:
  assumes "device_present ops" and "\<And>ep n. epr True ep n = ([], Some Canceled, ep)" and "\<not> usb_gone Canceled"
    and "f_done t" and "holds None t" and "f_handler t = Some both_callbacks"
    and "f_reader t = Some r" and "reader_inv r" and "count r < pos r + 8"
    and "er_done (reader r)" and "er_ep (reader r) = Some ep" and "er_size (reader r) \<le> er_pos (reader r)"
  shows "\<exists>t'. ftdi_ReadMessage 1 ops inf_int usb_gone epr t = Some (Ret (Inl Canceled, t')) \<and>
    opened t' = complete (contexts t) @ opened t \<and> f_events t' = f_events t @ [Connected]"
proof -
  obtain r1 where "ReadMessage 1 (endpoint_Read epr) r = Some (Ret (Inl Canceled, r1))"
    using read_cancelled [of r ep epr] assms by blast
  then have call: "reader_call 1 epr t = Some (Ret (Inl Canceled, t\<lparr>f_reader := Some r1\<rparr>))"
    using assms(7) by (simp add: reader_call_def)
  let ?t = "t\<lparr>f_reader := Some r1\<rparr>"
  have "closeResources ?t = ?t"
    using assms(5) by (simp add: closeResources_def close_pointer_def holds_def)
  then obtain i t2 where re: "tryReconnect ops inf_int ?t = (None, t2)"
    and t2: "opened t2 = complete (contexts t) @ opened t" "f_events t2 = f_events t @ [Connected]"
      "f_reader t2 = Some (NewMessageReader (cancelled_endpoint i))"
    using reconnect_present [OF assms(1), of ?t inf_int] assms(4,6) by auto
  obtain r2 where "ReadMessage 1 (endpoint_Read epr) (NewMessageReader (cancelled_endpoint i)) = Some (Ret (Inl Canceled, r2))"
    using read_cancelled [of "NewMessageReader (cancelled_endpoint i)" i epr] assms(2)
    by (auto simp: cancelled_endpoint_def NewMessageReader_def reader_inv_def)
  then have "reader_call 1 epr t2 = Some (Ret (Inl Canceled, t2\<lparr>f_reader := Some r2\<rparr>))"
    using t2(3) by (simp add: reader_call_def)
  with call re t2 assms(3,7) show ?thesis
    by (simp add: ftdi_ReadMessage_def note_disconnect_def disconnect_texts)
qed

theorem ftdi_read_after_close_reopens_witness:
  "\<exists>t0 t t'. NewFTDITransport (bench_usb None) 0 (0, []) DefaultFTDIConfig (Some both_callbacks) = (None, t0) \<and>
     t = snd (ftdi_Close t0) \<and> ftdi_ReadMessage 1 (bench_usb None) 0 (\<lambda>_. False) packets_read t = Some (Ret (Inl Canceled, t')) \<and>
     opened t = [] \<and> opened t' = complete 1 \<and> f_events t' = [Connected, Disconnected None, Connected]"
proof -
  obtain t0 where new: "NewFTDITransport (bench_usb None) 0 (0, []) DefaultFTDIConfig (Some both_callbacks) = (None, t0)"
    and t0: "f_events t0 = [Connected]" "f_handler t0 = Some both_callbacks" "contexts t0 = 1" "\<not> f_disconnected t0"
      "f_reader t0 = Some (NewMessageReader (fresh_endpoint []))"
    using new_bench [of 0 "(0, [])" DefaultFTDIConfig "Some both_callbacks"] by (auto simp: callback_simps)
  define t where "t = snd (ftdi_Close t0)"
  have inv: "resources_inv (bench_usb None) t" "holds None t"
    using ftdi_Close_resources [OF NewFTDITransport_resources [OF new]] by (simp_all add: t_def)
  have open_none: "opened t = []"
    using inv held_holds [of None t] by (simp add: resources_inv_def)
  have t: "f_done t" "f_handler t = Some both_callbacks" "contexts t = 1" "f_events t = [Connected, Disconnected None]"
    "f_reader t = Some (NewMessageReader ((fresh_endpoint [])\<lparr>er_done := True\<rparr>))"
    using t0
    by (simp_all add: t_def ftdi_Close_def cancel_context_def disconnect_once_def callback_simps NewMessageReader_def)
  have "\<exists>t'. ftdi_ReadMessage 1 (bench_usb None) 0 (\<lambda>_. False) packets_read t = Some (Ret (Inl Canceled, t')) \<and>
      opened t' = complete (contexts t) @ opened t \<and> f_events t' = f_events t @ [Connected]"
    by (rule ftdi_read_after_close_reopens [OF _ _ _ t(1) inv(2) t(2) t(5)])
      (simp_all add: packets_read.simps NewMessageReader_def reader_inv_def fresh_endpoint_def)
  with new open_none t show ?thesis
    by (auto simp: t_def)
qed

end
