(* ===== verification/Qdp_Broker_Props.thy ===== *)
theory Qdp_Broker_Props
  imports Qdp_Broker_Effects Qdp_Ftdi_Props
begin

text \<open>
  What the message broker guarantees: protocols only while it is the leader, one open protocol per
  entity, no notification left bound, valid references and no panic on the main thread, the
  subscriptions of a new protocol, the way of a message from the store to a transport and back; and
  where transports are lost: a leadership that ends before the queued connect task runs, and a
  transport that connects a second time.
\<close>

section \<open>A broker on the desk\<close>

text \<open>A store kept in memory.\<close>

record desk_store =
  d_types :: "string \<Rightarrow> string list"
  d_bool :: "string \<times> string \<Rightarrow> bool"
  d_int :: "string \<times> string \<Rightarrow> i64"
  d_string :: "string \<times> string \<Rightarrow> string"
  d_token :: nat

definition desk_ops :: "desk_store data_store" where
  "desk_ops =
     \<lparr>Execute = \<lambda>ty d. d_types d ty, ReadBool = \<lambda>e f d. d_bool d (e, f), ReadInt = \<lambda>e f d. d_int d (e, f),
      ReadString = \<lambda>e f d. d_string d (e, f), ReadEntityReference = \<lambda>e f d. d_string d (e, f),
      WriteBool = \<lambda>e f b d. d\<lparr>d_bool := (d_bool d)((e, f) := b)\<rparr>, WriteInt = \<lambda>e f i d. d\<lparr>d_int := (d_int d)((e, f) := i)\<rparr>,
      WriteString = \<lambda>e f s d. d\<lparr>d_string := (d_string d)((e, f) := s)\<rparr>,
      Notify = \<lambda>_ d. (d_token d, d\<lparr>d_token := Suc (d_token d)\<rparr>), Unbind = \<lambda>_ d. d\<rparr>"

lemma desk_ops_sel [simp]:
  "Execute desk_ops ty d = d_types d ty" "ReadBool desk_ops e f d = d_bool d (e, f)" "ReadInt desk_ops e f d = d_int d (e, f)"
  "ReadString desk_ops e f d = d_string d (e, f)" "ReadEntityReference desk_ops e f d = d_string d (e, f)"
  "WriteBool desk_ops e f b d = d\<lparr>d_bool := (d_bool d)((e, f) := b)\<rparr>"
  "WriteInt desk_ops e f i d = d\<lparr>d_int := (d_int d)((e, f) := i)\<rparr>"
  "WriteString desk_ops e f s d = d\<lparr>d_string := (d_string d)((e, f) := s)\<rparr>"
  "Notify desk_ops cfg d = (d_token d, d\<lparr>d_token := Suc (d_token d)\<rparr>)" "Unbind desk_ops t d = d"
  by (simp_all add: desk_ops_def)

lemma desk_contract [simp]: "store_contract desk_ops"
  by (simp add: store_contract_def)

text \<open>One enabled client transport and one topic on it, or one enabled FTDI transport.\<close>

definition desk_tcp :: desk_store where
  "desk_tcp =
     \<lparr>d_types = (\<lambda>_. [])(''QdpTcpTransport'' := [''tcp''], ''QdpTopic'' := [''top'']),
      d_bool = (\<lambda>_. False)((''tcp'', ''IsEnabled'') := True, (''tcp'', ''IsClient'') := True), d_int = (\<lambda>_. 0),
      d_string = (\<lambda>_. [])((''tcp'', ''Address'') := ''host:1'', (''top'', ''Topic'') := ''t'', (''top'', ''TransportReference'') := ''tcp''),
      d_token = 0\<rparr>"

definition desk_ftdi :: desk_store where
  "desk_ftdi =
     \<lparr>d_types = (\<lambda>_. [])(''QdpFtdiTransport'' := [''usb'']), d_bool = (\<lambda>_. False)((''usb'', ''IsEnabled'') := True),
      d_int = (\<lambda>_. 0), d_string = (\<lambda>_. []), d_token = 0\<rparr>"

text \<open>The transports: TCP clients on a connection that is always idle, and the FTDI device of the bench. The
  network refuses to listen.\<close>

type_synonym desk_transport = "unit tcp_client + (nat \<times> byte list list, byte list list, nat \<times> byte list list) ftdi"

definition desk_read :: "desk_transport transport_read" where
  "desk_read t = (case t of
     Inl c \<Rightarrow> map_option (\<lambda>out. go_bind out (\<lambda>(res, c). Ret (res, Inl c))) (client_ReadMessage 2 quiet_conn c)
   | Inr f \<Rightarrow> map_option (\<lambda>out. go_bind out (\<lambda>(res, f). Ret (res, Inr f)))
       (ftdi_ReadMessage 1 (bench_usb None) 0 (\<lambda>_. False) packets_read f))"

definition desk_write :: "desk_transport transport_write" where
  "desk_write msg t = (case t of
     Inl c \<Rightarrow> go_bind (client_WriteMessage quiet_conn msg c) (\<lambda>(err, c). Ret (err, Inl c))
   | Inr f \<Rightarrow> go_bind (ftdi_WriteMessage (bench_usb None) 0 (\<lambda>_. False) budget_write msg f) (\<lambda>(err, f). Ret (err, Inr f)))"

definition desk_close :: "desk_transport transport_close" where
  "desk_close t = (case t of
     Inl c \<Rightarrow> map_prod id Inl (client_Close quiet_conn c)
   | Inr f \<Rightarrow> map_prod id Inr (ftdi_Close f))"

definition desk_kit :: "(nat \<times> byte list list, desk_transport) transport_kit" where
  "desk_kit =
     \<lparr>kit_client = \<lambda>addr n. (map_sum id Inl (NewTCPClientTransport (\<lambda>_. Inr ()) addr (Some both_callbacks)), n),
      kit_server = \<lambda>addr n. (Inl (Wrapf ''failed to listen: '' (ErrText ''address already in use'')), n),
      kit_ftdi = \<lambda>cfg n. (case NewFTDITransport (bench_usb None) 0 n cfg (Some both_callbacks) of
         (Some e, _) \<Rightarrow> Inl e | (None, t) \<Rightarrow> Inr (Inr t), n),
      kit_read = desk_read, kit_write = desk_write, kit_close = desk_close,
      kit_events = case_sum client_events f_events\<rparr>"

lemma desk_kit_sel [simp]:
  "kit_client desk_kit addr n = (Inr (Inl \<lparr>client_reader = NewMessageReader (), client_handler = Some both_callbacks,
     client_done = False, client_disconnected = False, client_events = [Connected]\<rparr>), n)"
  "kit_read desk_kit = desk_read" "kit_write desk_kit = desk_write" "kit_close desk_kit = desk_close"
  "kit_events desk_kit (Inl c) = client_events c" "kit_events desk_kit (Inr f) = f_events f"
  by (simp_all add: desk_kit_def NewTCPClientTransport_def both_callbacks_def OnConnect_def)

lemmas broker_eval = OnBecameLeader_def teardown_def setup_broker_def notify_configs_def add_token_def split_beta Let_def
  setupTcpTransport_def setupFtdiTransport_def open_transport_def register_def write_bool_def

definition desk_client :: desk_transport where
  "desk_client = Inl \<lparr>client_reader = NewMessageReader (), client_handler = Some both_callbacks,
     client_done = False, client_disconnected = False, client_events = [Connected]\<rparr>"

definition desk_start :: "desk_store \<Rightarrow> (desk_store, nat \<times> byte list list, desk_transport) broker" where
  "desk_start d = Init (NewMessageBroker d (0, []))"

text \<open>The broker becomes the leader: the client is connected, its task is queued.\<close>

definition desk_leader :: "(desk_store, nat \<times> byte list list, desk_transport) broker" where
  "desk_leader = OnBecameLeader desk_ops desk_kit [] (desk_start desk_tcp)"

lemma desk_leader_eq:
  "desk_leader = \<lparr>b_store = desk_tcp\<lparr>d_bool := (d_bool desk_tcp)((''tcp'', ''IsConnected'') := False), d_token := 4\<rparr>, b_net = (0, []),
     isLeader = True, b_done = False, protocolsByEntity = Some (\<lambda>_. None), tokens = [0, 1, 2, 3], bound = [0, 1, 2, 3],
     queue = [ConnectTask ''tcp'' 0], transports = [(''tcp'', desk_client)], agents = [], closures = []\<rparr>"
  by (simp add: desk_leader_def desk_start_def Init_def NewMessageBroker_def broker_eval desk_tcp_def desk_client_def
      eval_nat_numeral)

lemma desk_leader_run: "broker_run desk_ops desk_kit (desk_start desk_tcp) [BecomeLeader] desk_leader"
proof -
  have "map_keys (desk_start desk_tcp) []"
    by (simp add: map_keys_def desk_start_def Init_def NewMessageBroker_def protocol_of_def)
  then show ?thesis
    using became_leader [of "desk_start desk_tcp" "[]" desk_ops desk_kit] by (simp add: desk_leader_def)
qed

text \<open>The queued task runs: the protocol of the client.\<close>

definition desk_session :: "message list \<Rightarrow> recv_pc \<Rightarrow> message list \<Rightarrow> nat session" where
  "desk_session ch pc ms =
     \<lparr>proto = \<lparr>transport = 0, subscribers = [\<lparr>sub_topic = ''t'', sub_handler = \<lparr>dyn = MessageRxHandlerFunc, ident = 0\<rparr>\<rparr>],
        msgCh = ch, msgHandler = \<lparr>OnMessageRxFunc = True, OnMessageTxFunc = True\<rparr>, own_ctx_done = False, calls = []\<rparr>,
      recv = pc, proc = PLoop, ctx_done = False, received = ms, handled = []\<rparr>"

definition desk_connected ::
  "desk_transport \<Rightarrow> nat session \<Rightarrow> (desk_store, nat \<times> byte list list, desk_transport) broker" where
  "desk_connected t s =
     \<lparr>b_store = desk_tcp\<lparr>d_bool := (d_bool desk_tcp)((''tcp'', ''IsConnected'') := True), d_token := 4\<rparr>, b_net = (0, []),
      isLeader = True, b_done = False, protocolsByEntity = Some ((\<lambda>_. None)(''tcp'' := Some 0)), tokens = [0, 1, 2, 3],
      bound = [0, 1, 2, 3], queue = [], transports = [(''tcp'', t)], agents = [\<lparr>ag_entity = ''tcp'', ag_session = s\<rparr>],
      closures = [''top'']\<rparr>"

lemma desk_connected_step:
  "broker_step desk_ops desk_kit desk_leader (RunTask 0) (desk_connected desk_client (desk_session [] RCheck []))"
  by (rule run_queued)
    (simp_all add: desk_leader_eq connect_task_def write_bool_def new_agent_def StartReceiving_def NewProtocol_def
      NewSubscriptionManager_def subscribe_topic_def protocol_Subscribe_def Subscribe_def desk_tcp_def desk_connected_def
      desk_session_def Let_def)

lemma desk_connected_run:
  "broker_run desk_ops desk_kit (desk_start desk_tcp) [BecomeLeader, RunTask 0] (desk_connected desk_client (desk_session [] RCheck []))"
  using desk_leader_run desk_connected_step by auto

text \<open>A message arrives on the connection and goes through the receive goroutine.\<close>

lemma desk_load: "load_session 0 (desk_connected t s) = with_protocol (with_transport t (proto s)) s" if "transport (proto s) = 0"
  using that by (simp add: load_session_def desk_connected_def Let_def)

lemma desk_store_session:
  assumes "calls (proto s') = calls (proto s)" "transport (proto s) = 0" "kit_events desk_kit (transport (proto s')) = kit_events desk_kit t"
  shows "store_session desk_ops desk_kit 0 s' (desk_connected t s) =
    desk_connected (transport (proto s')) (with_protocol (with_transport 0 (proto s')) s')"
  using assms by (simp add: store_session_def put_transport_def desk_connected_def Let_def)

definition busy_client :: "unit message_reader \<Rightarrow> desk_transport" where
  "busy_client r = Inl \<lparr>client_reader = r, client_handler = Some both_callbacks, client_done = False,
     client_disconnected = False, client_events = [Connected]\<rparr>"

lemma desk_read_message:
  "\<exists>r. desk_read (busy_client (sample_reader 0 (wire sample_msg) ())) = Some (Ret (Inr sample_msg, busy_client r))"
proof -
  let ?r = "sample_reader 0 (wire sample_msg) () :: unit message_reader"
  have inv: "reader_inv ?r"
    using length_wire_sample by (intro sample_reader_inv) simp
  have "unread ?r = wire sample_msg @ []"
    by (simp add: sample_reader_unread)
  from ReadMessage_buffered [OF inv sample_msg_limits this, of 0 "conn_Read quiet_conn"]
  obtain msg r' where "ReadMessage 2 (conn_Read quiet_conn) ?r = Some (Ret (Inr msg, r'))" "load r' msg = sample_msg"
    by (auto simp: numeral_2_eq_2)
  then show ?thesis
    by (simp add: desk_read_def busy_client_def client_ReadMessage_def client_read_default_def)
qed

lemma desk_agent_step:
  assumes "session_step desk_read desk_write desk_close (with_protocol (with_transport t (proto s)) s) e s'" "e \<in> {Recv, Proc}"
    "calls (proto s') = calls (proto s)" "transport (proto s) = 0" "kit_events desk_kit (transport (proto s')) = kit_events desk_kit t"
    "s2 = with_protocol (with_transport 0 (proto s')) s'"
  shows "broker_step desk_ops desk_kit (desk_connected t s) (AgentStep 0) (desk_connected (transport (proto s')) s2)"
  unfolding assms(6) desk_store_session [OF assms(3-5), symmetric]
proof (rule agent_step [OF _ assms(2)])
  show "0 < length (agents (desk_connected t s))"
    by (simp add: desk_connected_def)
  show "session_step (kit_read desk_kit) (kit_write desk_kit) (kit_close desk_kit) (load_session 0 (desk_connected t s)) e s'"
    using assms(1,4) by (simp add: desk_load)
qed

lemmas session_eval = desk_session_def with_protocol_def with_transport_def

lemma desk_received_run:
  "\<exists>r. broker_run desk_ops desk_kit (desk_start desk_tcp)
     [BecomeLeader, RunTask 0, TransportStep 0, AgentStep 0, AgentStep 0, AgentStep 0]
     (desk_connected (busy_client r) (desk_session [sample_msg] RCheck [sample_msg]))"
proof -
  let ?c = "busy_client (sample_reader 0 (wire sample_msg) ())"
  obtain r where r: "desk_read ?c = Some (Ret (Inr sample_msg, busy_client r))"
    using desk_read_message by blast
  have events: "kit_events desk_kit (busy_client q) = [Connected]" for q
    by (simp add: busy_client_def)
  have arrive: "broker_step desk_ops desk_kit (desk_connected desk_client (desk_session [] RCheck [])) (TransportStep 0)
      (desk_connected ?c (desk_session [] RCheck []))"
    using transport_step [of 0 "desk_connected desk_client (desk_session [] RCheck [])" desk_ops desk_kit ?c]
    by (simp add: desk_connected_def put_transport_def desk_client_def busy_client_def Let_def)
  have check: "broker_step desk_ops desk_kit (desk_connected ?c (desk_session [] RCheck [])) (AgentStep 0)
      (desk_connected ?c (desk_session [] RRead []))"
    using desk_agent_step [OF check_go [where s = "with_protocol (with_transport ?c (proto (desk_session [] RCheck []))) (desk_session [] RCheck [])"]]
    by (simp add: session_eval)
  let ?s = "with_protocol (with_transport ?c (proto (desk_session [] RRead []))) (desk_session [] RRead [])"
  have "ReceiveMessage desk_read (proto ?s) = Some (Ret (Inr sample_msg, (proto ?s)\<lparr>transport := busy_client r\<rparr>))"
    using r by (simp add: ReceiveMessage_def session_eval)
  from desk_agent_step [OF read_ok [OF _ this, where wr = desk_write and cl = desk_close]]
  have read: "broker_step desk_ops desk_kit (desk_connected ?c (desk_session [] RRead [])) (AgentStep 0)
      (desk_connected (busy_client r) (desk_session [] (RSend sample_msg) [sample_msg]))"
    by (simp add: session_eval events)
  have send: "broker_step desk_ops desk_kit (desk_connected (busy_client r) (desk_session [] (RSend sample_msg) [sample_msg])) (AgentStep 0)
      (desk_connected (busy_client r) (desk_session [sample_msg] RCheck [sample_msg]))"
    using desk_agent_step [OF send_ok [where m = sample_msg and
        s = "with_protocol (with_transport (busy_client r) (proto (desk_session [] (RSend sample_msg) [sample_msg]))) (desk_session [] (RSend sample_msg) [sample_msg])"]]
    by (simp add: session_eval)
  have "broker_step desk_ops desk_kit (desk_start desk_tcp) BecomeLeader desk_leader"
    using desk_leader_run by simp
  then show ?thesis
    using desk_connected_step arrive check read send by (blast intro: broker_run.intros)
qed

text \<open>An FTDI transport whose device does not answer: the receive goroutine reads, the transport
  reconnects and calls \<open>OnConnect\<close> a second time.\<close>

definition usb_connected ::
  "desk_transport \<Rightarrow> recv_pc \<Rightarrow> task list \<Rightarrow> (desk_store, nat \<times> byte list list, desk_transport) broker" where
  "usb_connected t pc q =
     \<lparr>b_store = desk_ftdi\<lparr>d_bool := (d_bool desk_ftdi)((''usb'', ''IsConnected'') := True), d_token := 4\<rparr>, b_net = (0, []),
      isLeader = True, b_done = False, protocolsByEntity = Some ((\<lambda>_. None)(''usb'' := Some 0)), tokens = [0, 1, 2, 3],
      bound = [0, 1, 2, 3], queue = q, transports = [(''usb'', t)],
      agents = [(new_agent ''usb'' 0 False)\<lparr>ag_session := (ag_session (new_agent ''usb'' 0 False))\<lparr>recv := pc\<rparr>\<rparr>], closures = []\<rparr>"

lemma usb_load:
  "load_session 0 (usb_connected t pc q) =
     (StartReceiving (NewProtocol t None (Some \<lparr>OnMessageRxFunc = True, OnMessageTxFunc = True\<rparr>)) False)\<lparr>recv := pc\<rparr>"
  by (simp add: load_session_def usb_connected_def new_agent_def StartReceiving_def NewProtocol_def with_protocol_def
      with_transport_def)

lemma usb_agent_step:
  assumes "session_step desk_read desk_write desk_close (load_session 0 (usb_connected t pc q)) Recv
      ((load_session 0 (usb_connected t pc q))\<lparr>proto := (proto (load_session 0 (usb_connected t pc q)))\<lparr>transport := t'\<rparr>, recv := pc'\<rparr>)"
    and "kit_events desk_kit t' = kit_events desk_kit t @ map (\<lambda>_. Connected) ns"
  shows "broker_step desk_ops desk_kit (usb_connected t pc q) (AgentStep 0)
    (usb_connected t' pc' (q @ map (\<lambda>_. ConnectTask ''usb'' 0) ns))"
proof -
  let ?s' = "(load_session 0 (usb_connected t pc q))\<lparr>proto := (proto (load_session 0 (usb_connected t pc q)))\<lparr>transport := t'\<rparr>, recv := pc'\<rparr>"
  have "store_session desk_ops desk_kit 0 ?s' (usb_connected t pc q) = usb_connected t' pc' (q @ map (\<lambda>_. ConnectTask ''usb'' 0) ns)"
    using assms(2) unfolding usb_load
    by (simp add: store_session_def put_transport_def usb_connected_def new_agent_def StartReceiving_def NewProtocol_def
        with_protocol_def with_transport_def Let_def comp_def)
  then show ?thesis
    using agent_step [of 0 "usb_connected t pc q" Recv desk_kit ?s' desk_ops] assms(1) by (simp add: usb_connected_def)
qed

lemma usb_reconnect_run:
  "\<exists>t. broker_run desk_ops desk_kit (desk_start desk_ftdi) [BecomeLeader, RunTask 0, AgentStep 0, AgentStep 0]
     (usb_connected t RErr [ConnectTask ''usb'' 0])"
proof -
  let ?cfg = "entity_ftdi_config desk_ops ''usb''
    (desk_ftdi\<lparr>d_bool := (d_bool desk_ftdi)((''usb'', ''IsConnected'') := False), d_token := 4\<rparr>)"
  obtain f where f: "NewFTDITransport (bench_usb None) 0 (0, []) ?cfg (Some both_callbacks) = (None, f)" "f_events f = [Connected]"
    using new_bench [of 0 "(0, [])" ?cfg "Some both_callbacks"] by (auto simp: callback_simps)
  obtain f' where f': "desk_read (Inr f) = Some (Ret (Inl EOF, Inr f'))" "f_events f' = [Connected, Connected]"
    using bench_read_unplugged [OF _ f(1), of "\<lambda>_. False"] f(2) by (auto simp: desk_read_def)
  let ?w = "OnBecameLeader desk_ops desk_kit [] (desk_start desk_ftdi)"
  have w: "?w = \<lparr>b_store = desk_ftdi\<lparr>d_bool := (d_bool desk_ftdi)((''usb'', ''IsConnected'') := False), d_token := 4\<rparr>, b_net = (0, []),
     isLeader = True, b_done = False, protocolsByEntity = Some (\<lambda>_. None), tokens = [0, 1, 2, 3], bound = [0, 1, 2, 3],
     queue = [ConnectTask ''usb'' 0], transports = [(''usb'', Inr f)], agents = [], closures = []\<rparr>"
    using f
    by (simp add: desk_start_def Init_def NewMessageBroker_def broker_eval desk_ftdi_def eval_nat_numeral desk_kit_def)
  have "map_keys (desk_start desk_ftdi) []"
    by (simp add: map_keys_def desk_start_def Init_def NewMessageBroker_def protocol_of_def)
  then have lead: "broker_step desk_ops desk_kit (desk_start desk_ftdi) BecomeLeader ?w"
    by (rule became_leader)
  have conn: "broker_step desk_ops desk_kit ?w (RunTask 0) (usb_connected (Inr f) RCheck [])"
    unfolding w
    by (rule run_queued)
      (simp_all add: connect_task_def write_bool_def usb_connected_def desk_ftdi_def new_agent_def StartReceiving_def Let_def)
  have check: "broker_step desk_ops desk_kit (usb_connected (Inr f) RCheck []) (AgentStep 0) (usb_connected (Inr f) RRead [])"
    using usb_agent_step [where t = "Inr f" and pc = RCheck and q = "[]" and t' = "Inr f" and pc' = RRead and ns = "[]"]
      check_go [of "load_session 0 (usb_connected (Inr f) RCheck [])" desk_read desk_write desk_close]
    by (simp add: usb_load StartReceiving_def NewProtocol_def)
  have "ReceiveMessage desk_read (proto (load_session 0 (usb_connected (Inr f) RRead []))) =
      Some (Ret (Inl EOF, (proto (load_session 0 (usb_connected (Inr f) RRead [])))\<lparr>transport := Inr f'\<rparr>))"
    using f' by (simp add: usb_load ReceiveMessage_def StartReceiving_def NewProtocol_def)
  then have read: "broker_step desk_ops desk_kit (usb_connected (Inr f) RRead []) (AgentStep 0)
      (usb_connected (Inr f') RErr [ConnectTask ''usb'' 0])"
    using usb_agent_step [where t = "Inr f" and pc = RRead and q = "[]" and t' = "Inr f'" and pc' = RErr and ns = "[0]"] f(2) f'(2)
      read_err [of "load_session 0 (usb_connected (Inr f) RRead [])" desk_read EOF _ desk_write desk_close]
    by (simp add: usb_load)
  show ?thesis
    using lead conn check read by (blast intro: broker_run.intros)
qed

section \<open>Properties\<close>

lemma desk_start_ok: "broker_ok (desk_start d)"
  unfolding desk_start_def by (rule Init_ok)

lemma reachable_ok: "broker_run st k (Init (NewMessageBroker d n)) es w \<Longrightarrow> broker_ok w"
  by (rule broker_run_ok [OF _ Init_ok])

text \<open>C16. In every state the broker can reach, whatever the order of leadership changes, notifications,
  tasks and goroutines: an entry of \<open>protocolsByEntity\<close> is an open protocol of that entity, there are
  entries only while the broker is the leader, the bound notifications are the ones in \<open>tokens\<close>, and
  these are four on a leader that was not shut down and none on a follower.\<close>

theorem broker_roles:
  assumes "broker_run st k (Init (NewMessageBroker d n)) es w"
  shows "(\<forall>ent pid. protocol_of w ent = Some pid \<longrightarrow>
      isLeader w \<and> pid < length (agents w) \<and> ag_entity (agents w ! pid) = ent \<and>
      \<not> own_ctx_done (proto (ag_session (agents w ! pid)))) \<and>
    bound w = tokens w \<and> (\<not> isLeader w \<longrightarrow> bound w = []) \<and> (isLeader w \<and> Shutdown \<notin> set es \<longrightarrow> length (bound w) = 4)"
proof -
  have ok: "broker_ok w"
    using assms by (rule reachable_ok)
  have "\<not> b_done w" if "Shutdown \<notin> set es"
    using broker_run_done [OF assms Init_ok that] by (simp add: Init_def NewMessageBroker_def)
  with ok show ?thesis
    by (auto simp: broker_ok_def links_ok_def split: if_splits)
qed

theorem broker_roles_witness:
  "broker_run desk_ops desk_kit (desk_start desk_tcp) [BecomeLeader, RunTask 0] (desk_connected desk_client (desk_session [] RCheck [])) \<and>
   length (bound (desk_connected desk_client (desk_session [] RCheck []))) = 4"
proof -
  note run = desk_connected_run
  from broker_roles [OF run [unfolded desk_start_def]] run show ?thesis
    by (simp add: desk_connected_def)
qed

text \<open>C25. The objects stay well-typed and the main thread does not panic: in every reachable state a protocol
  refers to a transport of its own entity, a subscription handler to a topic entity, and every queued
  task, whenever it runs, returns.\<close>

theorem broker_references:
  assumes "broker_run st k (Init (NewMessageBroker d n)) es w"
  shows "(\<forall>a \<in> set (agents w). \<exists>t. transport (proto (ag_session a)) < length (transports w) \<and>
      transports w ! transport (proto (ag_session a)) = (ag_entity a, t) \<and>
      (\<forall>sub \<in> set (subscribers (proto (ag_session a))). ident (sub_handler sub) < length (closures w))) \<and>
    (\<forall>i < length (queue w). \<exists>w'. broker_step st k w (RunTask i) w')"
proof -
  have ok: "broker_ok w"
    using assms by (rule reachable_ok)
  have "\<exists>w'. broker_step st k w (RunTask i) w'" if "i < length (queue w)" for i
    using run_task_ok [OF dequeued_ok [OF ok that], of st k] run_queued [OF that] by blast
  moreover have "agent_ok (entities w) (length (closures w)) a" if "a \<in> set (agents w)" for a
    using ok that by (simp add: broker_ok_def heap_ok_def)
  ultimately show ?thesis
    by (fastforce simp: agent_ok_def entities_def Let_def intro: prod_eqI)
qed

theorem broker_references_witness:
  "broker_run desk_ops desk_kit (desk_start desk_tcp) [BecomeLeader] desk_leader \<and>
   (\<exists>w'. broker_step desk_ops desk_kit desk_leader (RunTask 0) w')"
proof -
  note run = desk_leader_run
  from broker_references [OF run [unfolded desk_start_def]] run show ?thesis
    by (simp add: desk_leader_eq)
qed

text \<open>C24. Losing the leadership closes everything the broker manages: afterwards the map is empty and no
  notification is bound, and every protocol that was in the map has its context cancelled and its
  transport closed, in whatever order the map is iterated.\<close>

theorem losing_leadership_closes:
  assumes "broker_run st k (Init (NewMessageBroker d n)) es w" and "\<And>t. is_shut (snd (kit_close k t))"
    and "broker_step st k w LoseLeadership w'"
  shows "(\<forall>ent. protocol_of w' ent = None) \<and> bound w' = [] \<and>
    (\<forall>ent pid. protocol_of w ent = Some pid \<longrightarrow>
       own_ctx_done (proto (ag_session (agents w' ! pid))) \<and>
       is_shut (snd (transports w' ! transport (proto (ag_session (agents w ! pid))))))"
proof -
  have ok: "broker_ok w"
    using assms(1) by (rule reachable_ok)
  obtain ids where ids: "map_keys w ids" "w' = OnLosingLeadership st k ids w"
    using assms(3) by (auto elim: broker_step.cases)
  let ?w = "w\<lparr>isLeader := False\<rparr>"
  have sel: "protocol_of ?w = protocol_of w" "agents ?w = agents w" "transports ?w = transports w"
    by (simp_all add: protocol_of_def [abs_def])
  obtain d b where w': "w' = (close_all st k ids ?w)\<lparr>b_store := d, bound := b, tokens := []\<rparr>"
    using unbind_fold [of st "tokens (close_all st k ids ?w)" "close_all st k ids ?w"] ids(2)
    by (auto simp: OnLosingLeadership_def teardown_def Let_def)
  note closed = close_all_closed [OF broker_ok_tear(3,4) [OF ok, of False], of is_shut k, OF assms(2), where st = st and ids = ids]
  have "own_ctx_done (proto (ag_session (agents w' ! pid))) \<and> is_shut (snd (transports w' ! transport (proto (ag_session (agents w ! pid)))))"
    if "protocol_of w ent = Some pid" for ent pid
  proof -
    have "ent \<in> set ids"
      using ids(1) that by (simp add: map_keys_def)
    then show ?thesis
      using closed that agent_handler(2) [OF ok broker_ok_links [OF ok that]] unfolding w' sel by auto
  qed
  moreover have "protocol_of w' = (\<lambda>_. None)" "bound w' = []"
    using teardown_ok(2,4) [OF ok ids(1), of st k False] ids(2) by (simp_all add: OnLosingLeadership_def)
  ultimately show ?thesis
    by simp
qed

definition desk_shut :: "desk_transport \<Rightarrow> bool" where
  "desk_shut t = (case t of Inl c \<Rightarrow> client_done c | Inr f \<Rightarrow> f_done f)"

lemma desk_close_shut: "desk_shut (snd (desk_close t))"
  by (cases t)
    (simp_all add: desk_shut_def desk_close_def client_Close_def client_disconnect_def set_conn_def ftdi_Close_def
      cancel_context_def split_beta Let_def)

theorem losing_leadership_closes_witness:
  "\<exists>w'. broker_step desk_ops desk_kit (desk_connected desk_client (desk_session [] RCheck [])) LoseLeadership w' \<and>
     desk_shut (snd (transports w' ! 0)) \<and> bound w' = []"
proof -
  let ?w = "desk_connected desk_client (desk_session [] RCheck [])"
  have "map_keys ?w [''tcp'']"
    by (auto simp: map_keys_def desk_connected_def protocol_of_def)
  then have step: "broker_step desk_ops desk_kit ?w LoseLeadership (OnLosingLeadership desk_ops desk_kit [''tcp''] ?w)"
    by (rule losing_leadership)
  have w: "protocol_of ?w ''tcp'' = Some 0" "transport (proto (ag_session (agents ?w ! 0))) = 0"
    by (simp_all add: desk_connected_def protocol_of_def desk_session_def)
  have shut: "desk_shut (snd (kit_close desk_kit t))" for t
    by (simp add: desk_close_shut)
  note lost = losing_leadership_closes [OF desk_connected_run [unfolded desk_start_def], of desk_shut, OF shut step]
  have "desk_shut (snd (transports (OnLosingLeadership desk_ops desk_kit [''tcp''] ?w) ! 0))"
    using conjunct2 [OF conjunct2 [OF lost], THEN spec, THEN spec, THEN mp, OF w(1)] w(2) by simp
  with lost step show ?thesis
    by blast
qed

text \<open>C23. A connected transport gets its protocol and its subscriptions: when the connect task runs on the
  leader, \<open>protocolsByEntity\<close> maps the entity to a new protocol on that transport, whose subscriptions are
  exactly the topics of the \<open>QdpTopic\<close> entities that refer to the transport, each with a handler that
  writes the fields of its own topic entity.\<close>

theorem connect_task_subscribes:
  assumes "broker_run st k (Init (NewMessageBroker d n)) es w" and "isLeader w"
    and "i < length (queue w)" and "queue w ! i = ConnectTask ent tid"
  shows "\<exists>w' pid. broker_step st k w (RunTask i) w' \<and> protocol_of w' ent = Some pid \<and>
    transport (proto (ag_session (agents w' ! pid))) = tid \<and>
    topic_view w' pid = (let d = WriteBool st ent ''IsConnected'' True (b_store w) in
      map (\<lambda>t. (ReadString st t ''Topic'' d, t))
        (filter (\<lambda>t. ReadEntityReference st t ''TransportReference'' d = ent) (Execute st ''QdpTopic'' d)))"
proof -
  let ?w = "w\<lparr>queue := take i (queue w) @ drop (Suc i) (queue w)\<rparr>"
  note dequeued = dequeued_ok [OF reachable_ok [OF assms(1)] assms(3)]
  obtain w' where "connect_task st ent tid ?w = Ret w'" "protocol_of w' ent = Some (length (agents ?w))"
    "transport (proto (ag_session (agents w' ! length (agents ?w)))) = tid"
    "topic_view w' (length (agents ?w)) = (let d = WriteBool st ent ''IsConnected'' True (b_store ?w) in
      map (\<lambda>t. (ReadString st t ''Topic'' d, t))
        (filter (\<lambda>t. ReadEntityReference st t ''TransportReference'' d = ent) (Execute st ''QdpTopic'' d)))"
    using connect_task_leader [OF dequeued(1), of ent tid st] dequeued(2) assms(2,4) by auto
  moreover from this(1) have "broker_step st k w (RunTask i) w'"
    using run_queued [OF assms(3), of st k w'] assms(4) by simp
  ultimately show ?thesis
    by auto
qed

theorem connect_task_subscribes_witness:
  "\<exists>w' pid. broker_step desk_ops desk_kit desk_leader (RunTask 0) w' \<and> protocol_of w' ''tcp'' = Some pid \<and>
     topic_view w' pid = [(''t'', ''top'')]"
  using connect_task_subscribes [OF desk_leader_run [unfolded desk_start_def], of 0 "''tcp''" 0]
  by (simp add: desk_leader_eq desk_tcp_def Let_def) blast

lemma onTxMessage_transport:
  assumes "broker_ok w" "protocol_of w ent = Some pid" "transports w ! transport (proto (ag_session (agents w ! pid))) = (ent, t)"
    and "kit_write k \<lparr>Topic = topic, Payload = string_bytes payload\<rparr> t = Ret (err, t')" "kit_events k t' = kit_events k t"
  shows "\<exists>w'. onTxMessage st k payload topic ent w = Ret w' \<and> b_store w' = b_store w \<and>
    transports w' = (transports w)[transport (proto (ag_session (agents w ! pid))) := (ent, t')] \<and>
    queue w' = queue w @ (if err = None then [TxTask ent \<lparr>Topic = topic, Payload = string_bytes payload\<rparr>] else [])"
proof -
  let ?p = "proto (ag_session (agents w ! pid))"
  note handler = agent_handler [OF assms(1) broker_ok_links [OF assms(1,2)]]
  have entity: "ag_entity (agents w ! pid) = ent"
    using assms(3) handler(3) by simp
  have load: "proto (load_session pid w) = with_transport t ?p"
    using assms(3) by (simp add: load_session_def with_protocol_def Let_def)
  show ?thesis
    using assms(2-) handler entity
    by (auto simp: onTxMessage_def SendMessage_def load Let_def store_session_def put_transport_quiet with_transport_def
        MessageHandler_OnMessageTx_def)
qed

text \<open>The way of a message out: a change of \<open>TxMessage\<close> writes one message, with the topic and the bytes of
  the text, to the transport of the entity referred to, and on success queues one task that counts it;
  without a protocol for the entity nothing is sent and nothing changes.\<close>

theorem onTxMessage_sends:
  assumes "broker_run st k (Init (NewMessageBroker d n)) es w"
  shows "(protocol_of w ent = None \<longrightarrow> onTxMessage st k payload topic ent w = Ret w) \<and>
    (\<forall>pid t t' err. protocol_of w ent = Some pid \<and> transports w ! transport (proto (ag_session (agents w ! pid))) = (ent, t) \<and>
       kit_write k \<lparr>Topic = topic, Payload = string_bytes payload\<rparr> t = Ret (err, t') \<and> kit_events k t' = kit_events k t \<longrightarrow>
       (\<exists>w'. onTxMessage st k payload topic ent w = Ret w' \<and> b_store w' = b_store w \<and>
          transports w' = (transports w)[transport (proto (ag_session (agents w ! pid))) := (ent, t')] \<and>
          queue w' = queue w @ (if err = None then [TxTask ent \<lparr>Topic = topic, Payload = string_bytes payload\<rparr>] else [])))"
proof (intro conjI allI impI)
  show "protocol_of w ent = None \<Longrightarrow> onTxMessage st k payload topic ent w = Ret w"
    by (simp add: onTxMessage_def)
qed (use onTxMessage_transport [OF reachable_ok [OF assms]] in blast)

theorem onTxMessage_sends_witness:
  "\<exists>w'. onTxMessage desk_ops desk_kit ''hi'' ''t'' ''tcp'' (desk_connected desk_client (desk_session [] RCheck [])) = Ret w' \<and>
     queue w' = [TxTask ''tcp'' \<lparr>Topic = ''t'', Payload = string_bytes ''hi''\<rparr>]"
proof -
  let ?w = "desk_connected desk_client (desk_session [] RCheck [])" and ?m = "\<lparr>Topic = ''t'', Payload = string_bytes ''hi''\<rparr>"
  have "within_limits ?m"
    by (simp add: within_limits_def)
  then have "write_frame ?m = Ret (wire ?m)"
    by (simp add: write_frame_wire within_limits_fits)
  then have "desk_write ?m desk_client = Ret (None, desk_client)"
    by (simp add: desk_write_def desk_client_def client_WriteMessage_def writeMessage_def quiet_conn_def set_conn_def
        NewMessageReader_def)
  moreover have "protocol_of ?w ''tcp'' = Some 0" "transports ?w ! transport (proto (ag_session (agents ?w ! 0))) = (''tcp'', desk_client)"
    by (simp_all add: desk_connected_def protocol_of_def desk_session_def)
  ultimately show ?thesis
    using onTxMessage_sends [OF desk_connected_run [unfolded desk_start_def], of "''tcp''" "''hi''" "''t''"]
    by (auto simp: desk_connected_def)
qed

text \<open>The way of a message in: when the goroutine of a protocol handles a received message, the payload is
  in \<open>RxMessage\<close> and in \<open>RxMessageFn\<close> of every topic entity whose subscription matches the topic, and
  exactly one task is queued, which counts the message.\<close>

theorem received_message_stored:
  assumes "broker_run st k (Init (NewMessageBroker d n)) es w" and "store_contract st" and "pid < length (agents w)"
    and "proc (ag_session (agents w ! pid)) = PLoop" and "msgCh (proto (ag_session (agents w ! pid))) = m # ms"
  shows "\<exists>w'. broker_step st k w (AgentStep pid) w' \<and> queue w' = queue w @ [RxTask (ag_entity (agents w ! pid)) m] \<and>
    (\<forall>sub \<in> set (subscribers (proto (ag_session (agents w ! pid)))). matchTopic (sub_topic sub) (Topic m) \<longrightarrow>
       ReadString st (closures w ! ident (sub_handler sub)) ''RxMessage'' (b_store w') = bytes_string (Payload m) \<and>
       ReadString st (closures w ! ident (sub_handler sub)) ''RxMessageFn'' (b_store w') = bytes_string (Payload m))"
proof -
  let ?s = "load_session pid w"
  have "session_step (kit_read k) (kit_write k) (kit_close k) ?s Proc
      (?s\<lparr>proto := handleMessage ((proto ?s)\<lparr>msgCh := ms\<rparr>) m, handled := handled ?s @ [m]\<rparr>)"
    using assms(4,5) by (intro proc_msg) (simp_all add: load_session_def with_protocol_def with_transport_def Let_def)
  then have "broker_step st k w (AgentStep pid)
      (store_session st k pid (?s\<lparr>proto := handleMessage ((proto ?s)\<lparr>msgCh := ms\<rparr>) m, handled := handled ?s @ [m]\<rparr>) w)"
    using agent_step [OF assms(3), of Proc] by simp
  then show ?thesis
    using handled_message_effect [OF reachable_ok [OF assms(1)] assms(3,2) refl refl, where k = k and m = m and ms = ms and hs = "handled ?s @ [m]"] by blast
qed

theorem received_message_stored_witness:
  "\<exists>r w'. broker_step desk_ops desk_kit (desk_connected (busy_client r) (desk_session [sample_msg] RCheck [sample_msg])) (AgentStep 0) w' \<and>
     queue w' = [RxTask ''tcp'' sample_msg] \<and> d_string (b_store w') (''top'', ''RxMessage'') = bytes_string [7]"
proof -
  obtain r where run: "broker_run desk_ops desk_kit (Init (NewMessageBroker desk_tcp (0, [])))
     [BecomeLeader, RunTask 0, TransportStep 0, AgentStep 0, AgentStep 0, AgentStep 0]
     (desk_connected (busy_client r) (desk_session [sample_msg] RCheck [sample_msg]))"
    using desk_received_run unfolding desk_start_def by blast
  have "matchTopic ''t'' ''t''"
    by code_simp
  then show ?thesis
    using received_message_stored [OF run desk_contract, of 0 sample_msg "[]"]
    by (auto simp: desk_connected_def desk_session_def sample_msg_def)
qed

lemma WriteInt_same:
  assumes "store_contract st"
  shows "ReadInt st e' f' (WriteInt st e f v d) = (if e' = e \<and> f' = f then v else ReadInt st e' f' d)"
proof -
  have "ReadInt st e' f' (WriteInt st e f v d) = (if (e', f') = (e, f) then v else ReadInt st e' f' d)"
    using assms unfolding store_contract_def by blast
  then show ?thesis
    by simp
qed

text \<open>The counters: a counting task that runs on the leader adds one to its counter, modulo \<open>2^64\<close>, and
  changes no other integer field; on a follower it changes nothing.\<close>

theorem counters_count:
  assumes "store_contract st" and "queue w ! i = RxTask ent m \<and> field = ''TotalReceived'' \<or> queue w ! i = TxTask ent m \<and> field = ''TotalSent''"
    and "broker_step st k w (RunTask i) w'"
  shows "ReadInt st e f (b_store w') =
    (if isLeader w \<and> (e, f) = (ent, field) then ReadInt st ent field (b_store w) + 1 else ReadInt st e f (b_store w))"
proof -
  have "run_task st k (queue w ! i) (w\<lparr>queue := take i (queue w) @ drop (Suc i) (queue w)\<rparr>) = Ret w'"
    using assms(3) by (auto elim: broker_step.cases)
  then show ?thesis
    using assms(2) WriteInt_same [OF assms(1)] by (auto simp: count_task_def split: if_splits)
qed

theorem counters_count_witness:
  "\<exists>w w'. queue w = [RxTask ''tcp'' sample_msg] \<and> broker_step desk_ops desk_kit w (RunTask 0) w' \<and>
     d_int (b_store w') (''tcp'', ''TotalReceived'') = 1"
proof -
  let ?w = "(desk_connected desk_client (desk_session [] RCheck []))\<lparr>queue := [RxTask ''tcp'' sample_msg]\<rparr>"
  have "broker_step desk_ops desk_kit ?w (RunTask 0)
      (count_task desk_ops ''tcp'' ''TotalReceived'' (?w\<lparr>queue := []\<rparr>))"
    by (rule run_queued) simp_all
  moreover from counters_count [OF desk_contract _ this, of "''tcp''" sample_msg "''TotalReceived''" "''tcp''" "''TotalReceived''"]
  have "d_int (b_store (count_task desk_ops ''tcp'' ''TotalReceived'' (?w\<lparr>queue := []\<rparr>))) (''tcp'', ''TotalReceived'') = 1"
    by (simp add: desk_connected_def desk_tcp_def)
  ultimately show ?thesis
    by (intro exI [of _ ?w] exI [of _ "count_task desk_ops ''tcp'' ''TotalReceived'' (?w\<lparr>queue := []\<rparr>)"] conjI) simp_all
qed

text \<open>A leadership that ends too early leaks a transport: when the connect task of a transport runs after the
  broker has lost the leadership, the task does nothing, and since the task held the only reference,
  no later handler, task or shutdown of the broker ever closes or uses the transport.\<close>

theorem early_loss_leaks_transport:
  assumes "broker_run st k (Init (NewMessageBroker d n)) es w" and "\<not> isLeader w"
    and "i < length (queue w)" and "queue w ! i = ConnectTask ent tid"
    and "\<forall>j ent'. j < length (queue w) \<and> j \<noteq> i \<longrightarrow> queue w ! j \<noteq> ConnectTask ent' tid"
    and "\<forall>a \<in> set (agents w). transport (proto (ag_session a)) \<noteq> tid"
    and "broker_step st k w (RunTask i) w1" and "broker_run st k w1 es' w2" and "TransportStep tid \<notin> set es'"
  shows "transports w2 ! tid = transports w ! tid \<and> (\<forall>a \<in> set (agents w2). transport (proto (ag_session a)) \<noteq> tid)"
proof -
  let ?q = "take i (queue w) @ drop (Suc i) (queue w)"
  have ok: "broker_ok w"
    using assms(1) by (rule reachable_ok)
  have w1: "w1 = w\<lparr>queue := ?q\<rparr>"
    using assms(2,4,7) by (auto elim: broker_step.cases simp: connect_task_def)
  have "ConnectTask ent' tid \<notin> set ?q" for ent'
    using assms(3,5) by (auto simp: in_set_conv_nth)
  moreover have "tid < length (transports w)"
    using dequeued_ok(2) [OF ok assms(3)] assms(4) by (simp add: entities_def)
  ultimately have "orphan tid w1"
    using assms(6) by (simp add: orphan_def w1)
  then have "orphan tid w2 \<and> transports w2 ! tid = transports w1 ! tid"
    using broker_run_orphan [OF assms(8) broker_step_ok [OF assms(7) ok] assms(9)] by (simp add: leaves_orphan_def)
  then show ?thesis
    by (simp add: orphan_def w1)
qed

theorem early_loss_leaks_transport_witness:
  "\<exists>w w1 w2. broker_run desk_ops desk_kit (desk_start desk_tcp) [BecomeLeader, LoseLeadership] w \<and>
     broker_step desk_ops desk_kit w (RunTask 0) w1 \<and> broker_run desk_ops desk_kit w1 [Shutdown] w2 \<and>
     transports w2 ! 0 = (''tcp'', desk_client) \<and> \<not> desk_shut desk_client"
proof -
  let ?w = "OnLosingLeadership desk_ops desk_kit [] desk_leader"
  have keys: "map_keys desk_leader []"
    by (simp add: map_keys_def desk_leader_eq protocol_of_def)
  then have "broker_step desk_ops desk_kit desk_leader LoseLeadership ?w"
    by (rule losing_leadership)
  then have run: "broker_run desk_ops desk_kit (desk_start desk_tcp) [BecomeLeader, LoseLeadership] ?w"
    using desk_leader_run by auto
  have w: "\<not> isLeader ?w" "queue ?w = [ConnectTask ''tcp'' 0]" "agents ?w = []" "transports ?w = [(''tcp'', desk_client)]"
    "protocolsByEntity ?w = Some (\<lambda>_. None)"
    by (simp_all add: OnLosingLeadership_def teardown_def desk_leader_eq unbind_token_def)
  have step: "broker_step desk_ops desk_kit ?w (RunTask 0) (?w\<lparr>queue := []\<rparr>)"
    by (rule run_queued) (simp_all add: w connect_task_def)
  have "map_keys (?w\<lparr>queue := []\<rparr>) []"
    by (simp add: map_keys_def protocol_of_def w)
  then have "broker_step desk_ops desk_kit (?w\<lparr>queue := []\<rparr>) Shutdown (Deinit desk_ops desk_kit [] (?w\<lparr>queue := []\<rparr>))"
    by (rule deinit)
  then have down: "broker_run desk_ops desk_kit (?w\<lparr>queue := []\<rparr>) [Shutdown] (Deinit desk_ops desk_kit [] (?w\<lparr>queue := []\<rparr>))"
    by simp
  have "transports (Deinit desk_ops desk_kit [] (?w\<lparr>queue := []\<rparr>)) ! 0 = transports ?w ! 0"
  proof (rule conjunct1 [OF early_loss_leaks_transport [OF run [unfolded desk_start_def] w(1) _ _ _ _ step down]])
    show "queue ?w ! 0 = ConnectTask ''tcp'' 0"
      by (simp add: w)
  qed (auto simp: w)
  then have "transports (Deinit desk_ops desk_kit [] (?w\<lparr>queue := []\<rparr>)) ! 0 = (''tcp'', desk_client)"
    by (simp add: w)
  moreover have "\<not> desk_shut desk_client"
    by (simp add: desk_shut_def desk_client_def)
  ultimately show ?thesis
    using run step down by blast
qed

text \<open>A transport that connects a second time, as an FTDI transport does after every reconnect, gets a second
  protocol: the connect task overwrites the entry of the map, and the first protocol is neither closed
  nor stopped, although nothing refers to it any more.\<close>

theorem second_connect_orphans_protocol:
  assumes "broker_run st k (Init (NewMessageBroker d n)) es w" and "protocol_of w ent = Some old"
    and "i < length (queue w)" and "queue w ! i = ConnectTask ent tid"
  shows "\<exists>w' new. broker_step st k w (RunTask i) w' \<and> protocol_of w' ent = Some new \<and> new \<noteq> old \<and>
    transport (proto (ag_session (agents w' ! new))) = tid \<and> agents w' ! old = agents w ! old \<and>
    \<not> own_ctx_done (proto (ag_session (agents w' ! old)))"
proof -
  let ?w = "w\<lparr>queue := take i (queue w) @ drop (Suc i) (queue w)\<rparr>"
  have ok: "broker_ok w"
    using assms(1) by (rule reachable_ok)
  note dequeued = dequeued_ok [OF ok assms(3)]
  have old: "isLeader w" "old < length (agents w)" "\<not> own_ctx_done (proto (ag_session (agents w ! old)))"
    using ok assms(2) by (auto simp: broker_ok_def links_ok_def split: if_splits)
  obtain w' where "connect_task st ent tid ?w = Ret w'" "protocol_of w' ent = Some (length (agents w))"
    "\<forall>n < length (agents w). agents w' ! n = agents w ! n" "transport (proto (ag_session (agents w' ! length (agents w)))) = tid"
    using connect_task_leader [OF dequeued(1), of ent tid st] dequeued(2) assms(4) old(1) by auto
  moreover from this(1) have "broker_step st k w (RunTask i) w'"
    using run_queued [OF assms(3), of st k w'] assms(4) by simp
  ultimately show ?thesis
    using old(2,3) by auto
qed

theorem second_connect_orphans_protocol_witness:
  "\<exists>t w' new. broker_step desk_ops desk_kit (usb_connected t RErr [ConnectTask ''usb'' 0]) (RunTask 0) w' \<and>
     protocol_of w' ''usb'' = Some new \<and> new \<noteq> 0 \<and> transport (proto (ag_session (agents w' ! new))) = 0 \<and>
     transport (proto (ag_session (agents w' ! 0))) = 0 \<and> recv (ag_session (agents w' ! 0)) = RErr"
proof -
  obtain t where run: "broker_run desk_ops desk_kit (Init (NewMessageBroker desk_ftdi (0, [])))
     [BecomeLeader, RunTask 0, AgentStep 0, AgentStep 0] (usb_connected t RErr [ConnectTask ''usb'' 0])"
    using usb_reconnect_run unfolding desk_start_def by blast
  have "protocol_of (usb_connected t RErr [ConnectTask ''usb'' 0]) ''usb'' = Some 0"
    by (simp add: protocol_of_def usb_connected_def)
  from second_connect_orphans_protocol [OF run this, of 0 0]
  obtain w' new where "broker_step desk_ops desk_kit (usb_connected t RErr [ConnectTask ''usb'' 0]) (RunTask 0) w'"
    "protocol_of w' ''usb'' = Some new" "new \<noteq> 0" "transport (proto (ag_session (agents w' ! new))) = 0"
    "agents w' ! 0 = agents (usb_connected t RErr [ConnectTask ''usb'' 0]) ! 0"
    by (auto simp: usb_connected_def)
  then show ?thesis
    by (intro exI [of _ t] exI [of _ w'] exI [of _ new])
      (simp add: usb_connected_def new_agent_def StartReceiving_def NewProtocol_def)
qed

end
