(* ===== verification/Qdp_Main.thy ===== *)
theory Qdp_Main
  imports Qdp_Broker_Props
begin

text \<open>
  \<open>main.go\<close>: the address of the data store, the fields that the program asks the schema validator of the
  leadership worker to require, and the wiring of the workers. What \<open>main\<close> does with the foreign package \<open>qlib\<close> is
  the list of its calls. A signal of \<open>qlib\<close> calls the slots connected to it in the order of the
  connections; the application calls \<open>Init\<close> of a worker first, and the slots of the broker run on the main
  thread. The theorem on the wiring holds for every sequence of signals and other events.
\<close>

definition getStoreAddress :: "string \<Rightarrow> string" where
  "getStoreAddress q_addr = (let addr = q_addr in if addr = '''' then ''ws://webgateway:20000/ws'' else addr)"

definition registered_fields :: "(string \<times> string list) list" where
  "registered_fields =
     [(''QdpController'', []),
      (''QdpTcpTransport'', [''Address'', ''IsClient'', ''IsEnabled'', ''IsConnected'', ''TotalReceived'', ''TotalSent'']),
      (''QdpFtdiTransport'',
        [''VendorID'', ''ProductID'', ''Interface'', ''ReadEndpoint'', ''WriteEndpoint'', ''BaudRate'', ''DataBits'', ''StopBits'',
         ''Parity'', ''FlowControl'', ''IsEnabled'', ''IsConnected'', ''TotalReceived'', ''TotalSent'']),
      (''QdpTopic'', [''Topic'', ''TransportReference'', ''TxMessage'', ''RxMessage'', ''RxMessageFn''])]"

text \<open>The workers, their signals and the slots, and the calls of \<open>main\<close>.\<close>

datatype worker = StoreWorker | LeadershipWorker | BrokerWorker

datatype signal = StoreConnected | StoreDisconnected | BecameLeader | LosingLeadership

datatype slot = Leadership_OnStoreConnected | Leadership_OnStoreDisconnected | Broker_OnBecameLeader | Broker_OnLosingLeadership

datatype main_call =
    NewWeb string
  | NewWorker worker
  | RegisterEntityFields string "string list"
  | Connect signal slot
  | NewApplication string
  | AddWorker worker
  | ExecuteApplication

definition main :: "string \<Rightarrow> main_call list" where
  "main q_addr =
     [NewWeb (getStoreAddress q_addr), NewWorker StoreWorker, NewWorker LeadershipWorker, NewWorker BrokerWorker] @
     map (\<lambda>(ty, fields). RegisterEntityFields ty fields) registered_fields @
     [Connect StoreConnected Leadership_OnStoreConnected, Connect StoreDisconnected Leadership_OnStoreDisconnected,
      Connect BecameLeader Broker_OnBecameLeader, Connect LosingLeadership Broker_OnLosingLeadership,
      NewApplication ''qdp'', AddWorker StoreWorker, AddWorker LeadershipWorker, AddWorker BrokerWorker, ExecuteApplication]"

text \<open>The slots of a signal, in the order in which they were connected.\<close>

fun slots :: "main_call list \<Rightarrow> signal \<Rightarrow> slot list" where
  "slots [] sig = []"
| "slots (Connect sig' slot # cs) sig = (if sig' = sig then slot # slots cs sig else slots cs sig)"
| "slots (_ # cs) sig = slots cs sig"

text \<open>What a slot does to the broker; those of the leadership worker leave it alone.\<close>

fun slot_step :: "'d data_store \<Rightarrow> ('n, 't) transport_kit \<Rightarrow> slot \<Rightarrow> ('d, 'n, 't) broker \<Rightarrow> ('d, 'n, 't) broker \<Rightarrow> bool" where
  "slot_step st k Broker_OnBecameLeader w w' \<longleftrightarrow> (\<exists>ids. map_keys w ids \<and> w' = OnBecameLeader st k ids w)"
| "slot_step st k Broker_OnLosingLeadership w w' \<longleftrightarrow> (\<exists>ids. map_keys w ids \<and> w' = OnLosingLeadership st k ids w)"
| "slot_step st k _ w w' \<longleftrightarrow> w' = w"

fun slots_step ::
  "'d data_store \<Rightarrow> ('n, 't) transport_kit \<Rightarrow> slot list \<Rightarrow> ('d, 'n, 't) broker \<Rightarrow> ('d, 'n, 't) broker \<Rightarrow> bool" where
  "slots_step st k [] w w' \<longleftrightarrow> w' = w"
| "slots_step st k (slot # ss) w w' \<longleftrightarrow> (\<exists>v. slot_step st k slot w v \<and> slots_step st k ss v w')"

text \<open>Events of the application: a signal is emitted, or the broker takes a step that is not one of its slots.\<close>

datatype app_event = Emit signal | Other broker_event

inductive app_step ::
  "'d data_store \<Rightarrow> ('n, 't) transport_kit \<Rightarrow> main_call list \<Rightarrow> ('d, 'n, 't) broker \<Rightarrow> app_event \<Rightarrow> ('d, 'n, 't) broker \<Rightarrow> bool"
  for st k cs where
  emit: "slots_step st k (slots cs sig) w w' \<Longrightarrow> app_step st k cs w (Emit sig) w'"
| other: "broker_step st k w e w' \<Longrightarrow> e \<notin> {BecomeLeader, LoseLeadership} \<Longrightarrow> app_step st k cs w (Other e) w'"

inductive app_run ::
  "'d data_store \<Rightarrow> ('n, 't) transport_kit \<Rightarrow> main_call list \<Rightarrow> ('d, 'n, 't) broker \<Rightarrow> app_event list \<Rightarrow> ('d, 'n, 't) broker \<Rightarrow> bool"
  for st k cs where
  app_run_nil: "app_run st k cs w [] w"
| app_run_cons: "app_step st k cs w e w' \<Longrightarrow> app_run st k cs w' es w'' \<Longrightarrow> app_run st k cs w (e # es) w''"

definition registered :: "string \<Rightarrow> string list" where
  "registered ty = (case map_of registered_fields ty of None \<Rightarrow> [] | Some fs \<Rightarrow> fs)"

text \<open>Two states of the store agree on the registered fields of an entity.\<close>

definition agree_on :: "'d data_store \<Rightarrow> string \<Rightarrow> string \<Rightarrow> 'd \<Rightarrow> 'd \<Rightarrow> bool" where
  "agree_on st ty ent d d' \<longleftrightarrow>
     (\<forall>f \<in> set (registered ty). ReadBool st ent f d = ReadBool st ent f d' \<and> ReadInt st ent f d = ReadInt st ent f d' \<and>
        ReadString st ent f d = ReadString st ent f d' \<and> ReadEntityReference st ent f d = ReadEntityReference st ent f d')"

lemma agree_onD:
  "agree_on st ty ent d d' \<Longrightarrow> f \<in> set (registered ty) \<Longrightarrow>
   ReadBool st ent f d = ReadBool st ent f d' \<and> ReadInt st ent f d = ReadInt st ent f d' \<and>
   ReadString st ent f d = ReadString st ent f d' \<and> ReadEntityReference st ent f d = ReadEntityReference st ent f d'"
  by (simp add: agree_on_def)

lemma registered_simps [simp]:
  "registered ''QdpTcpTransport'' = [''Address'', ''IsClient'', ''IsEnabled'', ''IsConnected'', ''TotalReceived'', ''TotalSent'']"
  "registered ''QdpFtdiTransport'' =
     [''VendorID'', ''ProductID'', ''Interface'', ''ReadEndpoint'', ''WriteEndpoint'', ''BaudRate'', ''DataBits'', ''StopBits'',
      ''Parity'', ''FlowControl'', ''IsEnabled'', ''IsConnected'', ''TotalReceived'', ''TotalSent'']"
  by (simp_all add: registered_def registered_fields_def)

lemma open_transport_store:
  "transports (open_transport k ent constructor (w\<lparr>b_store := d\<rparr>)) = transports (open_transport k ent constructor w)"
  "queue (open_transport k ent constructor (w\<lparr>b_store := d\<rparr>)) = queue (open_transport k ent constructor w)"
  "b_net (open_transport k ent constructor (w\<lparr>b_store := d\<rparr>)) = b_net (open_transport k ent constructor w)"
  by (simp_all add: open_transport_def register_def split_beta Let_def split: sum.splits)

lemma entity_ftdi_config_agree:
  "agree_on st ''QdpFtdiTransport'' ent d d' \<Longrightarrow> entity_ftdi_config st ent d = entity_ftdi_config st ent d'"
  by (simp add: entity_ftdi_config_def agree_on_def)

section \<open>Leadership\<close>

lemma setup_broker_leader: "isLeader (setup_broker st k w) = isLeader w"
proof -
  let ?w = "fold (add_token st) notify_configs w"
  have "adds_transports ?w (setup_broker st k w)"
    unfolding setup_broker_def Let_def
    by (blast intro: adds_transports_trans adds_transports_fold setupTcpTransport_adds setupFtdiTransport_adds)
  moreover have "isLeader ?w = isLeader w"
    by (simp add: notify_configs_def add_token_def split_beta Let_def)
  ultimately show ?thesis
    by (simp add: adds_transports_def same_control_def)
qed

lemma run_task_leader:
  assumes "broker_ok w" "task_ok (entities w) q" "run_task st k q w = Ret w'"
  shows "isLeader w' = isLeader w"
proof (cases q)
  case (ConnectTask ent tid)
  have "isLeader (fold (subscribe_topic st ent pid) topics v) = isLeader v" for pid topics and v :: "('a, 'b, 'c) broker"
    by (induction topics arbitrary: v) (simp_all add: subscribe_topic_def Let_def)
  then show ?thesis
    using assms(3) ConnectTask by (auto simp: connect_task_def Let_def split: if_splits option.splits)
next
  case (DisconnectTask ent tid err)
  have ok: "heap_ok (write_bool st ent ''IsConnected'' False w)" "links_ok (write_bool st ent ''IsConnected'' False w)"
    using assms(1) by (simp_all add: broker_ok_def)
  show ?thesis
    using assms(3) DisconnectTask drop_protocol_effect(4) [OF ok, of ent _ st k]
    by (auto simp: disconnect_task_def same_roles_def Let_def split: if_splits option.splits)
qed (use assms in \<open>auto simp: count_task_def split: if_splits\<close>)

fun leader_after :: "bool \<Rightarrow> broker_event \<Rightarrow> bool" where
  "leader_after b BecomeLeader = True"
| "leader_after b LoseLeadership = False"
| "leader_after b _ = b"

lemma broker_step_leader: "broker_step st k w e w' \<Longrightarrow> broker_ok w \<Longrightarrow> isLeader w' = leader_after (isLeader w) e"
proof (induction rule: broker_step.induct)
  case (became_leader w ids)
  then show ?case
    using teardown_ok(5) [of w ids st k True] by (simp add: OnBecameLeader_def setup_broker_leader)
next
  case (losing_leadership w ids)
  then show ?case
    using teardown_ok(5) [of w ids st k False] by (simp add: OnLosingLeadership_def)
next
  case (schema_updated w ids)
  have "w\<lparr>isLeader := isLeader w\<rparr> = w"
    by simp
  then have "isLeader (teardown st k ids w) = isLeader w"
    using teardown_ok(5) [OF schema_updated.prems schema_updated.hyps, of st k "isLeader w"] by (simp only:)
  then show ?case
    by (simp add: OnSchemaUpdated_def setup_broker_leader)
next
  case (deinit w ids)
  then have "isLeader (teardown st k ids (cancel_broker w)) = isLeader (cancel_broker w)"
    using broker_ok_tear(5,6) [OF deinit(2)]
    by (intro teardown_effect(5)) (auto simp: broker_ok_def cancel_broker_def map_keys_def protocol_of_def)
  then show ?case
    by (simp add: Deinit_def cancel_broker_def)
next
  case (tx_message payload topic ent w w')
  then show ?case
    using store_session_effect(2) [of w _ _ st k]
    by (auto simp: onTxMessage_def go_simps Let_def broker_ok_def same_control_def dest!: SendMessage_frame links_okD
        split: option.splits)
next
  case (run_queued i w w')
  then show ?case
    using run_task_leader [OF dequeued_ok, of w i st k w'] by auto
next
  case (agent_step pid w e s')
  then show ?case
    using goroutine_frame [OF agent_step.hyps(3,2)] store_session_effect(2) [of w pid s' st k]
    by (auto simp: broker_ok_def same_control_def)
next
  case (transport_step tid w t)
  then show ?case
    using put_transport_sel(4) [OF transport_step.hyps] by (simp add: same_control_def)
next
  case (tcp_enabled w ent b)
  then show ?case
    using setupTcpTransport_adds [of w st k ent] drop_protocol_effect(4) [of w ent _ st k]
    by (auto simp: onTcpTransportIsEnabledChanged_def adds_transports_def same_control_def same_roles_def broker_ok_def Let_def)
next
  case (ftdi_enabled w ent b)
  then show ?case
    using setupFtdiTransport_adds [of w st k ent] drop_protocol_effect(4) [of w ent _ st k]
    by (auto simp: onFtdiTransportIsEnabledChanged_def adds_transports_def same_control_def same_roles_def broker_ok_def Let_def)
qed simp

text \<open>With the wiring of \<open>main\<close> the events of the application are events of the broker.\<close>

fun broker_events :: "app_event \<Rightarrow> broker_event list" where
  "broker_events (Emit BecameLeader) = [BecomeLeader]"
| "broker_events (Emit LosingLeadership) = [LoseLeadership]"
| "broker_events (Emit _) = []"
| "broker_events (Other e) = [e]"

fun leadership :: "bool \<Rightarrow> app_event list \<Rightarrow> bool" where
  "leadership b [] = b"
| "leadership b (Emit BecameLeader # es) = leadership True es"
| "leadership b (Emit LosingLeadership # es) = leadership False es"
| "leadership b (_ # es) = leadership b es"

lemma main_slots:
  "slots (main q_addr) sig = (case sig of StoreConnected \<Rightarrow> [Leadership_OnStoreConnected]
     | StoreDisconnected \<Rightarrow> [Leadership_OnStoreDisconnected] | BecameLeader \<Rightarrow> [Broker_OnBecameLeader]
     | LosingLeadership \<Rightarrow> [Broker_OnLosingLeadership])"
  by (cases sig) (simp_all add: main_def registered_fields_def)

lemma app_step_broker:
  assumes "app_step st k (main q_addr) w e w'"
  shows "broker_run st k w (broker_events e) w'"
  using assms
proof cases
  case (emit sig)
  then show ?thesis
    by (cases sig) (auto simp: main_slots intro: became_leader losing_leadership)
qed auto

lemma app_run_broker:
  "app_run st k (main q_addr) w es w' \<Longrightarrow> broker_run st k w (concat (map broker_events es)) w'"
  by (induction rule: app_run.induct) (auto simp: broker_run_append dest: app_step_broker)

lemma app_run_leadership:
  assumes "app_run st k (main q_addr) w es w'" "broker_ok w"
  shows "isLeader w' = leadership (isLeader w) es"
  using assms
proof (induction rule: app_run.induct)
  case (app_run_cons w e w' es w'')
  note run = app_step_broker [OF app_run_cons.hyps(1)]
  have "broker_ok w'"
    using broker_run_ok [OF run app_run_cons.prems] .
  moreover have "leadership (isLeader w) (e # es) = leadership (isLeader w') es"
  proof (cases e)
    case (Emit sig)
    then show ?thesis
      using run broker_step_leader [OF _ app_run_cons.prems] by (cases sig) fastforce+
  next
    case (Other b)
    then have "b \<notin> {BecomeLeader, LoseLeadership}"
      using app_run_cons.hyps(1) by (auto elim: app_step.cases)
    then have "leader_after (isLeader w) b = isLeader w"
      by (cases b) auto
    then show ?thesis
      using run Other broker_step_leader [OF _ app_run_cons.prems] by fastforce
  qed
  ultimately show ?case
    using app_run_cons.IH by simp
qed simp

section \<open>Properties\<close>

text \<open>C26. The leadership signals drive the broker: in every state of the application that \<open>main\<close> wires up, the
  broker is the leader exactly if the last of the two leadership signals was \<open>BecameLeader\<close>, whatever the
  store's signals and the other events; without it there are no protocols in the map and no bound
  notifications, and with it four, as long as the application was not shut down.\<close>

theorem main_leadership_signals:
  assumes "app_run st k (main q_addr) (Init (NewMessageBroker d n)) es w"
  shows "isLeader w = leadership False es \<and>
    (\<not> leadership False es \<longrightarrow> (\<forall>ent. protocol_of w ent = None) \<and> bound w = []) \<and>
    (leadership False es \<and> Other Shutdown \<notin> set es \<longrightarrow> length (bound w) = 4)"
proof -
  have lead: "isLeader w = leadership False es"
    using app_run_leadership [OF assms Init_ok] by (simp add: Init_def NewMessageBroker_def)
  note run = app_run_broker [OF assms]
  have ok: "broker_ok w"
    using run by (rule reachable_ok)
  have "Shutdown \<notin> set (concat (map broker_events es))" if "Other Shutdown \<notin> set es"
  proof -
    have "Shutdown \<in> set (broker_events e) \<longleftrightarrow> e = Other Shutdown" for e
      by (cases e rule: broker_events.cases) auto
    then show ?thesis
      using that by auto
  qed
  then have "\<not> b_done w" if "Other Shutdown \<notin> set es"
    using broker_run_done [OF run Init_ok] that by (simp add: Init_def NewMessageBroker_def)
  with ok lead show ?thesis
    by (auto simp: broker_ok_def split: if_splits)
qed

theorem main_leadership_signals_witness:
  "app_run desk_ops desk_kit (main []) (desk_start desk_tcp) [Emit StoreConnected, Emit BecameLeader] desk_leader \<and>
   isLeader desk_leader \<and> length (bound desk_leader) = 4"
proof -
  have "map_keys (desk_start desk_tcp) []"
    by (simp add: map_keys_def desk_start_def Init_def NewMessageBroker_def protocol_of_def)
  then have "app_run desk_ops desk_kit (main []) (desk_start desk_tcp) [Emit StoreConnected, Emit BecameLeader] desk_leader"
    by (auto simp: main_slots desk_leader_def intro!: app_run_cons [OF emit] app_run_nil)
  then show ?thesis
    using main_leadership_signals [of desk_ops desk_kit "[]" desk_tcp "(0, [])"] by (auto simp: desk_start_def)
qed

text \<open>The registered fields suffice: the transports that the broker sets up for an entity, the tasks they
  queue and the use of network and USB depend on no field of the entity beyond those that \<open>main\<close>
  registers with the schema validator.\<close>

theorem setup_reads_registered_fields:
  assumes "agree_on st ''QdpTcpTransport'' ent (WriteBool st ent ''IsConnected'' False (b_store w)) (WriteBool st ent ''IsConnected'' False d)"
    and "agree_on st ''QdpFtdiTransport'' ent' (WriteBool st ent' ''IsConnected'' False (b_store w)) (WriteBool st ent' ''IsConnected'' False d)"
  shows "transports (setupTcpTransport st k ent (w\<lparr>b_store := d\<rparr>)) = transports (setupTcpTransport st k ent w) \<and>
    queue (setupTcpTransport st k ent (w\<lparr>b_store := d\<rparr>)) = queue (setupTcpTransport st k ent w) \<and>
    b_net (setupTcpTransport st k ent (w\<lparr>b_store := d\<rparr>)) = b_net (setupTcpTransport st k ent w) \<and>
    transports (setupFtdiTransport st k ent' (w\<lparr>b_store := d\<rparr>)) = transports (setupFtdiTransport st k ent' w) \<and>
    queue (setupFtdiTransport st k ent' (w\<lparr>b_store := d\<rparr>)) = queue (setupFtdiTransport st k ent' w) \<and>
    b_net (setupFtdiTransport st k ent' (w\<lparr>b_store := d\<rparr>)) = b_net (setupFtdiTransport st k ent' w)"
proof -
  note tcp = agree_onD [OF assms(1), of "''IsEnabled''"] agree_onD [OF assms(1), of "''IsClient''"]
    agree_onD [OF assms(1), of "''Address''"]
  note ftdi = agree_onD [OF assms(2), of "''IsEnabled''"] entity_ftdi_config_agree [OF assms(2)]
  show ?thesis
    using tcp ftdi
    by (simp add: setupTcpTransport_def setupFtdiTransport_def write_bool_def Let_def open_transport_store)
qed

theorem setup_reads_registered_fields_witness:
  "length (transports (setupTcpTransport desk_ops desk_kit ''tcp'' ((desk_start desk_tcp)\<lparr>b_store := desk_tcp\<lparr>d_token := 7\<rparr>\<rparr>))) = 1"
  using setup_reads_registered_fields [of desk_ops "''tcp''" "desk_start desk_tcp" "desk_tcp\<lparr>d_token := 7\<rparr>" "''usb''" desk_kit]
  by (simp add: agree_on_def desk_start_def Init_def NewMessageBroker_def setupTcpTransport_def setupFtdiTransport_def
      write_bool_def open_transport_def register_def desk_tcp_def Let_def)

end
