(* ===== verification/Qdp_Broker_Objects.thy ===== *)
theory Qdp_Broker_Objects
  imports Qdp_Broker_Effects
begin

text \<open>
  The transports of a broker as objects with a life of their own. Every operation of the broker moves
  a transport only by a call of its methods, so a relation that the methods and the goroutines of a
  transport keep links each transport of a reachable state to the one its constructor returned
  (locale \<open>transport_moves\<close>). Along the way the \<open>OnConnect\<close> callbacks are counted: each is one
  connect task, and each connect task makes at most one protocol.
\<close>

section \<open>Steps of the whole system\<close>

text \<open>\<open>moves\<close> is what the goroutines of a transport do to it. A step of the system is a step of the broker in
  which a transport that changes on its own changes by \<open>moves\<close>.\<close>

definition system_step ::
  "'d data_store \<Rightarrow> ('n, 't) transport_kit \<Rightarrow> ('t \<Rightarrow> 't \<Rightarrow> bool) \<Rightarrow>
   ('d, 'n, 't) broker \<Rightarrow> broker_event \<Rightarrow> ('d, 'n, 't) broker \<Rightarrow> bool" where
  "system_step st k moves w e w' \<longleftrightarrow>
     broker_step st k w e w' \<and>
     (\<forall>tid. e = TransportStep tid \<longrightarrow> moves (snd (transports w ! tid)) (snd (transports w' ! tid)))"

inductive system_run ::
  "'d data_store \<Rightarrow> ('n, 't) transport_kit \<Rightarrow> ('t \<Rightarrow> 't \<Rightarrow> bool) \<Rightarrow>
   ('d, 'n, 't) broker \<Rightarrow> broker_event list \<Rightarrow> ('d, 'n, 't) broker \<Rightarrow> bool"
  for st k moves where
  system_run_nil: "system_run st k moves w [] w"
| system_run_cons: "system_step st k moves w e w' \<Longrightarrow> system_run st k moves w' es w'' \<Longrightarrow>
    system_run st k moves w (e # es) w''"

inductive_simps system_run_simps [simp]:
  "system_run st k moves w [] w'"
  "system_run st k moves w (e # es) w'"

lemma system_run_append:
  "system_run st k moves w (es @ es') w' \<longleftrightarrow> (\<exists>v. system_run st k moves w es v \<and> system_run st k moves v es' w')"
  by (induction es arbitrary: w) auto

lemma system_run_broker: "system_run st k moves w es w' \<Longrightarrow> broker_run st k w es w'"
  by (induction rule: system_run.induct) (auto simp: system_step_def)

text \<open>The broker alone: no step of a transport.\<close>

lemma broker_run_system:
  "broker_run st k w es w' \<Longrightarrow> (\<And>tid. TransportStep tid \<notin> set es) \<Longrightarrow> system_run st k moves w es w'"
  by (induction rule: broker_run.induct) (auto simp: system_step_def)

section \<open>Counting\<close>

fun connect_of :: "nat \<Rightarrow> task \<Rightarrow> bool" where
  "connect_of tid (ConnectTask ent tid') \<longleftrightarrow> tid' = tid"
| "connect_of tid _ \<longleftrightarrow> False"

definition protocols_on :: "nat \<Rightarrow> ('d, 'n, 't) broker \<Rightarrow> nat" where
  "protocols_on tid w = length (filter (\<lambda>a. transport (proto (ag_session a)) = tid) (agents w))"

text \<open>The protocols on a transport, and those that queued tasks are about to make.\<close>

definition uses :: "nat \<Rightarrow> ('d, 'n, 't) broker \<Rightarrow> nat" where
  "uses tid w = length (filter (connect_of tid) (queue w)) + protocols_on tid w"

text \<open>How often a transport has called \<open>OnConnect\<close>.\<close>

definition announced :: "('n, 't) transport_kit \<Rightarrow> nat \<Rightarrow> ('d, 'n, 't) broker \<Rightarrow> nat" where
  "announced k tid w =
     (if tid < length (transports w) then count_list (kit_events k (snd (transports w ! tid))) Connected else 0)"

lemma connect_of_connection_task: "connect_of tid (connection_task ent tid' e) \<longleftrightarrow> tid' = tid \<and> e = Connected"
  by (cases e) auto

lemma connect_tasks_count [simp]:
  "length (filter (connect_of tid \<circ> connection_task ent tid') es) = (if tid' = tid then count_list es Connected else 0)"
  by (induction es) (auto simp: connect_of_connection_task)

text \<open>An update that keeps what a filter looks at.\<close>

lemma filter_update_same:
  "i < length xs \<Longrightarrow> P x = P (xs ! i) \<Longrightarrow> length (filter P (xs[i := x])) = length (filter P xs)"
  by (induction xs arbitrary: i) (auto split: nat.splits)

lemma filter_front:
  assumes "i < length xs"
  shows "length (filter P (xs ! i # take i xs @ drop (Suc i) xs)) = length (filter P xs)"
proof -
  have "length (filter P (take i xs @ xs ! i # drop (Suc i) xs)) = length (filter P (xs ! i # take i xs @ drop (Suc i) xs))"
    by simp
  then show ?thesis
    using id_take_nth_drop [OF assms] by simp
qed

text \<open>A transport a constructor has returned.\<close>

definition made_by :: "('n, 't) transport_kit \<Rightarrow> 't \<Rightarrow> bool" where
  "made_by k t \<longleftrightarrow>
     (\<exists>addr n n'. kit_client k addr n = (Inr t, n') \<or> kit_server k addr n = (Inr t, n')) \<or>
     (\<exists>cfg n n'. kit_ftdi k cfg n = (Inr t, n'))"

text \<open>From one state of the broker to a later one: transports move by \<open>R\<close>, new ones come from a
  constructor, and no protocol is made without a callback.\<close>

definition unfolds ::
  "('n, 't) transport_kit \<Rightarrow> ('t \<Rightarrow> 't \<Rightarrow> bool) \<Rightarrow> ('d, 'n, 't) broker \<Rightarrow> ('d, 'n, 't) broker \<Rightarrow> bool" where
  "unfolds k R w w' \<longleftrightarrow>
     length (transports w) \<le> length (transports w') \<and>
     (\<forall>tid < length (transports w').
        if tid < length (transports w)
        then fst (transports w' ! tid) = fst (transports w ! tid) \<and> R (snd (transports w ! tid)) (snd (transports w' ! tid))
        else \<exists>t. made_by k t \<and> R t (snd (transports w' ! tid))) \<and>
     (\<forall>tid. uses tid w' + announced k tid w \<le> uses tid w + announced k tid w')"

text \<open>The contract of the transports: their methods move them by \<open>R\<close>, and a transport only adds to the log
  of its callbacks.\<close>

locale transport_moves =
  fixes k :: "('n, 't) transport_kit" and R :: "'t \<Rightarrow> 't \<Rightarrow> bool"
  assumes R_refl: "R t t"
    and R_trans: "R t t' \<Longrightarrow> R t' t'' \<Longrightarrow> R t t''"
    and read_moves: "kit_read k t = Some (Ret (res, t')) \<Longrightarrow> R t t'"
    and write_moves: "kit_write k m t = Ret (err, t') \<Longrightarrow> R t t'"
    and close_moves: "kit_close k t = (err, t') \<Longrightarrow> R t t'"
    and events_grow: "R t t' \<Longrightarrow> prefix (kit_events k t) (kit_events k t')"
begin

lemma unfolds_quiet:
  assumes "transports w' = transports w" "\<And>tid. uses tid w' \<le> uses tid w"
  shows "unfolds k R w w'"
  using assms R_refl by (auto simp: unfolds_def announced_def)

lemma unfolds_refl: "unfolds k R w w"
  by (rule unfolds_quiet) simp_all

lemma unfolds_trans:
  assumes "unfolds k R w w'" "unfolds k R w' w''"
  shows "unfolds k R w w''"
proof -
  have len: "length (transports w) \<le> length (transports w')" "length (transports w') \<le> length (transports w'')"
    using assms by (simp_all add: unfolds_def)
  have "if tid < length (transports w)
      then fst (transports w'' ! tid) = fst (transports w ! tid) \<and> R (snd (transports w ! tid)) (snd (transports w'' ! tid))
      else \<exists>t. made_by k t \<and> R t (snd (transports w'' ! tid))" if "tid < length (transports w'')" for tid
  proof (cases "tid < length (transports w')")
    case True
    have 1: "if tid < length (transports w)
        then fst (transports w' ! tid) = fst (transports w ! tid) \<and> R (snd (transports w ! tid)) (snd (transports w' ! tid))
        else \<exists>t. made_by k t \<and> R t (snd (transports w' ! tid))"
      using assms(1) True by (simp add: unfolds_def)
    have 2: "fst (transports w'' ! tid) = fst (transports w' ! tid)" "R (snd (transports w' ! tid)) (snd (transports w'' ! tid))"
      using assms(2) True that by (simp_all add: unfolds_def)
    show ?thesis
      using 1 2 R_trans [OF _ 2(2)] by (cases "tid < length (transports w)") auto
  next
    case False
    then show ?thesis
      using assms(2) that len(1) by (simp add: unfolds_def)
  qed
  moreover have "uses tid w'' + announced k tid w \<le> uses tid w + announced k tid w''" for tid
    using assms [unfolded unfolds_def, THEN conjunct2, THEN conjunct2, rule_format, of tid] by linarith
  ultimately show ?thesis
    using len unfolding unfolds_def by auto
qed

lemma unfolds_fold:
  assumes "\<And>x w. unfolds k R w (f x w)"
  shows "unfolds k R w (fold f xs w)"
proof (induction xs arbitrary: w)
  case (Cons x xs)
  show ?case
    using unfolds_trans [OF assms Cons] by simp
qed (simp add: unfolds_refl)

lemma put_transport_unfolds:
  assumes "tid < length (transports w)" "R (snd (transports w ! tid)) t'"
  shows "unfolds k R w (put_transport k tid t' w)"
proof -
  obtain ent t where t: "transports w ! tid = (ent, t)"
    by (cases "transports w ! tid")
  obtain es where es: "kit_events k t' = kit_events k t @ es"
    using events_grow [of t t'] assms(2) t by (auto simp: prefix_def)
  have "uses tid' (put_transport k tid t' w) + announced k tid' w \<le> uses tid' w + announced k tid' (put_transport k tid t' w)" for tid'
    using assms(1) t es
    by (auto simp: uses_def protocols_on_def announced_def put_transport_def nth_list_update)
  then show ?thesis
    using assms t R_refl by (auto simp: unfolds_def put_transport_def nth_list_update)
qed

lemma register_unfolds:
  assumes "made_by k t"
  shows "unfolds k R w (register k ent t w)"
  using assms R_refl
  by (auto simp: unfolds_def register_def uses_def protocols_on_def announced_def nth_append less_Suc_eq)

lemma perform_unfolds: "unfolds k R w (perform st ent c w)"
  by (cases c) (auto simp: uses_def protocols_on_def Let_def intro!: unfolds_quiet)

lemma store_session_unfolds:
  assumes "heap_ok w" "pid < length (agents w)" "R (transport (proto (load_session pid w))) (transport (proto s'))"
  shows "unfolds k R w (store_session st k pid s' w)"
proof -
  let ?w1 = "put_transport k (transport (proto (ag_session (agents w ! pid)))) (transport (proto s')) w"
  let ?w2 = "?w1\<lparr>agents := (agents w)[pid := stored_agent (agents w ! pid) s']\<rparr>"
  have agents: "agents ?w1 = agents w"
    by (simp add: put_transport_def split_beta Let_def)
  have "protocols_on tid ?w2 = protocols_on tid ?w1" for tid
    using assms(2) by (simp add: protocols_on_def agents filter_update_same)
  then have "unfolds k R ?w1 ?w2"
    by (intro unfolds_quiet) (simp_all add: uses_def)
  moreover have "unfolds k R w ?w1"
    using heap_ok_agent [OF assms(1,2)] assms(3) by (intro put_transport_unfolds) simp_all
  ultimately have "unfolds k R w ?w2"
    by (rule unfolds_trans [rotated])
  then have "unfolds k R w (fold (perform st (ag_entity (agents w ! pid)))
      (drop (length (calls (proto (ag_session (agents w ! pid))))) (calls (proto s'))) ?w2)"
    by (rule unfolds_trans [OF _ unfolds_fold [OF perform_unfolds]])
  then show ?thesis
    by (simp add: store_session_def stored_agent_def Let_def agents)
qed

lemma drop_protocol_unfolds:
  assumes "heap_ok w" "pid < length (agents w)"
  shows "unfolds k R w (drop_protocol st k ent pid w)"
proof -
  have "unfolds k R (close_protocol st k pid w) (forget ent (close_protocol st k pid w))"
    by (rule unfolds_quiet) (simp_all add: uses_def protocols_on_def forget_def)
  moreover have "unfolds k R w (close_protocol st k pid w)"
    unfolding close_protocol_def Let_def
    by (rule store_session_unfolds [OF assms]) (simp add: protocol_Close_frame close_moves [OF surjective_pairing])
  ultimately show ?thesis
    unfolding drop_protocol_def by (rule unfolds_trans [rotated])
qed

lemma close_all_unfolds:
  assumes "heap_ok w" "links_ok w"
  shows "unfolds k R w (close_all st k ids w)"
  using assms
proof (induction ids arbitrary: w)
  case (Cons ent ids)
  show ?case
  proof (cases "protocol_of w ent")
    case (Some pid)
    note drop = drop_protocol_effect [OF Cons.prems Some, of st k]
    have "pid < length (agents w)"
      using links_okD [OF Cons.prems(2) Some] by blast
    then show ?thesis
      using unfolds_trans [OF drop_protocol_unfolds Cons.IH [OF drop(1,2)]] Some Cons.prems(1) by simp
  qed (use Cons in simp)
qed (simp add: unfolds_refl)

lemma teardown_unfolds:
  assumes "heap_ok w" "links_ok w"
  shows "unfolds k R w (teardown st k ids w)"
proof -
  let ?w = "close_all st k ids w"
  obtain d where t: "teardown st k ids w = ?w\<lparr>b_store := d, bound := fold remove1 (tokens ?w) (bound ?w), tokens := []\<rparr>"
    using unbind_fold [of st "tokens ?w" ?w] by (auto simp: teardown_def Let_def)
  have "unfolds k R ?w (teardown st k ids w)"
    unfolding t by (rule unfolds_quiet) (simp_all add: uses_def protocols_on_def)
  then show ?thesis
    by (rule unfolds_trans [OF close_all_unfolds [OF assms]])
qed

lemma write_bool_unfolds: "unfolds k R w (write_bool st ent f b w)"
  by (rule unfolds_quiet) (simp_all add: uses_def protocols_on_def)

lemma open_transport_unfolds:
  assumes "\<And>n t n'. constructor n = (Inr t, n') \<Longrightarrow> made_by k t"
  shows "unfolds k R w (open_transport k ent constructor w)"
proof -
  obtain res n where c: "constructor (b_net w) = (res, n)"
    by (cases "constructor (b_net w)")
  have net: "unfolds k R w (w\<lparr>b_net := n\<rparr>)"
    by (rule unfolds_quiet) (simp_all add: uses_def protocols_on_def)
  then show ?thesis
    using c unfolds_trans [OF net register_unfolds] assms by (auto simp: open_transport_def Let_def split: sum.splits)
qed

lemma made_by_intros:
  "kit_client k addr n = (Inr t, n') \<Longrightarrow> made_by k t" "kit_server k addr n = (Inr t, n') \<Longrightarrow> made_by k t"
  "kit_ftdi k cfg n = (Inr t, n') \<Longrightarrow> made_by k t"
  unfolding made_by_def by blast+

lemma setup_unfolds: "unfolds k R w (setupTcpTransport st k ent w)" "unfolds k R w (setupFtdiTransport st k ent w)"
  by (auto simp: setupTcpTransport_def setupFtdiTransport_def Let_def intro: made_by_intros
      intro!: write_bool_unfolds unfolds_trans [OF write_bool_unfolds open_transport_unfolds])

lemma setup_broker_unfolds: "unfolds k R w (setup_broker st k w)"
proof -
  have "unfolds k R v (add_token st cfg v)" for v :: "('c, 'n, 't) broker" and st cfg
    by (rule unfolds_quiet) (simp_all add: add_token_def uses_def protocols_on_def split_beta Let_def)
  then show ?thesis
    unfolding setup_broker_def Let_def
    by (rule unfolds_trans [OF unfolds_trans [OF unfolds_fold unfolds_fold] unfolds_fold]) (rule setup_unfolds)+
qed

lemma subscribe_topics_uses:
  "pid < length (agents w) \<Longrightarrow> uses tid (fold (subscribe_topic st ent pid) topics w) = uses tid w"
proof (induction topics arbitrary: w)
  case (Cons topic topics)
  have "uses tid (subscribe_topic st ent pid topic w) = uses tid w"
    using Cons.prems
    by (simp add: uses_def protocols_on_def subscribe_topic_def Let_def protocol_Subscribe_def filter_update_same)
  moreover have "pid < length (agents (subscribe_topic st ent pid topic w))"
    using Cons.prems by (simp add: subscribe_topic_def Let_def)
  ultimately show ?case
    using Cons.IH by simp
qed simp

text \<open>Running a task, the task still counted in the state before.\<close>

lemma connect_task_unfolds:
  assumes "connect_task st ent tid w = Ret w'"
  shows "unfolds k R (w\<lparr>queue := ConnectTask ent tid # queue w\<rparr>) w'"
proof (cases "isLeader w")
  case True
  obtain m where m: "protocolsByEntity w = Some m"
    using assms True by (cases "protocolsByEntity w") (simp_all add: connect_task_def Let_def)
  let ?w = "(write_bool st ent ''IsConnected'' True w)\<lparr>protocolsByEntity := Some (m(ent := Some (length (agents w)))),
    agents := agents w @ [new_agent ent tid (b_done w)]\<rparr>"
  have w': "w' = fold (subscribe_topic st ent (length (agents w))) (Execute st ''QdpTopic'' (b_store ?w)) ?w"
    using assms True m by (simp add: connect_task_def Let_def)
  have "uses tid' w' = uses tid' ?w" for tid'
    unfolding w' by (rule subscribe_topics_uses) simp
  then have "uses tid' w' = uses tid' (w\<lparr>queue := ConnectTask ent tid # queue w\<rparr>)" for tid'
    by (simp add: uses_def protocols_on_def new_agent_def StartReceiving_def NewProtocol_def)
  then show ?thesis
    by (intro unfolds_quiet) (simp_all add: w' subscribe_topics_frame)
next
  case False
  then show ?thesis
    using assms by (intro unfolds_quiet) (auto simp: connect_task_def uses_def protocols_on_def)
qed

lemma run_task_unfolds:
  assumes "broker_ok w" "run_task st k q w = Ret w'"
  shows "unfolds k R (w\<lparr>queue := q # queue w\<rparr>) w'"
proof (cases "\<exists>ent tid. q = ConnectTask ent tid")
  case True
  then show ?thesis
    using assms(2) connect_task_unfolds by auto
next
  case False
  have "unfolds k R (w\<lparr>queue := q # queue w\<rparr>) w"
    by (rule unfolds_quiet) (simp_all add: uses_def protocols_on_def)
  moreover have "unfolds k R w w'"
  proof (cases q)
    case (DisconnectTask ent tid err)
    let ?w = "write_bool st ent ''IsConnected'' False w"
    have "unfolds k R w (drop_protocol st k ent pid ?w)" if "protocol_of w ent = Some pid" for pid
      using broker_ok_links [OF assms(1) that] assms(1)
      by (intro unfolds_trans [OF write_bool_unfolds drop_protocol_unfolds]) (simp_all add: broker_ok_def)
    then show ?thesis
      using assms(2) DisconnectTask write_bool_unfolds unfolds_refl
      by (auto simp: disconnect_task_def Let_def split: if_splits option.splits)
  qed (use assms(2) False in \<open>auto simp: count_task_def uses_def protocols_on_def split: if_splits intro!: unfolds_quiet\<close>)
  ultimately show ?thesis
    by (rule unfolds_trans)
qed

lemma onTxMessage_unfolds:
  assumes "broker_ok w" "onTxMessage st k payload topic ent w = Ret w'"
  shows "unfolds k R w w'"
  using assms
  by (auto simp: onTxMessage_def broker_ok_def go_simps Let_def unfolds_refl split: option.splits
      intro!: store_session_unfolds write_moves dest!: SendMessage_frame links_okD)

lemma onIsEnabledChanged_unfolds:
  assumes "broker_ok w"
  shows "unfolds k R w (onTcpTransportIsEnabledChanged st k ent b w)"
    "unfolds k R w (onFtdiTransportIsEnabledChanged st k ent b w)"
  using assms broker_ok_links [of w ent]
  by (auto simp: onTcpTransportIsEnabledChanged_def onFtdiTransportIsEnabledChanged_def Let_def setup_unfolds unfolds_refl
      broker_ok_def intro!: drop_protocol_unfolds)

lemma goroutine_moves:
  assumes "session_step (kit_read k) wr cl s e s'" "e \<in> {Recv, Proc}"
  shows "R (transport (proto s)) (transport (proto s'))"
  using assms
  by cases (auto simp: recv_return_def handleMessage_frame R_refl dest!: ReceiveMessage_frame intro: read_moves)

lemma system_step_unfolds:
  assumes "system_step st k moves w e w'" "broker_ok w" "\<And>t t'. moves t t' \<Longrightarrow> R t t'"
  shows "unfolds k R w w'"
proof -
  have "broker_step st k w e w'" and own: "\<And>tid. e = TransportStep tid \<Longrightarrow> R (snd (transports w ! tid)) (snd (transports w' ! tid))"
    using assms(1,3) by (auto simp: system_step_def)
  moreover have lead: "unfolds k R v (v\<lparr>isLeader := b\<rparr>)" for v :: "('c, 'n, 't) broker" and b
    by (rule unfolds_quiet) (simp_all add: uses_def protocols_on_def)
  moreover have cancel: "unfolds k R w (cancel_broker w)"
    by (rule unfolds_quiet) (simp_all add: uses_def protocols_on_def cancel_broker_def comp_def)
  ultimately show ?thesis
  proof cases
    case (became_leader ids)
    then show ?thesis
      unfolding OnBecameLeader_def
      using lead [of w True] teardown_unfolds [OF broker_ok_tear(3,4) [OF assms(2), of True], of st ids] setup_broker_unfolds unfolds_trans
      by blast
  next
    case (losing_leadership ids)
    then show ?thesis
      unfolding OnLosingLeadership_def
      using lead [of w False] teardown_unfolds [OF broker_ok_tear(3,4) [OF assms(2), of False], of st ids] unfolds_trans by blast
  next
    case (schema_updated ids)
    then show ?thesis
      unfolding OnSchemaUpdated_def
      using unfolds_refl [of w] teardown_unfolds [OF broker_ok_tear(1,2) [OF assms(2)], of st ids] unfolds_trans [OF _ setup_broker_unfolds]
      by (auto split: if_splits)
  next
    case (deinit ids)
    then show ?thesis
      unfolding Deinit_def
      using cancel teardown_unfolds [OF broker_ok_tear(5,6) [OF assms(2)], of st ids] unfolds_trans by blast
  next
    case (run_queued i)
    let ?w = "w\<lparr>queue := take i (queue w) @ drop (Suc i) (queue w)\<rparr>"
    have "unfolds k R w (?w\<lparr>queue := queue w ! i # queue ?w\<rparr>)"
      using filter_front [OF run_queued(2)]
      by (intro unfolds_quiet) (simp_all add: uses_def protocols_on_def del: filter.simps)
    then show ?thesis
      using unfolds_trans run_task_unfolds [OF dequeued_ok(1) run_queued(3)] assms(2) run_queued(2) by simp
  next
    case (agent_step pid e s')
    then show ?thesis
      using assms(2) goroutine_moves [OF agent_step(5,4)] by (simp add: store_session_unfolds broker_ok_def)
  next
    case (transport_step tid t)
    then have "R (snd (transports w ! tid)) t"
      using own [of tid] by (simp add: put_transport_def split_beta Let_def)
    with transport_step show ?thesis
      by (simp add: put_transport_unfolds)
  next
    case (outside d n)
    then show ?thesis
      by (intro unfolds_quiet) (simp_all add: uses_def protocols_on_def)
  qed (use assms(2) in \<open>simp_all add: onTxMessage_unfolds onIsEnabledChanged_unfolds\<close>)
qed

lemma system_run_unfolds:
  assumes "system_run st k moves w es w'" "broker_ok w" "\<And>t t'. moves t t' \<Longrightarrow> R t t'"
  shows "unfolds k R w w'"
  using assms(1,2)
proof (induction rule: system_run.induct)
  case (system_run_cons w e w' es w'')
  then show ?case
    using system_step_unfolds [OF system_run_cons.hyps(1)] broker_step_ok [of st k w e w'] assms(3) unfolds_trans
    by (metis system_step_def)
qed (simp add: unfolds_refl)

text \<open>From the start: every transport has moved from one that a constructor returned, and there are no more
  protocols on it, made or to be made, than it has called \<open>OnConnect\<close>.\<close>

lemma system_transports:
  assumes "system_run st k moves (Init (NewMessageBroker d n)) es w" "\<And>t t'. moves t t' \<Longrightarrow> R t t'" "tid < length (transports w)"
  shows "\<exists>t. made_by k t \<and> R t (snd (transports w ! tid))"
    "uses tid w \<le> count_list (kit_events k (snd (transports w ! tid))) Connected"
proof -
  have u: "unfolds k R (Init (NewMessageBroker d n)) w"
    by (rule system_run_unfolds [OF assms(1) Init_ok assms(2)])
  then show "\<exists>t. made_by k t \<and> R t (snd (transports w ! tid))"
    using assms(3) by (simp add: unfolds_def Init_def NewMessageBroker_def)
  show "uses tid w \<le> count_list (kit_events k (snd (transports w ! tid))) Connected"
    using u [unfolded unfolds_def, THEN conjunct2, THEN conjunct2, rule_format, of tid] assms(3)
    by (simp add: uses_def protocols_on_def announced_def Init_def NewMessageBroker_def)
qed

end

end
