(* ===== verification/Qdp_Server.thy ===== *)
theory Qdp_Server
  imports Qdp_Tcp
begin

text \<open>
  \<open>TCPServerTransport\<close> of \<open>lib/go/transport_tcp.go\<close>: the accept loop, one read loop per client with its
  broadcast to the other clients, \<open>ReadMessage\<close>, \<open>WriteMessage\<close> and \<open>Close\<close>.

  Client objects are shared between the map and the goroutines, so they live in a store \<open>objects\<close>,
  and a pointer to one is its index there. \<open>srv_clients\<close> and \<open>srv_readers\<close> are the key sets of the two
  \<open>sync.Map\<close>s. Every goroutine has a program counter: \<open>srv_accept\<close> for \<open>acceptLoop\<close>, \<open>handlers ! i\<close> for the
  \<open>handleClientReads\<close> of client \<open>i\<close>, \<open>closer\<close> for a call of \<open>Close\<close>; a step of the system is a step of one
  of them, or a whole call of \<open>ReadMessage\<close> or \<open>WriteMessage\<close>.

  \<open>sync.Map.Range\<close> promises only that no key is visited twice and that a key stored during the
  whole call is visited; the order is free, a key stored or deleted meanwhile may be visited or not.
  A broadcast keeps the keys at its start (\<open>snap\<close>) and those it is done with (\<open>seen\<close>).

  The fields from \<open>read_log\<close> on are history variables.
\<close>

section \<open>Definitions\<close>

type_synonym addr = nat

datatype 'c accept_pc =
    ACheck        \<comment> \<open>the \<open>select\<close> at the top of the accept loop\<close>
  | AAccept       \<comment> \<open>in \<open>listener.Accept()\<close>\<close>
  | AStore 'c     \<comment> \<open>a connection was accepted and is not yet in the map\<close>
  | AStop

datatype handler_pc =
    HCheck                              \<comment> \<open>the \<open>select\<close> at the top of the read loop\<close>
  | HRead                               \<comment> \<open>before the check of the context in \<open>client.ReadMessage()\<close>\<close>
  | HReading                            \<comment> \<open>in the reader of the client\<close>
  | HRange message "addr set" "addr set"  \<comment> \<open>in the broadcast: message, \<open>snap\<close>, \<open>seen\<close>\<close>
  | HSend message "addr set"            \<comment> \<open>the \<open>select\<close> that puts the message into \<open>msgCh\<close>\<close>
  | HStop

datatype close_pc =
    CIdle
  | CRange "addr set" "addr set"        \<comment> \<open>closing the clients: \<open>snap\<close>, \<open>seen\<close>\<close>
  | CListen                             \<comment> \<open>before \<open>listener.Close()\<close>\<close>
  | CWait "go_error option"             \<comment> \<open>in \<open>wg.Wait()\<close>\<close>
  | CDone "go_error option"

record ('l, 'c) server =
  srv_listener :: 'l
  srv_handler :: "connection_handler option"
  srv_done :: bool
  srv_disconnected :: bool
  srv_events :: "conn_event list"
  objects :: "'c tcp_client list"
  srv_clients :: "addr set"
  srv_readers :: "addr set"
  srv_msgCh :: "message list"
  srv_accept :: "'c accept_pc"
  handlers :: "handler_pc list"
  closer :: close_pc
  read_log :: "(addr \<times> message) list"
  fwd_log :: "(addr \<times> nat \<times> addr) list"
  queue_log :: "(addr \<times> message) list"
  take_log :: "message list"

text \<open>The foreign listener: \<open>Accept\<close> returns a connection or an error, or (\<open>None\<close>) does not return.\<close>

record ('l, 'c) net_listener =
  Accept :: "'l \<Rightarrow> ((go_error + 'c) \<times> 'l) option"
  listener_Close :: "'l \<Rightarrow> go_error option \<times> 'l"

text \<open>\<open>listen\<close> is \<open>net.Listen\<close>.\<close>

definition NewTCPServerTransport ::
  "(string \<Rightarrow> go_error + 'l) \<Rightarrow> string \<Rightarrow> connection_handler option \<Rightarrow> go_error + ('l, 'c) server" where
  "NewTCPServerTransport listen address h =
     (case listen address of
        Inl err \<Rightarrow> Inl (Wrapf ''failed to listen: '' err)
      | Inr l \<Rightarrow>
          let s = \<lparr>srv_listener = l, srv_handler = h, srv_done = False, srv_disconnected = False,
                   srv_events = [], objects = [], srv_clients = {}, srv_readers = {}, srv_msgCh = [],
                   srv_accept = ACheck, handlers = [], closer = CIdle,
                   read_log = [], fwd_log = [], queue_log = [], take_log = []\<rparr>
          in Inr (case h of None \<Rightarrow> s | Some f \<Rightarrow> s\<lparr>srv_events := srv_events s @ OnConnect f\<rparr>))"

definition server_disconnect :: "go_error option \<Rightarrow> ('l, 'c) server \<Rightarrow> ('l, 'c) server" where
  "server_disconnect err s =
     (let (flag, es) = disconnect_once (srv_handler s) err (srv_disconnected s, srv_events s)
      in s\<lparr>srv_disconnected := flag, srv_events := es\<rparr>)"

text \<open>\<open>acceptLoop\<close> returns: the deferred callback runs.\<close>

definition accept_return :: "('l, 'c) server \<Rightarrow> ('l, 'c) server" where
  "accept_return s = server_disconnect None (s\<lparr>srv_accept := AStop\<rparr>)"

text \<open>A new client for an accepted connection, without a handler, and its read loop.\<close>

definition store_client :: "'c \<Rightarrow> ('l, 'c) server \<Rightarrow> ('l, 'c) server" where
  "store_client conn s =
     s\<lparr>objects := objects s @ [NewTCPClientTransportFromConn conn None],
       srv_clients := insert (length (objects s)) (srv_clients s),
       srv_accept := ACheck,
       handlers := handlers s @ [HCheck]\<rparr>"

definition set_pc :: "addr \<Rightarrow> handler_pc \<Rightarrow> ('l, 'c) server \<Rightarrow> ('l, 'c) server" where
  "set_pc i pc s = s\<lparr>handlers := (handlers s)[i := pc]\<rparr>"

definition set_client :: "addr \<Rightarrow> 'c tcp_client \<Rightarrow> ('l, 'c) server \<Rightarrow> ('l, 'c) server" where
  "set_client i c s = s\<lparr>objects := (objects s)[i := c]\<rparr>"

text \<open>A failed read: the client leaves the maps and its read loop returns.\<close>

definition drop_reader :: "addr \<Rightarrow> ('l, 'c) server \<Rightarrow> ('l, 'c) server" where
  "drop_reader i s =
     set_pc i HStop (s\<lparr>srv_clients := srv_clients s - {i}, srv_readers := srv_readers s - {i}\<rparr>)"

text \<open>The body of the broadcast for client \<open>i\<close> in \<open>handleClientReads\<close>, and in \<open>WriteMessage\<close>, where the
  key stays in \<open>readers\<close>.\<close>

definition range_write ::
  "'c net_conn \<Rightarrow> message \<Rightarrow> addr \<Rightarrow> ('l, 'c) server \<Rightarrow> (go_error option \<times> ('l, 'c) server) go" where
  "range_write ops msg i s =
     go_bind (client_WriteMessage ops msg (objects s ! i)) (\<lambda>(err, c).
     if err = None then Ret (None, set_client i c s)
     else
       let s = s\<lparr>srv_clients := srv_clients s - {i}, srv_readers := srv_readers s - {i}\<rparr>;
           (_, c) = client_Close ops c
       in Ret (err, set_client i c s))"

definition broadcast_write ::
  "'c net_conn \<Rightarrow> message \<Rightarrow> addr \<Rightarrow> ('l, 'c) server \<Rightarrow> (go_error option \<times> ('l, 'c) server) go" where
  "broadcast_write ops msg i s =
     go_bind (client_WriteMessage ops msg (objects s ! i)) (\<lambda>(err, c).
     if err = None then Ret (None, set_client i c s)
     else
       let s = s\<lparr>srv_clients := srv_clients s - {i}\<rparr>;
           (_, c) = client_Close ops c
       in Ret (err, set_client i c s))"

text \<open>\<open>WriteMessage\<close> with the keys in the order in which \<open>Range\<close> visits them; the errors are collected
  and reported together.\<close>

fun broadcast_all ::
  "'c net_conn \<Rightarrow> message \<Rightarrow> addr list \<Rightarrow> ('l, 'c) server \<Rightarrow> (go_error list \<times> ('l, 'c) server) go" where
  "broadcast_all ops msg [] s = Ret ([], s)"
| "broadcast_all ops msg (i # is) s =
     go_bind (broadcast_write ops msg i s) (\<lambda>(err, s).
     go_bind (broadcast_all ops msg is s) (\<lambda>(errs, s).
     Ret ((case err of None \<Rightarrow> errs | Some e \<Rightarrow> e # errs), s)))"

definition server_WriteMessage ::
  "'c net_conn \<Rightarrow> addr list \<Rightarrow> message \<Rightarrow> ('l, 'c) server \<Rightarrow> (go_error list option \<times> ('l, 'c) server) go" where
  "server_WriteMessage ops order msg s =
     go_bind (broadcast_all ops msg order s) (\<lambda>(errs, s).
     Ret (if 0 < length errs then Some errs else None, s))"

text \<open>\<open>ReadMessage\<close>: a \<open>select\<close> over the context and the channel; \<open>first\<close> is its choice when both are
  ready.\<close>

definition server_ReadMessage ::
  "bool \<Rightarrow> ('l, 'c) server \<Rightarrow> ((go_error + message) \<times> ('l, 'c) server) option" where
  "server_ReadMessage first s =
     (if srv_done s \<and> (first \<or> srv_msgCh s = []) then Some (Inl EOF, s)
      else case srv_msgCh s of
        [] \<Rightarrow> None
      | m # ms \<Rightarrow> Some (Inr m, s\<lparr>srv_msgCh := ms, take_log := take_log s @ [m]\<rparr>))"

text \<open>How many messages the read loop of client \<open>i\<close> has read.\<close>

definition reads_of :: "addr \<Rightarrow> ('l, 'c) server \<Rightarrow> message list" where
  "reads_of i s = map snd (filter (\<lambda>x. fst x = i) (read_log s))"

datatype server_event =
    EAccept | EHandle addr | EClose | EReadMessage "go_error + message" | EWriteMessage message

inductive server_step ::
  "nat \<Rightarrow> 'c net_conn \<Rightarrow> ('l, 'c) net_listener \<Rightarrow> ('l, 'c) server \<Rightarrow> server_event \<Rightarrow> ('l, 'c) server \<Rightarrow> bool"
  for fuel ops lst where
  accept_done: "srv_accept s = ACheck \<Longrightarrow> srv_done s \<Longrightarrow> server_step fuel ops lst s EAccept (accept_return s)"
| accept_go: "srv_accept s = ACheck \<Longrightarrow> \<not> srv_done s \<Longrightarrow>
    server_step fuel ops lst s EAccept (s\<lparr>srv_accept := AAccept\<rparr>)"
| accept_err: "srv_accept s = AAccept \<Longrightarrow> Accept lst (srv_listener s) = Some (Inl e, l) \<Longrightarrow>
    server_step fuel ops lst s EAccept (accept_return (s\<lparr>srv_listener := l\<rparr>))"
| accept_conn: "srv_accept s = AAccept \<Longrightarrow> Accept lst (srv_listener s) = Some (Inr conn, l) \<Longrightarrow>
    server_step fuel ops lst s EAccept (s\<lparr>srv_listener := l, srv_accept := AStore conn\<rparr>)"
| accept_store: "srv_accept s = AStore conn \<Longrightarrow> server_step fuel ops lst s EAccept (store_client conn s)"
| check_done: "i < length (handlers s) \<Longrightarrow> handlers s ! i = HCheck \<Longrightarrow> srv_done s \<Longrightarrow>
    server_step fuel ops lst s (EHandle i) (set_pc i HStop s)"
| check_go: "i < length (handlers s) \<Longrightarrow> handlers s ! i = HCheck \<Longrightarrow> \<not> srv_done s \<Longrightarrow>
    server_step fuel ops lst s (EHandle i) (set_pc i HRead s)"
| read_closed: "i < length (handlers s) \<Longrightarrow> handlers s ! i = HRead \<Longrightarrow> client_done (objects s ! i) \<Longrightarrow>
    server_step fuel ops lst s (EHandle i) (drop_reader i s)"
| read_open: "i < length (handlers s) \<Longrightarrow> handlers s ! i = HRead \<Longrightarrow> \<not> client_done (objects s ! i) \<Longrightarrow>
    server_step fuel ops lst s (EHandle i) (set_pc i HReading s)"
| read_err: "i < length (handlers s) \<Longrightarrow> handlers s ! i = HReading \<Longrightarrow>
    client_read_default fuel ops (objects s ! i) = Some (Ret (Inl e, c)) \<Longrightarrow>
    server_step fuel ops lst s (EHandle i) (drop_reader i (set_client i c s))"
| read_msg: "i < length (handlers s) \<Longrightarrow> handlers s ! i = HReading \<Longrightarrow>
    client_read_default fuel ops (objects s ! i) = Some (Ret (Inr m, c)) \<Longrightarrow>
    server_step fuel ops lst s (EHandle i)
      (set_pc i (HRange m (srv_clients s) {}) ((set_client i c s)\<lparr>read_log := read_log s @ [(i, m)]\<rparr>))"
| range_self: "i < length (handlers s) \<Longrightarrow> handlers s ! i = HRange m snap seen \<Longrightarrow>
    i \<in> snap \<union> srv_clients s - seen \<Longrightarrow>
    server_step fuel ops lst s (EHandle i) (set_pc i (HRange m snap (insert i seen)) s)"
| range_sent: "i < length (handlers s) \<Longrightarrow> handlers s ! i = HRange m snap seen \<Longrightarrow>
    j \<in> snap \<union> srv_clients s - seen \<Longrightarrow> j \<noteq> i \<Longrightarrow> range_write ops m j s = Ret (None, s') \<Longrightarrow>
    server_step fuel ops lst s (EHandle i)
      (set_pc i (HRange m snap (insert j seen)) (s'\<lparr>fwd_log := fwd_log s @ [(i, length (reads_of i s), j)]\<rparr>))"
| range_failed: "i < length (handlers s) \<Longrightarrow> handlers s ! i = HRange m snap seen \<Longrightarrow>
    j \<in> snap \<union> srv_clients s - seen \<Longrightarrow> j \<noteq> i \<Longrightarrow> range_write ops m j s = Ret (Some e, s') \<Longrightarrow>
    server_step fuel ops lst s (EHandle i) (set_pc i (HRange m snap (insert j seen)) s')"
| range_gone: "i < length (handlers s) \<Longrightarrow> handlers s ! i = HRange m snap seen \<Longrightarrow>
    j \<in> snap - srv_clients s - seen \<Longrightarrow>
    server_step fuel ops lst s (EHandle i) (set_pc i (HRange m snap (insert j seen)) s)"
| range_end: "i < length (handlers s) \<Longrightarrow> handlers s ! i = HRange m snap seen \<Longrightarrow> snap \<subseteq> seen \<Longrightarrow>
    server_step fuel ops lst s (EHandle i) (set_pc i (HSend m snap) s)"
| send_msg: "i < length (handlers s) \<Longrightarrow> handlers s ! i = HSend m snap \<Longrightarrow> length (srv_msgCh s) < 100 \<Longrightarrow>
    server_step fuel ops lst s (EHandle i)
      (set_pc i HCheck (s\<lparr>srv_msgCh := srv_msgCh s @ [m], queue_log := queue_log s @ [(i, m)]\<rparr>))"
| send_done: "i < length (handlers s) \<Longrightarrow> handlers s ! i = HSend m snap \<Longrightarrow> srv_done s \<Longrightarrow>
    server_step fuel ops lst s (EHandle i) (set_pc i HStop s)"
| close_cancel: "closer s = CIdle \<or> closer s = CDone e \<Longrightarrow>
    server_step fuel ops lst s EClose (s\<lparr>srv_done := True, closer := CRange (srv_clients s) {}\<rparr>)"
| close_client: "closer s = CRange snap seen \<Longrightarrow> j \<in> snap \<union> srv_clients s - seen \<Longrightarrow>
    client_Close ops (objects s ! j) = (e, c) \<Longrightarrow>
    server_step fuel ops lst s EClose ((set_client j c s)\<lparr>closer := CRange snap (insert j seen)\<rparr>)"
| close_gone: "closer s = CRange snap seen \<Longrightarrow> j \<in> snap - srv_clients s - seen \<Longrightarrow>
    server_step fuel ops lst s EClose (s\<lparr>closer := CRange snap (insert j seen)\<rparr>)"
| close_range_end: "closer s = CRange snap seen \<Longrightarrow> snap \<subseteq> seen \<Longrightarrow>
    server_step fuel ops lst s EClose (s\<lparr>closer := CListen\<rparr>)"
| close_listener: "closer s = CListen \<Longrightarrow> listener_Close lst (srv_listener s) = (e, l) \<Longrightarrow>
    server_step fuel ops lst s EClose (server_disconnect e (s\<lparr>srv_listener := l, closer := CWait e\<rparr>))"
| close_wait: "closer s = CWait e \<Longrightarrow> srv_accept s = AStop \<Longrightarrow> \<forall>i < length (handlers s). handlers s ! i = HStop \<Longrightarrow>
    server_step fuel ops lst s EClose (s\<lparr>closer := CDone e\<rparr>)"
| call_read: "server_ReadMessage first s = Some (res, s') \<Longrightarrow>
    server_step fuel ops lst s (EReadMessage res) s'"
| call_write: "set order = srv_clients s \<Longrightarrow> distinct order \<Longrightarrow>
    server_WriteMessage ops order m s = Ret (errs, s') \<Longrightarrow>
    server_step fuel ops lst s (EWriteMessage m) s'"

inductive server_run ::
  "nat \<Rightarrow> 'c net_conn \<Rightarrow> ('l, 'c) net_listener \<Rightarrow> ('l, 'c) server \<Rightarrow> server_event list \<Rightarrow> ('l, 'c) server \<Rightarrow> bool"
  for fuel ops lst where
  server_run_nil: "server_run fuel ops lst s [] s"
| server_run_cons: "server_run fuel ops lst s es s' \<Longrightarrow> server_step fuel ops lst s' e s'' \<Longrightarrow>
    server_run fuel ops lst s (es @ [e]) s''"

section \<open>Frames\<close>

lemma set_pc_sel [simp]:
  "srv_listener (set_pc i pc s) = srv_listener s" "srv_handler (set_pc i pc s) = srv_handler s"
  "srv_done (set_pc i pc s) = srv_done s" "srv_disconnected (set_pc i pc s) = srv_disconnected s"
  "srv_events (set_pc i pc s) = srv_events s" "objects (set_pc i pc s) = objects s"
  "srv_clients (set_pc i pc s) = srv_clients s" "srv_readers (set_pc i pc s) = srv_readers s"
  "srv_msgCh (set_pc i pc s) = srv_msgCh s" "srv_accept (set_pc i pc s) = srv_accept s"
  "handlers (set_pc i pc s) = (handlers s)[i := pc]" "closer (set_pc i pc s) = closer s"
  "read_log (set_pc i pc s) = read_log s" "fwd_log (set_pc i pc s) = fwd_log s"
  "queue_log (set_pc i pc s) = queue_log s" "take_log (set_pc i pc s) = take_log s"
  by (simp_all add: set_pc_def)

lemma set_client_sel [simp]:
  "srv_listener (set_client i c s) = srv_listener s" "srv_handler (set_client i c s) = srv_handler s"
  "srv_done (set_client i c s) = srv_done s" "srv_disconnected (set_client i c s) = srv_disconnected s"
  "srv_events (set_client i c s) = srv_events s" "objects (set_client i c s) = (objects s)[i := c]"
  "srv_clients (set_client i c s) = srv_clients s" "srv_readers (set_client i c s) = srv_readers s"
  "srv_msgCh (set_client i c s) = srv_msgCh s" "srv_accept (set_client i c s) = srv_accept s"
  "handlers (set_client i c s) = handlers s" "closer (set_client i c s) = closer s"
  "read_log (set_client i c s) = read_log s" "fwd_log (set_client i c s) = fwd_log s"
  "queue_log (set_client i c s) = queue_log s" "take_log (set_client i c s) = take_log s"
  by (simp_all add: set_client_def)

lemma server_disconnect_sel [simp]:
  "srv_listener (server_disconnect e s) = srv_listener s" "srv_handler (server_disconnect e s) = srv_handler s"
  "srv_done (server_disconnect e s) = srv_done s" "objects (server_disconnect e s) = objects s"
  "srv_clients (server_disconnect e s) = srv_clients s" "srv_readers (server_disconnect e s) = srv_readers s"
  "srv_msgCh (server_disconnect e s) = srv_msgCh s" "srv_accept (server_disconnect e s) = srv_accept s"
  "handlers (server_disconnect e s) = handlers s" "closer (server_disconnect e s) = closer s"
  "read_log (server_disconnect e s) = read_log s" "fwd_log (server_disconnect e s) = fwd_log s"
  "queue_log (server_disconnect e s) = queue_log s" "take_log (server_disconnect e s) = take_log s"
  "(srv_disconnected (server_disconnect e s), srv_events (server_disconnect e s)) =
     disconnect_once (srv_handler s) e (srv_disconnected s, srv_events s)"
  by (simp_all add: server_disconnect_def split: prod.splits)

lemma client_Close_done: "client_Close ops t = (err, t') \<Longrightarrow> client_done t'"
  using tcp.close_closes [of ops t] by simp

text \<open>A broadcast to one client changes its object, and drops it from the map exactly when the write
  fails; then the client is closed.\<close>

lemma range_write_frame:
  assumes "range_write ops m j s = Ret (err, s')"
  shows "\<exists>c. s' = s\<lparr>srv_clients := (if err = None then srv_clients s else srv_clients s - {j}),
       srv_readers := (if err = None then srv_readers s else srv_readers s - {j}),
       objects := (objects s)[j := c]\<rparr> \<and>
     (err \<noteq> None \<longrightarrow> client_done c)"
  using assms
  by (auto simp: range_write_def go_simps set_client_def Let_def split: if_splits prod.splits
      dest: client_Close_done)

lemma broadcast_write_frame:
  assumes "broadcast_write ops m j s = Ret (err, s')"
  shows "\<exists>c. s' = s\<lparr>srv_clients := (if err = None then srv_clients s else srv_clients s - {j}),
       objects := (objects s)[j := c]\<rparr> \<and>
     (err \<noteq> None \<longrightarrow> client_done c)"
  using assms
  by (auto simp: broadcast_write_def go_simps set_client_def Let_def split: if_splits prod.splits
      dest: client_Close_done)

lemma reads_of_upd [simp]:
  "reads_of i (set_pc j pc s) = reads_of i s" "reads_of i (set_client j c s) = reads_of i s"
  "reads_of i (server_disconnect e s) = reads_of i s" "reads_of i (s\<lparr>objects := os\<rparr>) = reads_of i s"
  "reads_of i (s\<lparr>srv_clients := cl\<rparr>) = reads_of i s" "reads_of i (s\<lparr>srv_readers := cl\<rparr>) = reads_of i s"
  "reads_of i (s\<lparr>fwd_log := fs\<rparr>) = reads_of i s" "reads_of i (s\<lparr>queue_log := qs\<rparr>) = reads_of i s"
  "reads_of i (s\<lparr>read_log := read_log s' @ [(j, m)]\<rparr>) = (if i = j then reads_of i s' @ [m] else reads_of i s')"
  by (simp_all add: reads_of_def)

section \<open>Broadcast\<close>

text \<open>What a broadcast does to the client \<open>i\<close> with the write result \<open>res i\<close>.\<close>

definition after_write :: "'c net_conn \<Rightarrow> go_error option \<times> 'c tcp_client \<Rightarrow> 'c tcp_client" where
  "after_write ops r = (if fst r = None then snd r else snd (client_Close ops (snd r)))"

definition failed :: "(addr \<Rightarrow> go_error option \<times> 'c tcp_client) \<Rightarrow> addr list \<Rightarrow> addr list" where
  "failed res order = filter (\<lambda>i. fst (res i) \<noteq> None) order"

lemma failed_simps [simp]:
  "failed res [] = []"
  "failed res (i # js) = (if fst (res i) = None then failed res js else i # failed res js)"
  "set (failed res js) = {i \<in> set js. fst (res i) \<noteq> None}"
  by (auto simp: failed_def)

lemma broadcast_write_eq:
  "client_WriteMessage ops m (objects s ! i) = Ret r \<Longrightarrow>
   broadcast_write ops m i s = Ret (fst r, s\<lparr>srv_clients := srv_clients s - set (if fst r = None then [] else [i]),
      objects := (objects s)[i := after_write ops r]\<rparr>)"
  by (cases r) (auto simp: broadcast_write_def after_write_def set_client_def Let_def split: prod.splits)

lemma broadcast_all_eq:
  assumes "distinct order" and "set order \<subseteq> {..<length (objects s)}"
    and "\<And>i. i \<in> set order \<Longrightarrow> client_WriteMessage ops m (objects s ! i) = Ret (res i)"
  shows "\<exists>os. broadcast_all ops m order s =
      Ret (map (\<lambda>i. the (fst (res i))) (failed res order),
        s\<lparr>srv_clients := srv_clients s - set (failed res order), objects := os\<rparr>) \<and>
     length os = length (objects s) \<and>
     (\<forall>i < length os. os ! i = (if i \<in> set order then after_write ops (res i) else objects s ! i))"
  using assms
proof (induction order arbitrary: s)
  case Nil
  then show ?case
    by (intro exI [of _ "objects s"]) simp
next
  case (Cons i js)
  let ?s = "s\<lparr>srv_clients := srv_clients s - set (if fst (res i) = None then [] else [i]),
      objects := (objects s)[i := after_write ops (res i)]\<rparr>"
  have b: "broadcast_write ops m i s = Ret (fst (res i), ?s)"
    by (rule broadcast_write_eq) (simp add: Cons.prems(3))
  have "client_WriteMessage ops m (objects ?s ! j) = Ret (res j)" if "j \<in> set js" for j
    using that Cons.prems by (auto simp: nth_list_update)
  then obtain os where os: "broadcast_all ops m js ?s =
      Ret (map (\<lambda>i. the (fst (res i))) (failed res js),
        ?s\<lparr>srv_clients := srv_clients ?s - set (failed res js), objects := os\<rparr>)"
      "length os = length (objects s)"
      "\<forall>j < length os. os ! j = (if j \<in> set js then after_write ops (res j) else objects ?s ! j)"
    using Cons.IH [of ?s] Cons.prems(1,2) by (auto simp del: failed_simps)
  have "broadcast_all ops m (i # js) s =
      Ret (map (\<lambda>i. the (fst (res i))) (failed res (i # js)),
        s\<lparr>srv_clients := srv_clients s - set (failed res (i # js)), objects := os\<rparr>)"
  proof (cases "fst (res i)")
    case None
    then show ?thesis
      using b os(1) by simp
  next
    case (Some e)
    then have "srv_clients s - {i} - set (failed res js) = srv_clients s - set (failed res (i # js))"
      by auto
    with Some show ?thesis
      using b os(1) by (simp del: failed_simps(3))
  qed
  moreover have "\<forall>j < length os. os ! j = (if j \<in> set (i # js) then after_write ops (res j) else objects s ! j)"
    using os(2,3) Cons.prems(1,2) by (auto simp: nth_list_update)
  ultimately show ?case
    using os(2) by blast
qed

text \<open>Without knowing the results: a broadcast changes objects, and drops clients from the map.\<close>

lemma broadcast_all_frame:
  "broadcast_all ops m order s = Ret (errs, s') \<Longrightarrow>
   \<exists>os cl. s' = s\<lparr>srv_clients := cl, objects := os\<rparr> \<and> length os = length (objects s) \<and> cl \<subseteq> srv_clients s \<and>
     (\<forall>i < length os. client_done (objects s ! i) \<or> i \<in> srv_clients s - cl \<longrightarrow> client_done (os ! i))"
proof (induction order arbitrary: s errs)
  case Nil
  then show ?case
    by (intro exI [of _ "objects s"] exI [of _ "srv_clients s"]) simp
next
  case (Cons i js)
  obtain e s1 errs1 where s1: "broadcast_write ops m i s = Ret (e, s1)" "broadcast_all ops m js s1 = Ret (errs1, s')"
    using Cons.prems by (auto simp: go_simps split: prod.splits)
  obtain c where c: "s1 = s\<lparr>srv_clients := (if e = None then srv_clients s else srv_clients s - {i}),
       objects := (objects s)[i := c]\<rparr>" "e \<noteq> None \<longrightarrow> client_done c"
    using broadcast_write_frame [OF s1(1)] by blast
  obtain os cl where os: "s' = s1\<lparr>srv_clients := cl, objects := os\<rparr>" "length os = length (objects s1)"
     "cl \<subseteq> srv_clients s1"
     "\<forall>i < length os. client_done (objects s1 ! i) \<or> i \<in> srv_clients s1 - cl \<longrightarrow> client_done (os ! i)"
    using Cons.IH [OF s1(2)] by blast
  have keep: "client_done c" if "client_done (objects s ! i)"
  proof -
    have "e = Some EOF"
      using that s1(1) by (auto simp: broadcast_write_def client_WriteMessage_def Let_def split: prod.splits)
    then show ?thesis
      using c(2) by simp
  qed
  have "client_done (objects s1 ! j)"
    if "j < length (objects s)" "client_done (objects s ! j) \<or> j \<in> srv_clients s - srv_clients s1" for j
    using that c keep by (cases "i = j") (auto split: if_splits)
  then have "\<forall>j < length os. client_done (objects s ! j) \<or> j \<in> srv_clients s - cl \<longrightarrow> client_done (os ! j)"
    using os c(1) by auto
  then show ?case
    using os c(1) by (intro exI [of _ os] exI [of _ cl]) (auto split: if_splits)
qed

section \<open>Shape of the state\<close>

fun pc_keys :: "handler_pc \<Rightarrow> addr set" where
  "pc_keys (HRange m snap seen) = snap \<union> seen"
| "pc_keys (HSend m snap) = snap"
| "pc_keys _ = {}"

fun close_keys :: "close_pc \<Rightarrow> addr set" where
  "close_keys (CRange snap seen) = snap \<union> seen"
| "close_keys _ = {}"

definition server_shape :: "('l, 'c) server \<Rightarrow> bool" where
  "server_shape s \<longleftrightarrow>
     length (handlers s) = length (objects s) \<and> srv_readers s = {} \<and>
     (\<forall>k \<in> srv_clients s \<union> close_keys (closer s). k < length (objects s)) \<and>
     (\<forall>pc \<in> set (handlers s). \<forall>k \<in> pc_keys pc. k < length (objects s))"

lemma in_set_updD: "x \<in> set (xs[i := y]) \<Longrightarrow> x = y \<or> x \<in> set xs"
  using set_update_subset_insert by fastforce

lemma nth_upd: "i < length xs \<Longrightarrow> xs[j := x] ! i = (if i = j then x else xs ! i)"
  by simp

lemma nth_append_new: "i < Suc (length xs) \<Longrightarrow> (xs @ [x]) ! i = (if i = length xs then x else xs ! i)"
  by (simp add: nth_append)

lemma server_ReadMessage_frame:
  "server_ReadMessage first s = Some (res, s') \<Longrightarrow>
   res = Inl EOF \<and> s' = s \<and> srv_done s \<or>
   (\<exists>m ms. res = Inr m \<and> srv_msgCh s = m # ms \<and> s' = s\<lparr>srv_msgCh := ms, take_log := take_log s @ [m]\<rparr>)"
  by (auto simp: server_ReadMessage_def split: if_splits list.splits)

lemma server_WriteMessage_frame:
  assumes "server_WriteMessage ops order m s = Ret (errs, s')"
  shows "\<exists>os cl. s' = s\<lparr>srv_clients := cl, objects := os\<rparr> \<and> length os = length (objects s) \<and> cl \<subseteq> srv_clients s \<and>
     (\<forall>i < length os. client_done (objects s ! i) \<or> i \<in> srv_clients s - cl \<longrightarrow> client_done (os ! i))"
proof -
  obtain errs' where "broadcast_all ops m order s = Ret (errs', s')"
    using assms by (cases "broadcast_all ops m order s") (simp_all add: server_WriteMessage_def split: prod.splits)
  then show ?thesis
    by (rule broadcast_all_frame)
qed

lemma shape_pc:
  "server_shape s \<Longrightarrow> i < length (handlers s) \<Longrightarrow> handlers s ! i = pc \<Longrightarrow> k \<in> pc_keys pc \<Longrightarrow> k < length (objects s)"
  by (auto simp: server_shape_def dest: nth_mem)

lemma shape_client: "server_shape s \<Longrightarrow> k \<in> srv_clients s \<union> close_keys (closer s) \<Longrightarrow> k < length (objects s)"
  by (auto simp: server_shape_def)

lemma shape_set_pc:
  "server_shape s \<Longrightarrow> (\<And>k. k \<in> pc_keys pc \<Longrightarrow> k < length (objects s)) \<Longrightarrow> server_shape (set_pc i pc s)"
  by (auto simp: server_shape_def dest!: in_set_updD)

lemma shape_set_client [simp]: "server_shape (set_client i c s) = server_shape s"
  by (simp add: server_shape_def)

lemma shape_logs [simp]:
  "server_shape (s\<lparr>read_log := x\<rparr>) = server_shape s" "server_shape (s\<lparr>fwd_log := y\<rparr>) = server_shape s"
  "server_shape (s\<lparr>queue_log := x\<rparr>) = server_shape s" "server_shape (s\<lparr>srv_msgCh := ms\<rparr>) = server_shape s"
  by (simp_all add: server_shape_def)

lemma shape_range_write:
  "range_write ops m j s = Ret (err, s') \<Longrightarrow> server_shape s \<Longrightarrow>
   server_shape s' \<and> length (objects s') = length (objects s)"
  by (cases err) (auto simp: server_shape_def dest!: range_write_frame)

lemma shape_visit:
  "server_shape s \<Longrightarrow> i < length (handlers s) \<Longrightarrow> handlers s ! i = HRange m snap seen \<Longrightarrow>
   j \<in> snap \<union> srv_clients s - seen \<Longrightarrow> k \<in> insert j (snap \<union> seen) \<Longrightarrow> k < length (objects s)"
  using shape_pc [of s i "HRange m snap seen" k] shape_pc [of s i "HRange m snap seen" j]
  by (auto dest: shape_client)

lemma server_step_shape:
  "server_step fuel ops lst s e s' \<Longrightarrow> server_shape s \<Longrightarrow> server_shape s'"
proof (induction rule: server_step.induct)
  case (accept_store s conn)
  then show ?case
    by (auto simp: server_shape_def store_client_def less_Suc_eq)
next
  case (read_err i s e c)
  then show ?case
    unfolding drop_reader_def by (intro shape_set_pc) (auto simp: server_shape_def)
next
  case (read_closed i s)
  then show ?case
    unfolding drop_reader_def by (intro shape_set_pc) (auto simp: server_shape_def)
next
  case (range_self i s m snap seen)
  then show ?case
    using shape_visit [of s i m snap seen i] by (intro shape_set_pc) auto
next
  case (range_sent i s m snap seen j s')
  then show ?case
    using shape_range_write [of ops m j s None s'] shape_visit [of s i m snap seen j]
    by (intro shape_set_pc) auto
next
  case (range_failed i s m snap seen j e s')
  then show ?case
    using shape_range_write [of ops m j s "Some e" s'] shape_visit [of s i m snap seen j]
    by (intro shape_set_pc) auto
next
  case (close_client s snap seen j e c)
  then show ?case
    by (auto simp: server_shape_def)
next
  case (close_gone s snap seen j)
  then show ?case
    by (auto simp: server_shape_def)
next
  case (call_read first s res s')
  then show ?case
    by (auto simp: server_shape_def dest!: server_ReadMessage_frame)
next
  case (call_write order s m errs s')
  then show ?case
    by (auto simp: server_shape_def dest!: server_WriteMessage_frame)
qed (auto intro!: shape_set_pc dest: shape_pc shape_client simp: accept_return_def, auto simp: server_shape_def)

lemma server_run_shape: "server_run fuel ops lst s es s' \<Longrightarrow> server_shape s \<Longrightarrow> server_shape s'"
  by (induction rule: server_run.induct) (auto intro: server_step_shape)

section \<open>Forwarding\<close>

text \<open>The broadcast under way in the read loop of client \<open>i\<close>: its message is the last one read, the
  clients it was sent to are among those seen, and a client that was seen has got it, unless it is
  the sender or has left the map.\<close>

abbreviation (input) last_fwd :: "('l, 'c) server \<Rightarrow> addr \<Rightarrow> addr \<Rightarrow> addr \<times> nat \<times> addr" where
  "last_fwd s i j \<equiv> (i, length (reads_of i s), j)"

fun fwd_pc :: "('l, 'c) server \<Rightarrow> addr \<Rightarrow> handler_pc \<Rightarrow> bool" where
  "fwd_pc s i (HRange m snap seen) \<longleftrightarrow>
     reads_of i s \<noteq> [] \<and> last (reads_of i s) = m \<and>
     (\<forall>j. last_fwd s i j \<in> set (fwd_log s) \<longrightarrow> j \<in> seen) \<and>
     (\<forall>j \<in> seen. j = i \<or> j \<notin> srv_clients s \<or> last_fwd s i j \<in> set (fwd_log s))"
| "fwd_pc s i (HSend m snap) \<longleftrightarrow>
     reads_of i s \<noteq> [] \<and> last (reads_of i s) = m \<and>
     (\<forall>j \<in> snap. j = i \<or> j \<notin> srv_clients s \<or> last_fwd s i j \<in> set (fwd_log s))"
| "fwd_pc s i _ \<longleftrightarrow> True"

definition fwd_inv :: "('l, 'c) server \<Rightarrow> bool" where
  "fwd_inv s \<longleftrightarrow>
     server_shape s \<and> distinct (fwd_log s) \<and>
     (\<forall>i k j. (i, k, j) \<in> set (fwd_log s) \<longrightarrow> i \<noteq> j \<and> 0 < k \<and> k \<le> length (reads_of i s)) \<and>
     (\<forall>i < length (handlers s). fwd_pc s i (handlers s ! i))"

lemma reads_of_cong: "read_log s' = read_log s \<Longrightarrow> reads_of i s' = reads_of i s"
  by (simp add: reads_of_def)

lemma fwd_pc_keep:
  assumes "fwd_pc s i pc" and "reads_of i s' = reads_of i s"
    and "\<And>j. last_fwd s i j \<in> set (fwd_log s') \<longleftrightarrow> last_fwd s i j \<in> set (fwd_log s)"
    and "\<And>j. j \<in> pc_keys pc \<Longrightarrow> j \<in> srv_clients s' \<Longrightarrow> j \<in> srv_clients s"
  shows "fwd_pc s' i pc"
proof (cases pc)
  case (HRange m snap seen)
  then show ?thesis
    using assms by auto
next
  case (HSend m snap)
  then show ?thesis
    using assms by auto
qed auto

text \<open>Steps that read and forward nothing: every program counter is old, or its condition holds anew.\<close>

lemma fwd_inv_keep:
  assumes "fwd_inv s" and "server_shape s'" and "read_log s' = read_log s" and "fwd_log s' = fwd_log s"
    and "\<And>j. j < length (objects s) \<Longrightarrow> j \<in> srv_clients s' \<Longrightarrow> j \<in> srv_clients s"
    and "\<And>i. i < length (handlers s') \<Longrightarrow>
      i < length (handlers s) \<and> handlers s' ! i = handlers s ! i \<or> fwd_pc s' i (handlers s' ! i)"
  shows "fwd_inv s'"
proof -
  note r = reads_of_cong [OF assms(3)]
  have "fwd_pc s' i (handlers s' ! i)" if i: "i < length (handlers s')" for i
    using assms(6) [OF i]
  proof (elim disjE conjE)
    assume h: "i < length (handlers s)" "handlers s' ! i = handlers s ! i"
    then have "fwd_pc s i (handlers s ! i)" and sh: "server_shape s"
      using assms(1) by (auto simp: fwd_inv_def)
    then have "fwd_pc s' i (handlers s ! i)"
      using assms(5) shape_pc [OF sh h(1) refl] by (auto simp: r assms(4) intro: fwd_pc_keep [of s])
    with h show ?thesis
      by simp
  qed
  then show ?thesis
    using assms(1,2) by (simp add: fwd_inv_def r assms(4))
qed

lemma fwd_inv_read:
  assumes inv: "fwd_inv s" and i: "i < length (handlers s)"
  shows "fwd_inv (set_pc i (HRange m (srv_clients s) {}) ((set_client i c s)\<lparr>read_log := read_log s @ [(i, m)]\<rparr>))"
    (is "fwd_inv ?s")
proof -
  have "server_shape ?s"
    using inv by (intro shape_set_pc) (auto simp: fwd_inv_def dest: shape_client)
  moreover have "fwd_pc ?s k (handlers ?s ! k)" if k: "k < length (handlers ?s)" for k
  proof (cases "k = i")
    case True
    have "(i, Suc (length (reads_of i s)), j) \<notin> set (fwd_log s)" for j
      using inv unfolding fwd_inv_def by (metis Suc_n_not_le_n)
    then show ?thesis
      using True k by simp
  next
    case False
    then have "fwd_pc s k (handlers s ! k)"
      using k inv by (simp add: fwd_inv_def)
    then have "fwd_pc ?s k (handlers s ! k)"
      by (rule fwd_pc_keep) (use False in simp_all)
    then show ?thesis
      using False by simp
  qed
  ultimately show ?thesis
    using inv by (auto simp: fwd_inv_def intro: le_SucI)
qed

lemma fwd_inv_sent:
  assumes inv: "fwd_inv s" and i: "i < length (handlers s)" "handlers s ! i = HRange m snap seen"
    and j: "j \<in> snap \<union> srv_clients s - seen" "j \<noteq> i" and w: "range_write ops m j s = Ret (None, s')"
  shows "fwd_inv (set_pc i (HRange m snap (insert j seen))
     (s'\<lparr>fwd_log := fwd_log s @ [(i, length (reads_of i s), j)]\<rparr>))" (is "fwd_inv ?s")
proof -
  have sh: "server_shape s" and pc: "fwd_pc s i (HRange m snap seen)"
    using inv i by (auto simp: fwd_inv_def dest!: spec [of _ i])
  obtain c where s': "s' = s\<lparr>objects := (objects s)[j := c]\<rparr>"
    using range_write_frame [OF w] by auto
  have new: "last_fwd s i j \<notin> set (fwd_log s)"
    using pc j by auto
  have "server_shape ?s"
    using shape_range_write [OF w sh] shape_visit [OF sh i j(1)] by (intro shape_set_pc) auto
  moreover have "fwd_pc ?s k (handlers ?s ! k)" if k: "k < length (handlers ?s)" for k
  proof (cases "k = i")
    case True
    then show ?thesis
      using pc k by (auto simp: s')
  next
    case False
    then have "fwd_pc s k (handlers s ! k)"
      using k inv by (simp add: fwd_inv_def s')
    then have "fwd_pc ?s k (handlers s ! k)"
      by (rule fwd_pc_keep) (use False in \<open>simp_all add: s'\<close>)
    then show ?thesis
      using False by (simp add: s')
  qed
  ultimately show ?thesis
    using inv new j(2) pc by (auto simp: fwd_inv_def s')
qed

lemma fwd_pc_at: "fwd_inv s \<Longrightarrow> i < length (handlers s) \<Longrightarrow> handlers s ! i = pc \<Longrightarrow> fwd_pc s i pc"
  by (auto simp: fwd_inv_def)

text \<open>A step that only moves the program counter of one read loop and drops clients.\<close>

lemma fwd_inv_move:
  assumes "fwd_inv s" and "server_shape s'" and "read_log s' = read_log s" and "fwd_log s' = fwd_log s"
    and "srv_clients s' \<subseteq> srv_clients s" and "handlers s' = (handlers s)[i := pc]"
    and "fwd_pc s' i pc"
  shows "fwd_inv s'"
  by (rule fwd_inv_keep [OF assms(1-4)]) (use assms(5-7) in \<open>auto simp: nth_upd\<close>)

lemma server_step_fwd:
  assumes "server_step fuel ops lst s e s'" and "fwd_inv s"
  shows "fwd_inv s'"
proof -
  have sh: "server_shape s'"
    using assms server_step_shape by (auto simp: fwd_inv_def)
  show ?thesis
    using assms sh
  proof (induction rule: server_step.induct)
    case (accept_store s conn)
    show ?case
      by (rule fwd_inv_keep [OF accept_store.prems]) (auto simp: store_client_def nth_append_new)
  next
    case (read_msg i s m c)
    then show ?case
      by (intro fwd_inv_read)
  next
    case (range_self i s m snap seen)
    show ?case
      by (rule fwd_inv_move [OF range_self.prems, where i = i])
        (use range_self.hyps fwd_pc_at [OF range_self(4,1,2)] in auto)
  next
    case (range_sent i s m snap seen j s')
    then show ?case
      by (intro fwd_inv_sent)
  next
    case (range_failed i s m snap seen j e s')
    obtain c where s': "s' = s\<lparr>srv_clients := srv_clients s - {j}, srv_readers := srv_readers s - {j},
        objects := (objects s)[j := c]\<rparr>"
      using range_write_frame [OF range_failed(5)] by auto
    show ?case
      by (rule fwd_inv_move [OF range_failed(6,7), where i = i])
        (use fwd_pc_at [OF range_failed(6,1,2)] in \<open>auto simp: s'\<close>)
  next
    case (range_gone i s m snap seen j)
    show ?case
      by (rule fwd_inv_move [OF range_gone.prems, where i = i])
        (use range_gone.hyps fwd_pc_at [OF range_gone(4,1,2)] in auto)
  next
    case (range_end i s m snap seen)
    show ?case
      by (rule fwd_inv_move [OF range_end.prems, where i = i])
        (use range_end.hyps fwd_pc_at [OF range_end(4,1,2)] in \<open>auto simp: subset_iff\<close>)
  next
    case (call_read first s res s')
    show ?case
      by (rule fwd_inv_keep [OF call_read.prems]) (use call_read.hyps in \<open>auto dest!: server_ReadMessage_frame\<close>)
  next
    case (call_write order s m errs s')
    show ?case
      by (rule fwd_inv_keep [OF call_write.prems]) (use call_write.hyps in \<open>auto dest!: server_WriteMessage_frame\<close>)
  qed (rule fwd_inv_keep, assumption, assumption; (simp add: accept_return_def drop_reader_def nth_upd; fail))+
qed

lemma server_run_fwd: "server_run fuel ops lst s es s' \<Longrightarrow> fwd_inv s \<Longrightarrow> fwd_inv s'"
  by (induction rule: server_run.induct) (auto intro: server_step_fwd)

section \<open>The channel\<close>

definition queued_of :: "addr \<Rightarrow> ('l, 'c) server \<Rightarrow> message list" where
  "queued_of i s = map snd (filter (\<lambda>x. fst x = i) (queue_log s))"

fun hand :: "handler_pc \<Rightarrow> message list" where
  "hand (HRange m snap seen) = [m]"
| "hand (HSend m snap) = [m]"
| "hand _ = []"

text \<open>What the read loop of client \<open>i\<close> has read is what it queued, then the message in its hand; only
  a loop that stopped because the server was closed can have dropped one message.\<close>

definition queue_pc :: "('l, 'c) server \<Rightarrow> addr \<Rightarrow> handler_pc \<Rightarrow> bool" where
  "queue_pc s i pc \<longleftrightarrow>
     (\<exists>lost. reads_of i s = queued_of i s @ hand pc @ lost \<and> length lost \<le> 1 \<and>
        (lost \<noteq> [] \<longrightarrow> srv_done s \<and> pc = HStop))"

definition queue_inv :: "('l, 'c) server \<Rightarrow> bool" where
  "queue_inv s \<longleftrightarrow>
     map snd (queue_log s) = take_log s @ srv_msgCh s \<and> length (srv_msgCh s) \<le> 100 \<and>
     (\<forall>i \<ge> length (handlers s). reads_of i s = [] \<and> queued_of i s = []) \<and>
     (\<forall>i < length (handlers s). queue_pc s i (handlers s ! i))"

lemma queued_of_upd [simp]:
  "queued_of i (set_pc j pc s) = queued_of i s" "queued_of i (set_client j c s) = queued_of i s"
  "queued_of i (s\<lparr>read_log := rs\<rparr>) = queued_of i s"
  "queued_of i (s\<lparr>queue_log := queue_log s' @ [(j, m)]\<rparr>) =
     (if i = j then queued_of i s' @ [m] else queued_of i s')"
  by (simp_all add: queued_of_def)

lemma queued_of_cong: "queue_log s' = queue_log s \<Longrightarrow> queued_of i s' = queued_of i s"
  by (simp add: queued_of_def)

lemma queue_pc_keep:
  assumes "queue_pc s i pc" and "reads_of i s' = reads_of i s" and "queued_of i s' = queued_of i s"
    and "srv_done s \<Longrightarrow> srv_done s'" and "hand pc' = hand pc" and "pc = HStop \<Longrightarrow> pc' = HStop"
  shows "queue_pc s' i pc'"
  using assms by (fastforce simp: queue_pc_def)

text \<open>Steps that neither read nor queue: every loop keeps what it has in hand.\<close>

lemma queue_inv_keep:
  assumes "queue_inv s" and "read_log s' = read_log s" and "queue_log s' = queue_log s"
    and "take_log s' @ srv_msgCh s' = take_log s @ srv_msgCh s" and "length (srv_msgCh s') \<le> length (srv_msgCh s)"
    and "srv_done s \<Longrightarrow> srv_done s'" and "length (handlers s) \<le> length (handlers s')"
    and "\<And>i. i < length (handlers s) \<Longrightarrow> hand (handlers s' ! i) = hand (handlers s ! i) \<and>
       (handlers s ! i = HStop \<longrightarrow> handlers s' ! i = HStop)"
    and "\<And>i. length (handlers s) \<le> i \<Longrightarrow> i < length (handlers s') \<Longrightarrow> hand (handlers s' ! i) = []"
  shows "queue_inv s'"
proof -
  note r = reads_of_cong [OF assms(2)] and q = queued_of_cong [OF assms(3)]
  have "queue_pc s' i (handlers s' ! i)" if i: "i < length (handlers s')" for i
  proof (cases "i < length (handlers s)")
    case True
    then have "queue_pc s i (handlers s ! i)"
      using assms(1) by (simp add: queue_inv_def)
    then show ?thesis
      by (rule queue_pc_keep) (use True assms(6,8) in \<open>auto simp: r q\<close>)
  next
    case False
    then have "reads_of i s' = []" "queued_of i s' = []"
      using assms(1) by (auto simp: queue_inv_def r q)
    then show ?thesis
      using assms(9) [of i] False i by (simp add: queue_pc_def)
  qed
  then show ?thesis
    using assms by (simp add: queue_inv_def r q)
qed

lemma queue_inv_move:
  assumes "queue_inv s" and "read_log s' = read_log s" and "queue_log s' = queue_log s"
    and "take_log s' = take_log s" and "srv_msgCh s' = srv_msgCh s" and "srv_done s' = srv_done s"
    and "handlers s' = (handlers s)[i := pc]" and "i < length (handlers s)"
    and "hand pc = hand (handlers s ! i)" and "handlers s ! i \<noteq> HStop"
  shows "queue_inv s'"
  by (rule queue_inv_keep [OF assms(1-3)]) (use assms in \<open>auto simp: nth_upd\<close>)

text \<open>A step of loop \<open>i\<close> that reads, queues or drops a message.\<close>

lemma queue_inv_change:
  assumes "queue_inv s" and "i < length (handlers s)" and "handlers s' = (handlers s)[i := pc]"
    and "map snd (queue_log s') = take_log s' @ srv_msgCh s'" and "length (srv_msgCh s') \<le> 100"
    and "\<And>k. k \<noteq> i \<Longrightarrow> reads_of k s' = reads_of k s \<and> queued_of k s' = queued_of k s"
    and "srv_done s' = srv_done s" and "queue_pc s' i pc"
  shows "queue_inv s'"
proof -
  have "queue_pc s' k (handlers s' ! k)" if k: "k < length (handlers s)" for k
  proof (cases "k = i")
    case False
    then have "queue_pc s k (handlers s ! k)"
      using assms(1) k by (simp add: queue_inv_def)
    then have "queue_pc s' k (handlers s ! k)"
      by (rule queue_pc_keep) (use False assms(6,7) in auto)
    then show ?thesis
      using False assms(3) by simp
  qed (use assms k in simp)
  moreover have "reads_of k s' = [] \<and> queued_of k s' = []" if "length (handlers s) \<le> k" for k
    using assms(1,2,6) that by (auto simp: queue_inv_def)
  ultimately show ?thesis
    using assms by (simp add: queue_inv_def)
qed

lemma queue_pc_at: "queue_inv s \<Longrightarrow> i < length (handlers s) \<Longrightarrow> handlers s ! i = pc \<Longrightarrow> queue_pc s i pc"
  by (auto simp: queue_inv_def)

lemma server_step_queue:
  assumes "server_step fuel ops lst s e s'" and "queue_inv s"
  shows "queue_inv s'"
  using assms
proof (induction rule: server_step.induct)
  case (accept_store s conn)
  show ?case
    by (rule queue_inv_keep [OF accept_store.prems]) (auto simp: store_client_def nth_append)
next
  case (read_msg i s m c)
  then have "queue_pc s i HReading"
    by (intro queue_pc_at)
  then show ?case
    by (intro queue_inv_change [OF read_msg.prems read_msg.hyps(1)])
      (use read_msg.prems in \<open>auto simp: queue_pc_def queue_inv_def\<close>)
next
  case (range_sent i s m snap seen j s')
  then show ?case
    by (intro queue_inv_move [OF range_sent.prems, where i = i]) (auto dest!: range_write_frame)
next
  case (range_failed i s m snap seen j e s')
  then show ?case
    by (intro queue_inv_move [OF range_failed.prems, where i = i]) (auto dest!: range_write_frame)
next
  case (send_msg i s m snap)
  then have "queue_pc s i (HSend m snap)"
    by (intro queue_pc_at)
  then show ?case
    by (intro queue_inv_change [OF send_msg.prems send_msg.hyps(1)])
      (use send_msg in \<open>auto simp: queue_pc_def queue_inv_def reads_of_def queued_of_def\<close>)
next
  case (send_done i s m snap)
  then have "queue_pc s i (HSend m snap)"
    by (intro queue_pc_at)
  then show ?case
    by (intro queue_inv_change [OF send_done.prems send_done.hyps(1)])
      (use send_done in \<open>auto simp: queue_pc_def queue_inv_def\<close>)
next
  case (call_read first s res s')
  show ?case
    by (rule queue_inv_keep [OF call_read.prems]) (use call_read.hyps in \<open>auto dest!: server_ReadMessage_frame\<close>)
next
  case (call_write order s m errs s')
  show ?case
    by (rule queue_inv_keep [OF call_write.prems]) (use call_write.hyps in \<open>auto dest!: server_WriteMessage_frame\<close>)
qed (rule queue_inv_keep, assumption;
     (simp add: accept_return_def drop_reader_def nth_upd; fail))+

lemma server_run_queue: "server_run fuel ops lst s es s' \<Longrightarrow> queue_inv s \<Longrightarrow> queue_inv s'"
  by (induction rule: server_run.induct) (auto intro: server_step_queue)

section \<open>Closing\<close>

definition busy :: "handler_pc \<Rightarrow> bool" where
  "busy pc \<longleftrightarrow> pc \<noteq> HCheck \<and> pc \<noteq> HStop"

lemma busy_simps [simp]:
  "\<not> busy HCheck" "\<not> busy HStop" "busy HRead" "busy HReading" "busy (HRange m snap seen)" "busy (HSend m snap)"
  by (simp_all add: busy_def)

text \<open>
  How a step changes client \<open>i\<close> and its read loop: closed clients stay closed; a client that leaves the
  map is closed or its loop has stopped; nothing comes back into the map, no stopped loop restarts,
  and once the server is closed no loop starts another round.
\<close>

definition moved :: "('l, 'c) server \<Rightarrow> ('l, 'c) server \<Rightarrow> addr \<Rightarrow> bool" where
  "moved s s' i \<longleftrightarrow>
     (client_done (objects s ! i) \<longrightarrow> client_done (objects s' ! i)) \<and>
     (i \<in> srv_clients s \<longrightarrow> i \<in> srv_clients s' \<or> client_done (objects s' ! i) \<or> handlers s' ! i = HStop) \<and>
     (i \<in> srv_clients s' \<longrightarrow> i \<in> srv_clients s) \<and>
     (handlers s ! i = HStop \<longrightarrow> handlers s' ! i = HStop) \<and>
     (srv_done s \<and> busy (handlers s' ! i) \<longrightarrow> busy (handlers s ! i))"

lemma moved_same [simp]: "moved s s i"
  by (simp add: moved_def)

lemma range_write_open: "range_write ops m j s = Ret (None, s') \<Longrightarrow> \<not> client_done (objects s ! j)"
  by (auto simp: range_write_def client_WriteMessage_def Let_def split: prod.splits if_splits)

lemma server_step_moved:
  assumes "server_step fuel ops lst s e s'" and "server_shape s" and "i < length (objects s)"
  shows "moved s s' i"
  using assms
proof (induction rule: server_step.induct)
  case (accept_store s conn)
  then show ?case
    by (auto simp: moved_def store_client_def nth_append server_shape_def)
next
  case (read_err k s e c)
  then show ?case
    by (auto simp: moved_def drop_reader_def nth_upd server_shape_def elim!: client_read_default_cases)
next
  case (read_msg k s m c)
  then show ?case
    by (auto simp: moved_def nth_upd server_shape_def elim!: client_read_default_cases)
next
  case (range_sent k s m snap seen j s')
  then show ?case
    using range_write_open [OF range_sent(5)]
    by (auto simp: moved_def nth_upd server_shape_def dest!: range_write_frame split: if_splits)
next
  case (range_failed k s m snap seen j e s')
  then show ?case
    by (auto simp: moved_def nth_upd server_shape_def dest!: range_write_frame split: if_splits)
next
  case (close_client s snap seen j e c)
  then show ?case
    by (auto simp: moved_def nth_upd dest: client_Close_done)
next
  case (call_read first s res s')
  then show ?case
    by (auto simp: moved_def dest!: server_ReadMessage_frame)
next
  case (call_write order s m errs s')
  then show ?case
    by (auto simp: moved_def dest!: server_WriteMessage_frame)
qed (simp add: moved_def accept_return_def drop_reader_def nth_upd server_shape_def; fail)+

text \<open>New clients and new read loops.\<close>

lemma server_step_new:
  assumes "server_step fuel ops lst s e s'" and "server_shape s"
  shows "length (objects s) \<le> length (objects s') \<and> (srv_done s \<longrightarrow> srv_done s') \<and>
     (\<forall>i. length (objects s) \<le> i \<and> i < length (objects s') \<longrightarrow> i \<in> srv_clients s' \<and> handlers s' ! i = HCheck)"
  using assms
proof (induction rule: server_step.induct)
  case (accept_store s conn)
  then show ?case
    by (auto simp: store_client_def nth_append server_shape_def)
next
  case (call_read first s res s')
  then show ?case
    by (auto dest!: server_ReadMessage_frame)
next
  case (call_write order s m errs s')
  then show ?case
    by (auto dest!: server_WriteMessage_frame)
next
  case (range_sent k s m snap seen j s')
  then show ?case
    by (auto dest!: range_write_frame)
next
  case (range_failed k s m snap seen j e s')
  then show ?case
    by (auto dest!: range_write_frame)
qed (auto simp: accept_return_def drop_reader_def)

text \<open>
  What is documented for a \<open>net.Listener\<close>: after \<open>Close\<close>, a call of \<open>Accept\<close>, also a blocked one,
  returns an error.
\<close>

definition listener_contract :: "('l, 'c) net_listener \<Rightarrow> ('l \<Rightarrow> bool) \<Rightarrow> bool" where
  "listener_contract lst lclosed \<longleftrightarrow>
     (\<forall>l. lclosed l \<longrightarrow> (\<exists>e l'. Accept lst l = Some (Inl e, l') \<and> lclosed l')) \<and>
     (\<forall>l e l'. listener_Close lst l = (e, l') \<longrightarrow> lclosed l')"

definition open_loops_closed :: "addr set \<Rightarrow> ('l, 'c) server \<Rightarrow> bool" where
  "open_loops_closed snap s \<longleftrightarrow>
     (\<forall>i < length (objects s). busy (handlers s ! i) \<longrightarrow> i \<in> snap \<or> client_done (objects s ! i))"

fun close_stage :: "('l \<Rightarrow> bool) \<Rightarrow> ('l, 'c) server \<Rightarrow> close_pc \<Rightarrow> bool" where
  "close_stage lclosed s (CRange snap seen) \<longleftrightarrow>
     open_loops_closed snap s \<and> (\<forall>i \<in> seen. client_done (objects s ! i) \<or> i \<notin> srv_clients s)"
| "close_stage lclosed s CListen \<longleftrightarrow> open_loops_closed {} s"
| "close_stage lclosed s (CWait e) \<longleftrightarrow> open_loops_closed {} s \<and> lclosed (srv_listener s)"
| "close_stage lclosed s _ \<longleftrightarrow> True"

definition loops_tracked :: "('l, 'c) server \<Rightarrow> bool" where
  "loops_tracked s \<longleftrightarrow>
     (\<forall>i < length (objects s). handlers s ! i \<noteq> HStop \<longrightarrow> i \<in> srv_clients s \<or> client_done (objects s ! i))"

definition close_inv :: "('l \<Rightarrow> bool) \<Rightarrow> ('l, 'c) server \<Rightarrow> bool" where
  "close_inv lclosed s \<longleftrightarrow>
     server_shape s \<and> (closer s \<noteq> CIdle \<longrightarrow> srv_done s) \<and> loops_tracked s \<and> close_stage lclosed s (closer s)"

lemma loops_tracked_step:
  assumes "server_step fuel ops lst s e s'" and "server_shape s" and "loops_tracked s"
  shows "loops_tracked s'"
  unfolding loops_tracked_def
proof (intro allI impI)
  fix i assume i: "i < length (objects s')" "handlers s' ! i \<noteq> HStop"
  show "i \<in> srv_clients s' \<or> client_done (objects s' ! i)"
  proof (cases "i < length (objects s)")
    case True
    then show ?thesis
      using server_step_moved [OF assms(1,2)] assms(3) i(2) unfolding moved_def loops_tracked_def by metis
  next
    case False
    then show ?thesis
      using server_step_new [OF assms(1,2)] i(1) by simp
  qed
qed

lemma open_loops_step:
  assumes "server_step fuel ops lst s e s'" and "server_shape s" and "srv_done s" and "open_loops_closed snap s"
  shows "open_loops_closed snap s'"
  unfolding open_loops_closed_def
proof (intro allI impI)
  fix i assume i: "i < length (objects s')" "busy (handlers s' ! i)"
  show "i \<in> snap \<or> client_done (objects s' ! i)"
  proof (cases "i < length (objects s)")
    case True
    then show ?thesis
      using server_step_moved [OF assms(1,2)] assms(3,4) i(2) unfolding moved_def open_loops_closed_def by metis
  next
    case False
    then show ?thesis
      using server_step_new [OF assms(1,2)] i by simp
  qed
qed

text \<open>The keys a \<open>Close\<close> under way has seen stay closed or out of the map.\<close>

lemma seen_step:
  assumes "server_step fuel ops lst s e s'" and "server_shape s" and "i < length (objects s)"
    and "client_done (objects s ! i) \<or> i \<notin> srv_clients s"
  shows "client_done (objects s' ! i) \<or> i \<notin> srv_clients s'"
  using server_step_moved [OF assms(1-3)] assms(4) by (auto simp: moved_def)

lemma listener_step:
  assumes "server_step fuel ops lst s e s'" and "listener_contract lst lclosed" and "lclosed (srv_listener s)"
  shows "lclosed (srv_listener s')"
  using assms
proof (induction rule: server_step.induct)
  case (accept_err s e l)
  then have "\<exists>e l'. Some (Inl e, l) = Some (Inl e, l') \<and> lclosed l'"
    unfolding listener_contract_def by (metis option.inject prod.inject)
  then show ?case
    by (simp add: accept_return_def)
next
  case (accept_conn s conn l)
  then have "\<exists>e l'. Accept lst (srv_listener s) = Some (Inl e, l')"
    unfolding listener_contract_def by blast
  with accept_conn show ?case
    by simp
next
  case (close_listener s e l)
  then show ?case
    unfolding listener_contract_def by simp
next
  case (call_read first s res s')
  then show ?case
    by (auto dest!: server_ReadMessage_frame)
next
  case (call_write order s m errs s')
  then show ?case
    by (auto dest!: server_WriteMessage_frame)
next
  case (range_sent k s m snap seen j s')
  then show ?case
    by (auto dest!: range_write_frame)
next
  case (range_failed k s m snap seen j e s')
  then show ?case
    by (auto dest!: range_write_frame)
qed (simp_all add: accept_return_def drop_reader_def store_client_def)

lemma close_stage_step:
  assumes "server_step fuel ops lst s e s'" and "close_inv lclosed s" and "listener_contract lst lclosed"
    and "closer s' = closer s"
  shows "close_stage lclosed s' (closer s')"
proof -
  have sh: "server_shape s" and stage: "close_stage lclosed s (closer s)" and d: "closer s \<noteq> CIdle \<Longrightarrow> srv_done s"
    using assms(2) by (auto simp: close_inv_def)
  show ?thesis
  proof (cases "closer s")
    case (CRange snap seen)
    then have "i < length (objects s)" if "i \<in> seen" for i
      using shape_client [OF sh, of i] that by simp
    with CRange show ?thesis
      using stage d open_loops_step [OF assms(1) sh] seen_step [OF assms(1) sh] assms(4) by simp
  next
    case CListen
    then show ?thesis
      using stage d open_loops_step [OF assms(1) sh] assms(4) by simp
  next
    case (CWait e)
    then show ?thesis
      using stage d open_loops_step [OF assms(1) sh] listener_step [OF assms(1,3)] assms(4) by simp
  qed (use assms(4) in auto)
qed

text \<open>The stages of \<open>Close\<close> follow one another.\<close>

lemma close_stage_next:
  assumes "server_step fuel ops lst s e s'" and "close_inv lclosed s" and "listener_contract lst lclosed"
  shows "close_stage lclosed s' (closer s')"
  using assms
proof (induction rule: server_step.induct)
  case (close_cancel s e)
  then show ?case
    by (auto simp: open_loops_closed_def close_inv_def loops_tracked_def busy_def)
next
  case (close_client s snap seen j e c)
  have st: "open_loops_closed snap s" "\<forall>i \<in> seen. client_done (objects s ! i) \<or> i \<notin> srv_clients s"
    and sh: "server_shape s"
    using close_client(1,4) by (auto simp: close_inv_def)
  have c: "client_done c"
    using close_client(3) by (rule client_Close_done)
  have len: "i < length (objects s)" if "i \<in> insert j seen" for i
    using that close_client(1,2) shape_client [OF sh, of i] by auto
  then show ?case
    using st c by (auto simp: open_loops_closed_def nth_upd)
next
  case (close_gone s snap seen j)
  then show ?case
    by (auto simp: close_inv_def open_loops_closed_def)
next
  case (close_range_end s snap seen)
  then show ?case
    unfolding close_inv_def loops_tracked_def open_loops_closed_def
    by (auto simp: open_loops_closed_def busy_def subset_iff)
next
  case (close_listener s e l)
  then show ?case
    by (simp add: close_inv_def open_loops_closed_def listener_contract_def)
next
  case (call_read first s res s')
  note step = server_step.call_read [OF call_read(1), of fuel ops lst]
  have "closer s' = closer s"
    using call_read(1) by (auto dest!: server_ReadMessage_frame)
  then show ?case
    using close_stage_step [OF step call_read(2,3)] by simp
next
  case (call_write order s m errs s')
  note step = server_step.call_write [OF call_write(1-3), of fuel lst]
  have "closer s' = closer s"
    using call_write(3) by (auto dest!: server_WriteMessage_frame)
  then show ?case
    using close_stage_step [OF step call_write(4,5)] by simp
next
  case (range_sent k s m snap seen j s')
  note step = server_step.range_sent [OF range_sent(1-5), of fuel lst]
  have "closer s' = closer s"
    using range_sent(5) by (auto dest!: range_write_frame)
  then show ?case
    using close_stage_step [OF step range_sent(6,7)] by simp
next
  case (range_failed k s m snap seen j e s')
  note step = server_step.range_failed [OF range_failed(1-5), of fuel lst]
  have "closer s' = closer s"
    using range_failed(5) by (auto dest!: range_write_frame)
  then show ?case
    using close_stage_step [OF step range_failed(6,7)] by simp
next
  case (close_wait s e)
  then show ?case
    by simp
qed (rule close_stage_step, rule server_step.intros; (assumption | simp add: accept_return_def store_client_def drop_reader_def; fail))+

lemma close_means_done:
  "server_step fuel ops lst s e s' \<Longrightarrow> closer s \<noteq> CIdle \<longrightarrow> srv_done s \<Longrightarrow> closer s' \<noteq> CIdle \<longrightarrow> srv_done s'"
proof (induction rule: server_step.induct)
  case (call_read first s res s')
  then show ?case
    by (auto dest!: server_ReadMessage_frame)
next
  case (call_write order s m errs s')
  then show ?case
    by (auto dest!: server_WriteMessage_frame)
next
  case (range_sent k s m snap seen j s')
  then show ?case
    by (auto dest!: range_write_frame)
next
  case (range_failed k s m snap seen j e s')
  then show ?case
    by (auto dest!: range_write_frame)
qed (auto simp: accept_return_def store_client_def drop_reader_def)

lemma server_step_close:
  assumes "server_step fuel ops lst s e s'" and "close_inv lclosed s" and "listener_contract lst lclosed"
  shows "close_inv lclosed s'"
  using assms server_step_shape [OF assms(1)] loops_tracked_step [OF assms(1)] close_stage_next [OF assms]
    close_means_done [OF assms(1)]
  by (auto simp: close_inv_def)

lemma server_run_close:
  "server_run fuel ops lst s es s' \<Longrightarrow> listener_contract lst lclosed \<Longrightarrow> close_inv lclosed s \<Longrightarrow> close_inv lclosed s'"
  by (induction rule: server_run.induct) (auto intro: server_step_close)

section \<open>Clients that keep their contract\<close>

definition clients_ok :: "('c \<Rightarrow> bool) \<Rightarrow> ('l, 'c) server \<Rightarrow> bool" where
  "clients_ok closed s \<longleftrightarrow>
     server_shape s \<and> (\<forall>c \<in> set (objects s). client_ok closed c) \<and>
     (\<forall>pc \<in> set (handlers s). \<forall>m \<in> set (hand pc). wire_fits m)"

lemma clients_ok_set_pc:
  "clients_ok closed s \<Longrightarrow> server_shape (set_pc i pc s) \<Longrightarrow> (\<And>m. m \<in> set (hand pc) \<Longrightarrow> wire_fits m) \<Longrightarrow>
   clients_ok closed (set_pc i pc s)"
  by (auto simp: clients_ok_def dest!: in_set_updD)

lemma clients_ok_at:
  assumes "clients_ok closed s" and "i < length (handlers s)"
  shows "client_ok closed (objects s ! i)" and "\<And>m. m \<in> set (hand (handlers s ! i)) \<Longrightarrow> wire_fits m"
  using assms by (auto simp: clients_ok_def server_shape_def)

lemma client_write_keeps:
  "client_WriteMessage ops m c = Ret (err, c') \<Longrightarrow> client_ok closed c \<Longrightarrow> client_ok closed c'"
  by (auto simp: client_WriteMessage_def go_simps split: if_splits prod.splits intro: client_ok_set_conn)

abbreviation objects_ok :: "('c \<Rightarrow> bool) \<Rightarrow> ('l, 'c) server \<Rightarrow> bool" where
  "objects_ok closed s \<equiv> \<forall>c \<in> set (objects s). client_ok closed c"

lemma objects_ok_upd: "objects_ok closed s \<Longrightarrow> client_ok closed c \<Longrightarrow> objects_ok closed (s\<lparr>objects := (objects s)[i := c]\<rparr>)"
  by (auto dest!: in_set_updD)

lemma range_write_ok:
  assumes "conn_contract ops closed" and "objects_ok closed s" and "j < length (objects s)"
    and "range_write ops m j s = Ret (err, s')"
  shows "objects_ok closed s'"
proof -
  have c: "client_ok closed (objects s ! j)"
    using assms(2,3) by simp
  obtain e x where w: "client_WriteMessage ops m (objects s ! j) = Ret (e, x)"
    using assms(4) by (cases "client_WriteMessage ops m (objects s ! j)") (auto simp: range_write_def)
  then have x: "client_ok closed x"
    using client_write_keeps c by blast
  show ?thesis
    using assms(2,4) w x client_close_ok [OF assms(1) x]
    by (auto simp: range_write_def Let_def dest!: in_set_updD split: if_splits prod.splits)
qed

lemma broadcast_all_ok:
  assumes "conn_contract ops closed"
  shows "objects_ok closed s \<Longrightarrow> set order \<subseteq> {..<length (objects s)} \<Longrightarrow>
     broadcast_all ops m order s = Ret (errs, s') \<Longrightarrow> objects_ok closed s'"
proof (induction order arbitrary: s errs)
  case (Cons j order)
  have c: "client_ok closed (objects s ! j)"
    using Cons.prems(1,2) by simp
  obtain e s1 errs1 where s1: "broadcast_write ops m j s = Ret (e, s1)" "broadcast_all ops m order s1 = Ret (errs1, s')"
    using Cons.prems(3) by (auto simp: go_simps split: prod.splits)
  obtain e' x where w: "client_WriteMessage ops m (objects s ! j) = Ret (e', x)"
    using s1(1) by (cases "client_WriteMessage ops m (objects s ! j)") (auto simp: broadcast_write_def)
  then have x: "client_ok closed x"
    using client_write_keeps c by blast
  have "objects_ok closed s1"
    using Cons.prems(1) s1(1) w x client_close_ok [OF assms x]
    by (auto simp: broadcast_write_def Let_def dest!: in_set_updD split: if_splits prod.splits)
  moreover have "length (objects s1) = length (objects s)"
    using broadcast_write_frame [OF s1(1)] by auto
  ultimately show ?case
    using Cons.IH [OF _ _ s1(2)] Cons.prems(2) by simp
qed simp

lemma server_step_clients_ok:
  assumes "server_step fuel ops lst s e s'" and "clients_ok closed s" and "conn_contract ops closed"
  shows "clients_ok closed s'"
proof -
  have sh: "server_shape s'"
    using assms(1,2) server_step_shape by (auto simp: clients_ok_def)
  show ?thesis
    using assms sh
  proof (induction rule: server_step.induct)
    case (accept_store s conn)
    then show ?case
      by (auto simp: clients_ok_def store_client_def client_ok_new)
  next
    case (read_err i s e c)
    note ok = clients_ok_at [OF read_err(4,1)]
    have "client_ok closed c"
      using client_read_ok [OF read_err(5) ok(1) read_err(3)] by blast
    then show ?case
      using read_err(4,6) by (auto simp: clients_ok_def drop_reader_def dest!: in_set_updD)
  next
    case (read_msg i s m c)
    note ok = clients_ok_at [OF read_msg(4,1)]
    have "client_ok closed c" "wire_fits m"
      using client_read_ok [OF read_msg(5) ok(1) read_msg(3)] by blast+
    then show ?case
      using read_msg(4,6) by (auto simp: clients_ok_def dest!: in_set_updD)
  next
    case (range_self i s m snap seen)
    then show ?case
      using clients_ok_at(2) [OF range_self(4,1)] by (intro clients_ok_set_pc) auto
  next
    case (range_sent i s m snap seen j s')
    have "objects_ok closed s'"
      using range_write_ok [OF range_sent(7) _ _ range_sent(5)] range_sent(6)
        shape_visit [OF _ range_sent(1-3), of j] by (auto simp: clients_ok_def)
    then show ?case
      using range_sent range_write_frame [OF range_sent(5)] clients_ok_at(2) [OF range_sent(6,1)]
      by (auto simp: clients_ok_def dest!: in_set_updD)
  next
    case (range_failed i s m snap seen j e s')
    have "objects_ok closed s'"
      using range_write_ok [OF range_failed(7) _ _ range_failed(5)] range_failed(6)
        shape_visit [OF _ range_failed(1-3), of j] by (auto simp: clients_ok_def)
    then show ?case
      using range_failed range_write_frame [OF range_failed(5)] clients_ok_at(2) [OF range_failed(6,1)]
      by (auto simp: clients_ok_def dest!: in_set_updD)
  next
    case (range_gone i s m snap seen j)
    then show ?case
      using clients_ok_at(2) [OF range_gone(4,1)] by (intro clients_ok_set_pc) auto
  next
    case (range_end i s m snap seen)
    then show ?case
      using clients_ok_at(2) [OF range_end(4,1)] by (intro clients_ok_set_pc) auto
  next
    case (close_client s snap seen j e c)
    then have "client_ok closed (objects s ! j)"
      using shape_client [of s j] by (auto simp: clients_ok_def)
    then have "client_ok closed c"
      using client_close_ok [OF close_client(5) _ close_client(3)] by blast
    then show ?case
      using close_client(4,6) by (auto simp: clients_ok_def dest!: in_set_updD)
  next
    case (call_read first s res s')
    then show ?case
      by (auto simp: clients_ok_def dest!: server_ReadMessage_frame)
  next
    case (call_write order s m errs s')
    obtain errs' where "broadcast_all ops m order s = Ret (errs', s')"
      using call_write(3) by (cases "broadcast_all ops m order s") (simp_all add: server_WriteMessage_def split: prod.splits)
    moreover have "set order \<subseteq> {..<length (objects s)}"
      using call_write(1,4) by (auto simp: clients_ok_def dest: shape_client)
    ultimately have "objects_ok closed s'"
      using broadcast_all_ok [OF call_write(5), of s order m errs' s'] call_write(4) by (simp add: clients_ok_def)
    then show ?case
      using call_write(4,6) server_WriteMessage_frame [OF call_write(3)] by (auto simp: clients_ok_def)
  qed (auto simp: clients_ok_def accept_return_def drop_reader_def dest!: in_set_updD)
qed

lemma server_run_clients_ok:
  "server_run fuel ops lst s es s' \<Longrightarrow> conn_contract ops closed \<Longrightarrow> clients_ok closed s \<Longrightarrow> clients_ok closed s'"
  by (induction rule: server_run.induct) (auto intro: server_step_clients_ok)

section \<open>The goroutines of a closed server end\<close>

text \<open>Upper bounds on the steps left, once the context is cancelled: \<open>n\<close> bounds the number of clients.\<close>

fun steps_left :: "nat \<Rightarrow> handler_pc \<Rightarrow> nat" where
  "steps_left n HStop = 0"
| "steps_left n HCheck = 1"
| "steps_left n (HSend m snap) = 2"
| "steps_left n (HRange m snap seen) = 3 + (n - card seen)"
| "steps_left n HReading = 4 + n"
| "steps_left n HRead = 5 + n"

fun accept_left :: "'c accept_pc \<Rightarrow> nat" where
  "accept_left AStop = 0"
| "accept_left ACheck = 1"
| "accept_left (AStore conn) = 3"
| "accept_left AAccept = 4"

fun coming :: "'c accept_pc \<Rightarrow> nat" where
  "coming AAccept = 1"
| "coming (AStore conn) = 1"
| "coming _ = 0"

definition clients_bound :: "('l, 'c) server \<Rightarrow> nat" where
  "clients_bound s = length (objects s) + coming (srv_accept s)"

definition work_left :: "('l, 'c) server \<Rightarrow> nat" where
  "work_left s = accept_left (srv_accept s) + sum_list (map (steps_left (clients_bound s)) (handlers s))"

fun of_goroutine :: "server_event \<Rightarrow> bool" where
  "of_goroutine EAccept \<longleftrightarrow> True"
| "of_goroutine (EHandle i) \<longleftrightarrow> True"
| "of_goroutine _ \<longleftrightarrow> False"

lemma steps_left_mono: "n \<le> n' \<Longrightarrow> steps_left n pc \<le> steps_left n' pc"
  by (cases pc) auto

lemma sum_steps_mono: "n \<le> n' \<Longrightarrow> sum_list (map (steps_left n) pcs) \<le> sum_list (map (steps_left n') pcs)"
  by (induction pcs) (auto intro: add_mono steps_left_mono)

lemma sum_steps_update:
  assumes "i < length pcs" and "steps_left n pc < steps_left n (pcs ! i)"
  shows "sum_list (map (steps_left n) (pcs[i := pc])) < sum_list (map (steps_left n) pcs)"
  using assms
proof (induction pcs arbitrary: i)
  case (Cons p pcs)
  then show ?case
    by (cases i) auto
qed simp

lemma work_left_move:
  assumes "i < length (handlers s)" and "handlers s' = (handlers s)[i := pc]"
    and "srv_accept s' = srv_accept s" and "length (objects s') = length (objects s)"
    and "steps_left (clients_bound s) pc < steps_left (clients_bound s) (handlers s ! i)"
  shows "work_left s' < work_left s"
  using sum_steps_update [OF assms(1,5)] assms(2-4) by (simp add: work_left_def clients_bound_def)

lemma seen_room:
  assumes "server_shape s" and "i < length (handlers s)" and "handlers s ! i = HRange m snap seen"
    and "j < length (objects s)" and "j \<notin> seen"
  shows "steps_left (clients_bound s) (HRange m snap (insert j seen)) < steps_left (clients_bound s) (HRange m snap seen)"
proof -
  have sub: "insert j seen \<subseteq> {..<length (objects s)}"
    using shape_pc [OF assms(1-3)] assms(4) by auto
  then have "finite seen"
    using finite_subset by fastforce
  then show ?thesis
    using card_mono [OF _ sub] assms(5) by (simp add: clients_bound_def)
qed

lemma work_left_visit:
  assumes "server_shape s" and "i < length (handlers s)" and "handlers s ! i = HRange m snap seen"
    and "j \<in> snap \<union> srv_clients s - seen"
    and "handlers s' = (handlers s)[i := HRange m snap (insert j seen)]"
    and "srv_accept s' = srv_accept s" and "length (objects s') = length (objects s)"
  shows "work_left s' < work_left s"
  using assms(4) shape_visit [OF assms(1-4), of j] seen_room [OF assms(1-3), of j] assms(3)
  by (intro work_left_move [OF assms(2,5,6,7)]) auto

lemma goroutine_step_work:
  assumes "server_step fuel ops lst s e s'" and "server_shape s" and "srv_done s"
  shows "if of_goroutine e then work_left s' < work_left s else work_left s' = work_left s"
  using assms
proof (induction rule: server_step.induct)
  case (accept_store s conn)
  then show ?case
    by (simp add: work_left_def store_client_def clients_bound_def)
next
  case (accept_err s e l)
  then show ?case
    using sum_steps_mono [of "length (objects s)" "Suc (length (objects s))" "handlers s"]
    by (simp add: work_left_def accept_return_def clients_bound_def)
next
  case (read_closed i s)
  then show ?case
    by (simp add: work_left_move [of i _ _ HStop] drop_reader_def)
next
  case (read_err i s e c)
  then show ?case
    by (simp add: work_left_move [of i _ _ HStop] drop_reader_def)
next
  case (read_msg i s m c)
  then show ?case
    by (simp add: work_left_move [of i _ _ "HRange m (srv_clients s) {}"])
next
  case (range_self i s m snap seen)
  then show ?case
    using work_left_visit [OF range_self(4,1-3), of "set_pc i (HRange m snap (insert i seen)) s"] by simp
next
  case (range_sent i s m snap seen j s')
  then show ?case
    using range_write_frame [OF range_sent(5)]
    by (auto intro!: work_left_visit [OF range_sent(6,1-3)])
next
  case (range_failed i s m snap seen j e s')
  then show ?case
    using range_write_frame [OF range_failed(5)]
    by (auto intro!: work_left_visit [OF range_failed(6,1-3)])
next
  case (range_gone i s m snap seen j)
  then show ?case
    using work_left_visit [OF range_gone(4,1,2), of j "set_pc i (HRange m snap (insert j seen)) s"] by simp
next
  case (call_read first s res s')
  then show ?case
    by (auto simp: work_left_def clients_bound_def dest!: server_ReadMessage_frame)
next
  case (call_write order s m errs s')
  then show ?case
    by (auto simp: work_left_def clients_bound_def dest!: server_WriteMessage_frame)
next
  case (check_done i s)
  then show ?case
    by (simp add: work_left_move [of i _ _ HStop])
next
  case (read_open i s)
  then show ?case
    by (simp add: work_left_move [of i _ _ HReading])
next
  case (range_end i s m snap seen)
  then show ?case
    by (simp add: work_left_move [of i _ _ "HSend m snap"])
next
  case (send_msg i s m snap)
  then show ?case
    by (simp add: work_left_move [of i _ _ HCheck])
next
  case (send_done i s m snap)
  then show ?case
    by (simp add: work_left_move [of i _ _ HStop])
qed (auto simp: work_left_def accept_return_def clients_bound_def)

lemma server_run_work:
  assumes "server_run fuel ops lst s es s'" and "server_shape s" and "srv_done s"
  shows "length (filter of_goroutine es) + work_left s' \<le> work_left s \<and> srv_done s' \<and> server_shape s'"
  using assms
proof (induction rule: server_run.induct)
  case (server_run_cons s es s' e s'')
  then have ih: "length (filter of_goroutine es) + work_left s' \<le> work_left s" "srv_done s'" "server_shape s'"
    by auto
  show ?case
    using ih goroutine_step_work [OF server_run_cons.hyps(2) ih(3,2)] server_step_new [OF server_run_cons.hyps(2) ih(3)]
      server_step_shape [OF server_run_cons.hyps(2) ih(3)]
    by (auto split: if_splits)
qed simp

section \<open>The disconnect callback of the server\<close>

fun past_listener :: "close_pc \<Rightarrow> bool" where
  "past_listener (CWait e) \<longleftrightarrow> True"
| "past_listener (CDone e) \<longleftrightarrow> True"
| "past_listener _ \<longleftrightarrow> False"

definition callback_inv :: "connection_handler option \<Rightarrow> ('l, 'c) server \<Rightarrow> bool" where
  "callback_inv h s \<longleftrightarrow>
     srv_handler s = h \<and> disconnect_inv h (srv_disconnected s, srv_events s) \<and>
     (past_listener (closer s) \<and> h \<noteq> None \<longrightarrow> srv_disconnected s)"

lemma callback_inv_disconnect:
  assumes "srv_handler s = h" and "disconnect_inv h (srv_disconnected s, srv_events s)"
  shows "callback_inv h (server_disconnect e s)"
proof -
  have "srv_disconnected (server_disconnect e s) = fst (disconnect_once h e (srv_disconnected s, srv_events s))"
    using server_disconnect_sel(15) [of e s] assms(1) by (metis fst_conv)
  then show ?thesis
    using disconnect_once_inv [OF assms(2), of e] disconnect_once_set [of h] assms(1)
    unfolding callback_inv_def server_disconnect_sel by auto
qed

lemma callback_inv_cong:
  "callback_inv h s \<Longrightarrow> srv_handler s' = srv_handler s \<Longrightarrow> srv_disconnected s' = srv_disconnected s \<Longrightarrow>
   srv_events s' = srv_events s \<Longrightarrow> past_listener (closer s') = past_listener (closer s) \<Longrightarrow> callback_inv h s'"
  by (simp add: callback_inv_def)

lemma server_step_callback:
  "server_step fuel ops lst s e s' \<Longrightarrow> callback_inv h s \<Longrightarrow> callback_inv h s'"
proof (induction rule: server_step.induct)
  case (accept_done s)
  then show ?case
    unfolding accept_return_def by (intro callback_inv_disconnect) (simp_all add: callback_inv_def)
next
  case (accept_err s e l)
  then show ?case
    unfolding accept_return_def by (intro callback_inv_disconnect) (simp_all add: callback_inv_def)
next
  case (close_listener s e l)
  then show ?case
    by (intro callback_inv_disconnect) (simp_all add: callback_inv_def)
next
  case (range_sent i s m snap seen j s')
  then show ?case
    by (auto simp: callback_inv_def dest!: range_write_frame)
next
  case (range_failed i s m snap seen j e s')
  then show ?case
    by (auto simp: callback_inv_def dest!: range_write_frame)
next
  case (call_read first s res s')
  then show ?case
    by (auto simp: callback_inv_def dest!: server_ReadMessage_frame)
next
  case (call_write order s m errs s')
  then show ?case
    by (auto simp: callback_inv_def dest!: server_WriteMessage_frame)
qed (auto simp: callback_inv_def drop_reader_def store_client_def)

lemma server_run_callback: "server_run fuel ops lst s es s' \<Longrightarrow> callback_inv h s \<Longrightarrow> callback_inv h s'"
  by (induction rule: server_run.induct) (auto intro: server_step_callback)

section \<open>No deadlock in Close\<close>

lemma range_write_returns:
  assumes "conn_contract ops closed" and "objects_ok closed s" and "j < length (objects s)" and "wire_fits m"
  obtains err s' where "range_write ops m j s = Ret (err, s')"
proof -
  have "client_ok closed (objects s ! j)"
    using assms(2,3) by simp
  then obtain e x where "client_WriteMessage ops m (objects s ! j) = Ret (e, x)"
    using client_write_ok [OF assms(1) _ assms(4)] by blast
  then show ?thesis
    using that by (cases e; cases "client_Close ops x") (auto simp: range_write_def Let_def)
qed

text \<open>Once the context is cancelled and the clients are closed, a read loop that has not stopped can
  step.\<close>

lemma handler_progress:
  assumes "conn_contract ops closed" and "clients_ok closed s" and "open_loops_closed {} s" and "srv_done s"
    and "2050 \<le> fuel" and "i < length (handlers s)" and "handlers s ! i \<noteq> HStop"
  shows "\<exists>s'. server_step fuel ops lst s (EHandle i) s'"
proof -
  have sh: "server_shape s" and objs: "objects_ok closed s"
    using assms(2) by (simp_all add: clients_ok_def)
  note ok = clients_ok_at [OF assms(2,6)]
  have closed: "client_done (objects s ! i)" if "busy (handlers s ! i)"
    using assms(3,6) sh that by (auto simp: open_loops_closed_def server_shape_def)
  show ?thesis
  proof (cases "handlers s ! i")
    case HReading
    then obtain out where out: "client_read_default fuel ops (objects s ! i) = Some out"
      using client_read_dead [OF assms(1) ok(1) _ assms(5)] closed by auto
    then obtain res c where "out = Ret (res, c)"
      using client_read_ok [OF assms(1) ok(1)] by blast
    with out HReading show ?thesis
      using server_step.read_err [OF assms(6)] server_step.read_msg [OF assms(6)] by (cases res) blast+
  next
    case (HRange m snap seen)
    show ?thesis
    proof (cases "snap \<subseteq> seen")
      case False
      then obtain j where j: "j \<in> snap \<union> srv_clients s - seen"
        by auto
      have "wire_fits m" and len: "j < length (objects s)"
        using ok(2) [of m] HRange shape_visit [OF sh assms(6) HRange j] by simp_all
      then obtain err s' where w: "range_write ops m j s = Ret (err, s')"
        using range_write_returns [OF assms(1) objs] by blast
      show ?thesis
      proof (cases "j = i")
        case True
        then show ?thesis
          using server_step.range_self [OF assms(6) HRange] j by blast
      next
        case False
        then show ?thesis
          using server_step.range_sent [OF assms(6) HRange j] server_step.range_failed [OF assms(6) HRange j] w
          by (cases err) blast+
      qed
    qed (use assms(6) HRange server_step.range_end in blast)
  qed (use assms(4,6,7) closed in \<open>auto intro: server_step.check_done server_step.read_closed server_step.send_done\<close>)
qed

lemma accept_progress:
  assumes "listener_contract lst lclosed" and "lclosed (srv_listener s)" and "srv_done s" and "srv_accept s \<noteq> AStop"
  shows "\<exists>s'. server_step fuel ops lst s EAccept s'"
proof (cases "srv_accept s")
  case AAccept
  obtain e l where "Accept lst (srv_listener s) = Some (Inl e, l)"
    using assms(1,2) unfolding listener_contract_def by blast
  with AAccept show ?thesis
    by (blast intro: server_step.accept_err)
qed (use assms(3,4) in \<open>auto intro: server_step.accept_done server_step.accept_store\<close>)

end
