(* ===== verification/Qdp_Server_Props.thy ===== *)
theory Qdp_Server_Props
  imports Qdp_Server Qdp_Pipe
begin

text \<open>
  The properties of \<open>TCPServerTransport\<close>, from the invariants of \<open>Qdp_Server\<close>, with a concrete run: two
  clients connect, the first one sends a message, the server forwards it to the second.
\<close>

section \<open>A concrete run\<close>

text \<open>A listener with a list of connections to come.\<close>

definition list_listener :: "('c list \<times> bool, 'c) net_listener" where
  "list_listener =
     \<lparr>Accept = (\<lambda>(cs, closed).
        if closed then Some (Inl (ErrText ''use of closed network connection''), (cs, closed))
        else case cs of [] \<Rightarrow> None | c # cs' \<Rightarrow> Some (Inr c, (cs', closed))),
      listener_Close = (\<lambda>(cs, closed). (None, (cs, True)))\<rparr>"

lemma list_listener_contract: "listener_contract list_listener snd"
  by (auto simp: listener_contract_def list_listener_def)

lemma server_run_append:
  "server_run fuel ops lst s' es' s'' \<Longrightarrow> server_run fuel ops lst s es s' \<Longrightarrow> server_run fuel ops lst s (es @ es') s''"
  by (induction rule: server_run.induct) (auto simp flip: append_assoc intro: server_run_cons)

lemma server_run_one: "server_step fuel ops lst s e s' \<Longrightarrow> server_run fuel ops lst s [e] s'"
  using server_run_cons [OF server_run_nil] by fastforce

lemma accept_one:
  assumes "srv_accept s = ACheck" and "\<not> srv_done s" and "srv_listener s = (c # cs, False)"
  shows "server_run fuel ops list_listener s [EAccept, EAccept, EAccept]
     (store_client c (s\<lparr>srv_listener := (cs, False)\<rparr>))"
proof -
  let ?s1 = "s\<lparr>srv_accept := AAccept\<rparr>"
  let ?s2 = "?s1\<lparr>srv_listener := (cs, False), srv_accept := AStore c\<rparr>"
  have "server_step fuel ops list_listener s EAccept ?s1"
    using assms by (intro accept_go)
  moreover have "server_step fuel ops list_listener ?s1 EAccept ?s2"
    using assms by (intro accept_conn) (simp_all add: list_listener_def)
  moreover have "server_step fuel ops list_listener ?s2 EAccept (store_client c ?s2)"
    by (intro accept_store) simp
  ultimately have "server_run fuel ops list_listener s ([EAccept] @ [EAccept] @ [EAccept]) (store_client c ?s2)"
    by (blast intro: server_run_append server_run_one)
  moreover have "store_client c ?s2 = store_client c (s\<lparr>srv_listener := (cs, False)\<rparr>)"
    by (simp add: store_client_def)
  ultimately show ?thesis
    by simp
qed

text \<open>A message travels from the connection of client 0 to the connection of client 1.\<close>

lemma demo_msg_fits: "within_limits demo_msg" "length (wire demo_msg) \<le> 1024" "wire_fits demo_msg"
  by (simp_all add: demo_msg_def within_limits_def wire_fits_def)

definition demo_server :: "(pipe list \<times> bool, pipe) server" where
  "demo_server = projr (NewTCPServerTransport
     (\<lambda>_. Inr ([open_pipe [] [wire demo_msg], open_pipe [] []], False)) '':7000'' (Some both_callbacks))"

lemma demo_server_new:
  "NewTCPServerTransport (\<lambda>_. Inr ([open_pipe [] [wire demo_msg], open_pipe [] []], False)) '':7000''
     (Some both_callbacks) = Inr demo_server"
  by (simp add: demo_server_def NewTCPServerTransport_def Let_def)

definition demo_joined :: "(pipe list \<times> bool, pipe) server" where
  "demo_joined = store_client (open_pipe [] []) (store_client (open_pipe [] [wire demo_msg]) (demo_server\<lparr>srv_listener := ([], False)\<rparr>))"

definition join_events :: "server_event list" where
  "join_events = [EAccept, EAccept, EAccept] @ [EAccept, EAccept, EAccept]"

definition forward_events :: "server_event list" where
  "forward_events = replicate 6 (EHandle 0)"

lemma demo_join: "server_run fuel ops list_listener demo_server join_events demo_joined"
proof -
  let ?c0 = "open_pipe [] [wire demo_msg]" and ?c1 = "open_pipe [] []"
  let ?s1 = "store_client ?c0 (demo_server\<lparr>srv_listener := ([?c1], False)\<rparr>)"
  have "server_run fuel ops list_listener demo_server [EAccept, EAccept, EAccept] ?s1"
    by (rule accept_one) (simp_all add: demo_server_def NewTCPServerTransport_def Let_def)
  moreover have "server_run fuel ops list_listener ?s1 [EAccept, EAccept, EAccept]
      (store_client ?c1 (?s1\<lparr>srv_listener := ([], False)\<rparr>))"
    by (rule accept_one) (simp_all add: store_client_def demo_server_def NewTCPServerTransport_def Let_def)
  moreover have "store_client ?c1 (?s1\<lparr>srv_listener := ([], False)\<rparr>) = demo_joined"
    by (simp add: demo_joined_def store_client_def)
  ultimately show ?thesis
    unfolding join_events_def by (metis server_run_append)
qed

lemma demo_joined_sel [simp]:
  "handlers demo_joined = [HCheck, HCheck]" "srv_clients demo_joined = {0, 1}" "\<not> srv_done demo_joined"
  "objects demo_joined = [pipe_client None [] (NewMessageReader [wire demo_msg]), pipe_client None [] (NewMessageReader [])]"
  "fwd_log demo_joined = []" "read_log demo_joined = []" "srv_msgCh demo_joined = []"
  by (auto simp: demo_joined_def store_client_def demo_server_def NewTCPServerTransport_def Let_def pipe_client_new)

lemma demo_forward:
  "\<exists>s. server_run 2050 pipe_ops list_listener demo_joined forward_events s \<and>
     handlers s = [HSend demo_msg {0, 1}, HCheck] \<and> srv_clients s = {0, 1} \<and> reads_of 0 s = [demo_msg] \<and>
     objects s ! 1 = pipe_client None [wire demo_msg] (NewMessageReader [])"
proof -
  let ?m = demo_msg and ?step = "server_step 2050 pipe_ops list_listener"
  let ?c0 = "pipe_client None [] (NewMessageReader [wire ?m])" and ?c1 = "pipe_client None [] (NewMessageReader [])"
  obtain r where r: "client_read_default 2050 pipe_ops ?c0 = Some (Ret (Inr ?m, pipe_client None [] r))"
    using pipe_client_read [of "NewMessageReader [wire ?m]" ?m "[]" 2048 None "[]"] demo_msg_fits
    by (auto simp: NewMessageReader_def reader_inv_def)
  let ?s1 = "set_pc 0 HRead demo_joined"
  let ?s2 = "set_pc 0 HReading ?s1"
  let ?s3 = "set_pc 0 (HRange ?m (srv_clients ?s2) {})
     ((set_client 0 (pipe_client None [] r) ?s2)\<lparr>read_log := read_log ?s2 @ [(0, ?m)]\<rparr>)"
  let ?s4 = "set_pc 0 (HRange ?m {0, 1} {0}) ?s3"
  let ?t4 = "set_client 1 (pipe_client None [wire ?m] (NewMessageReader [])) ?s4"
  let ?s5 = "set_pc 0 (HRange ?m {0, 1} (insert 1 {0})) (?t4\<lparr>fwd_log := fwd_log ?s4 @ [(0, length (reads_of 0 ?s4), 1)]\<rparr>)"
  let ?s6 = "set_pc 0 (HSend ?m {0, 1}) ?s5"
  have "?step demo_joined (EHandle 0) ?s1"
    by (rule check_go) simp_all
  moreover have "?step ?s1 (EHandle 0) ?s2"
    by (rule read_open) (simp_all add: pipe_client_def)
  moreover have "?step ?s2 (EHandle 0) ?s3"
    by (rule read_msg) (simp_all add: r)
  moreover have "?step ?s3 (EHandle 0) ?s4"
    using range_self [of 0 ?s3 ?m "{0, 1}" "{}" 2050 pipe_ops list_listener] by simp
  moreover have "?step ?s4 (EHandle 0) ?s5"
    by (rule range_sent [of 0 ?s4 ?m "{0, 1}" "{0}" 1 pipe_ops ?t4])
      (simp_all add: range_write_def pipe_client_write demo_msg_fits)
  moreover have "?step ?s5 (EHandle 0) ?s6"
    by (rule range_end [of _ _ _ _ "{0, 1}"]) auto
  ultimately have "server_run 2050 pipe_ops list_listener demo_joined
      ([EHandle 0] @ [EHandle 0] @ [EHandle 0] @ [EHandle 0] @ [EHandle 0] @ [EHandle 0]) ?s6"
    by (blast intro: server_run_append server_run_one)
  then have "server_run 2050 pipe_ops list_listener demo_joined forward_events ?s6"
    by (simp add: forward_events_def numeral_eq_Suc)
  then show ?thesis
    by (intro exI [of _ ?s6]) (simp add: reads_of_def)
qed

lemma demo_forward_run:
  obtains s where "server_run 2050 pipe_ops list_listener demo_server (join_events @ forward_events) s"
    and "handlers s = [HSend demo_msg {0, 1}, HCheck]" and "srv_clients s = {0, 1}" and "reads_of 0 s = [demo_msg]"
  using demo_forward server_run_append [OF _ demo_join] by blast

text \<open>\<open>Close\<close> after both have joined, up to the wait for the goroutines.\<close>

definition close_events :: "server_event list" where
  "close_events = replicate 5 EClose"

lemma demo_close:
  obtains s where "server_run 2050 pipe_ops list_listener demo_server (join_events @ close_events) s"
    and "closer s = CWait None" and "srv_done s"
proof -
  let ?step = "server_step 2050 pipe_ops list_listener"
  let ?s1 = "demo_joined\<lparr>srv_done := True, closer := CRange (srv_clients demo_joined) {}\<rparr>"
  let ?c0 = "snd (client_Close pipe_ops (objects ?s1 ! 0))"
  let ?s2 = "(set_client 0 ?c0 ?s1)\<lparr>closer := CRange {0, 1} {0}\<rparr>"
  let ?c1 = "snd (client_Close pipe_ops (objects ?s2 ! 1))"
  let ?s3 = "(set_client 1 ?c1 ?s2)\<lparr>closer := CRange {0, 1} (insert 1 {0})\<rparr>"
  let ?s4 = "?s3\<lparr>closer := CListen\<rparr>"
  let ?s5 = "server_disconnect None (?s4\<lparr>srv_listener := ([], True), closer := CWait None\<rparr>)"
  have "closer demo_joined = CIdle" and l: "srv_listener demo_joined = ([], False)"
    by (simp_all add: demo_joined_def store_client_def demo_server_def NewTCPServerTransport_def Let_def)
  then have "?step demo_joined EClose ?s1"
    by (intro close_cancel) simp
  moreover have "?step ?s1 EClose ?s2"
    using close_client [of ?s1 "{0, 1}" "{}" 0 pipe_ops "fst (client_Close pipe_ops (objects ?s1 ! 0))" ?c0] by simp
  moreover have "?step ?s2 EClose ?s3"
    using close_client [of ?s2 "{0, 1}" "{0}" 1 pipe_ops "fst (client_Close pipe_ops (objects ?s2 ! 1))" ?c1] by simp
  moreover have "?step ?s3 EClose ?s4"
    by (rule close_range_end [of _ "{0, 1}" "insert 1 {0}"]) auto
  moreover have "?step ?s4 EClose ?s5"
    using l by (intro close_listener) (simp_all add: list_listener_def)
  ultimately have "server_run 2050 pipe_ops list_listener demo_joined
      ([EClose] @ [EClose] @ [EClose] @ [EClose] @ [EClose]) ?s5"
    by (blast intro: server_run_append server_run_one)
  then have "server_run 2050 pipe_ops list_listener demo_joined close_events ?s5"
    by (simp add: close_events_def numeral_eq_Suc)
  then have "server_run 2050 pipe_ops list_listener demo_server (join_events @ close_events) ?s5"
    using demo_join by (rule server_run_append)
  then show ?thesis
    by (rule that) simp_all
qed

section \<open>The start\<close>

lemma server_start:
  assumes "NewTCPServerTransport listen address h = Inr s"
  shows "fwd_inv s" and "queue_inv s" and "close_inv lclosed s" and "clients_ok closed s" and "callback_inv h s"
  using assms
  by (auto simp: NewTCPServerTransport_def Let_def fwd_inv_def server_shape_def queue_inv_def reads_of_def
      queued_of_def close_inv_def loops_tracked_def clients_ok_def callback_inv_def
      intro!: disconnect_inv_start split: sum.splits option.splits)

section \<open>Properties\<close>

text \<open>C27. The broadcast of the TCP server: in every reachable state a message was forwarded only after it
  was read, never to the client it came from and at most once to each other client; and when the
  read loop of client \<open>i\<close> is done with the broadcast of its last message, every client that was in the
  map when the broadcast began and is still there has got it.\<close>

theorem server_broadcast_once:
  assumes "NewTCPServerTransport listen address h = Inr s0" and "server_run fuel ops lst s0 es s"
  shows "distinct (fwd_log s) \<and>
     (\<forall>i k j. (i, k, j) \<in> set (fwd_log s) \<longrightarrow> i \<noteq> j \<and> 0 < k \<and> k \<le> length (reads_of i s)) \<and>
     (\<forall>i m snap. i < length (handlers s) \<longrightarrow> handlers s ! i = HSend m snap \<longrightarrow>
        last (reads_of i s) = m \<and>
        (\<forall>j \<in> snap \<inter> srv_clients s - {i}. (i, length (reads_of i s), j) \<in> set (fwd_log s)))"
proof -
  have inv: "fwd_inv s"
    using server_run_fwd [OF assms(2)] server_start(1) [OF assms(1)] by blast
  then show ?thesis
    using fwd_pc_at [OF inv] unfolding fwd_inv_def by force
qed

theorem server_broadcast_once_witness:
  "\<exists>s. server_run 2050 pipe_ops list_listener demo_server (join_events @ forward_events) s \<and>
     handlers s ! 0 = HSend demo_msg {0, 1} \<and> (0, 1, 1) \<in> set (fwd_log s)"
proof -
  obtain s where s: "server_run 2050 pipe_ops list_listener demo_server (join_events @ forward_events) s"
      "handlers s = [HSend demo_msg {0, 1}, HCheck]" "srv_clients s = {0, 1}" "reads_of 0 s = [demo_msg]"
    by (rule demo_forward_run)
  have "\<forall>j \<in> {0, 1} \<inter> srv_clients s - {0}. (0, length (reads_of 0 s), j) \<in> set (fwd_log s)"
    using server_broadcast_once [OF demo_server_new s(1)] s(2) by fastforce
  then show ?thesis
    using s by auto
qed

text \<open>C28. The channel of the TCP server: it never holds more than 100 messages; what \<open>ReadMessage\<close> has
  returned, followed by what is in the channel, is what the read loops put in; and for each client
  that is what was read from it, in order, except for the message its loop still works on and at
  most one that is dropped when the server is closed.\<close>

theorem server_channel_fifo:
  assumes "NewTCPServerTransport listen address h = Inr s0" and "server_run fuel ops lst s0 es s"
  shows "map snd (queue_log s) = take_log s @ srv_msgCh s \<and> length (srv_msgCh s) \<le> 100 \<and>
     (\<forall>i < length (handlers s). \<exists>lost. reads_of i s = queued_of i s @ hand (handlers s ! i) @ lost \<and>
        length lost \<le> 1 \<and> (lost \<noteq> [] \<longrightarrow> srv_done s \<and> handlers s ! i = HStop))"
proof -
  have "queue_inv s"
    using server_run_queue [OF assms(2)] server_start(2) [OF assms(1)] by blast
  then show ?thesis
    by (simp add: queue_inv_def queue_pc_def)
qed

theorem server_channel_fifo_witness:
  "\<exists>s. server_run 2050 pipe_ops list_listener demo_server (join_events @ forward_events) s \<and>
     (\<exists>lost. [demo_msg] = queued_of 0 s @ [demo_msg] @ lost)"
proof -
  obtain s where s: "server_run 2050 pipe_ops list_listener demo_server (join_events @ forward_events) s"
      "handlers s = [HSend demo_msg {0, 1}, HCheck]" "reads_of 0 s = [demo_msg]"
    by (rule demo_forward_run)
  then show ?thesis
    using server_channel_fifo [OF demo_server_new s(1)] by force
qed

text \<open>\<open>WriteMessage\<close> of the TCP server reaches every client of the map, whatever the order in which
  the map is visited: each client's object is the result of its own write, a client whose write
  failed is closed and leaves the map, the others stay, and an error is returned exactly when some
  write failed, with the errors of all failed writes.\<close>

theorem server_WriteMessage_reaches_all:
  assumes "distinct order" and "set order = srv_clients s" and "srv_clients s \<subseteq> {..<length (objects s)}"
    and "\<And>i. i \<in> srv_clients s \<Longrightarrow> client_WriteMessage ops m (objects s ! i) = Ret (res i)"
  shows "\<exists>os. server_WriteMessage ops order m s =
      Ret (if failed res order = [] then None else Some (map (\<lambda>i. the (fst (res i))) (failed res order)),
        s\<lparr>srv_clients := {i \<in> srv_clients s. fst (res i) = None}, objects := os\<rparr>) \<and>
     length os = length (objects s) \<and>
     (\<forall>i < length os. os ! i = (if i \<in> srv_clients s then after_write ops (res i) else objects s ! i))"
proof -
  obtain os where os: "broadcast_all ops m order s =
      Ret (map (\<lambda>i. the (fst (res i))) (failed res order),
        s\<lparr>srv_clients := srv_clients s - set (failed res order), objects := os\<rparr>)"
     "length os = length (objects s)"
     "\<forall>i < length os. os ! i = (if i \<in> set order then after_write ops (res i) else objects s ! i)"
    using broadcast_all_eq [of order s ops m res] assms by auto
  have "srv_clients s - set (failed res order) = {i \<in> srv_clients s. fst (res i) = None}"
    using assms(2) by auto
  with os show ?thesis
    using assms(2) by (intro exI [of _ os]) (simp add: server_WriteMessage_def)
qed

theorem server_WriteMessage_reaches_all_witness:
  "\<exists>os. server_WriteMessage pipe_ops [1, 0] demo_msg demo_joined =
      Ret (None, demo_joined\<lparr>srv_clients := {0, 1}, objects := os\<rparr>) \<and>
     os ! 1 = pipe_client None [wire demo_msg] (NewMessageReader [])"
proof -
  define res :: "addr \<Rightarrow> go_error option \<times> pipe tcp_client" where
    "res i = (None, pipe_client None [wire demo_msg] (NewMessageReader (if i = 0 then [wire demo_msg] else [])))" for i
  have w: "client_WriteMessage pipe_ops demo_msg (objects demo_joined ! i) = Ret (res i)"
    if "i \<in> srv_clients demo_joined" for i
    using that by (auto simp: pipe_client_write demo_msg_fits res_def)
  have eqs: "failed res [1, 0] = []" "{i \<in> srv_clients demo_joined. fst (res i) = None} = {0, 1}"
    by (auto simp: res_def)
  have pre: "distinct [1, 0 :: nat]" "set [1, 0] = srv_clients demo_joined"
      "srv_clients demo_joined \<subseteq> {..<length (objects demo_joined)}"
    by auto
  obtain os where os: "server_WriteMessage pipe_ops [1, 0] demo_msg demo_joined =
      Ret (None, demo_joined\<lparr>srv_clients := {0, 1}, objects := os\<rparr>)"
     "length os = length (objects demo_joined)"
     "\<forall>i < length os. os ! i = (if i \<in> srv_clients demo_joined then after_write pipe_ops (res i) else objects demo_joined ! i)"
    using server_WriteMessage_reaches_all [of "[1, 0]" demo_joined pipe_ops demo_msg res, OF pre w]
    unfolding eqs simp_thms if_True by blast
  then have "os ! 1 = pipe_client None [wire demo_msg] (NewMessageReader [])"
    by (simp add: after_write_def res_def)
  with os(1) show ?thesis
    by blast
qed

text \<open>\<open>Close\<close> of the TCP server does not deadlock: while it waits for the goroutines, either all of
  them have returned and it can return too, or one of them can take a step, if closed connections
  and listeners behave as documented.\<close>

theorem server_Close_no_deadlock:
  assumes "NewTCPServerTransport listen address h = Inr s0" and "server_run fuel ops lst s0 es s"
    and "conn_contract ops closed" and "listener_contract lst lclosed" and "2050 \<le> fuel"
    and "closer s = CWait e"
  shows "\<exists>ev s'. server_step fuel ops lst s ev s' \<and> (of_goroutine ev \<or> ev = EClose \<and> closer s' = CDone e)"
proof -
  have close: "close_inv lclosed s" and ok: "clients_ok closed s"
    using server_run_close [OF assms(2,4)] server_run_clients_ok [OF assms(2,3)] server_start [OF assms(1)] by blast+
  then have d: "srv_done s" and loops: "open_loops_closed {} s" and l: "lclosed (srv_listener s)"
    using assms(6) by (auto simp: close_inv_def)
  show ?thesis
  proof (cases "srv_accept s = AStop \<and> (\<forall>i < length (handlers s). handlers s ! i = HStop)")
    case True
    then have "server_step fuel ops lst s EClose (s\<lparr>closer := CDone e\<rparr>)"
      using close_wait [OF assms(6)] by blast
    then show ?thesis
      by (intro exI [of _ EClose] exI [of _ "s\<lparr>closer := CDone e\<rparr>"]) simp
  next
    case False
    then consider "srv_accept s \<noteq> AStop" | i where "i < length (handlers s)" "handlers s ! i \<noteq> HStop"
      by blast
    then obtain ev s' where "server_step fuel ops lst s ev s'" "of_goroutine ev"
    proof cases
      case 1
      then show ?thesis
        using accept_progress [OF assms(4) l d] that [of EAccept] by auto
    next
      case (2 i)
      then show ?thesis
        using handler_progress [OF assms(3) ok loops d assms(5)] that [of "EHandle i"] by auto
    qed
    then show ?thesis
      by blast
  qed
qed

theorem server_Close_no_deadlock_witness:
  "\<exists>s ev s'. server_run 2050 pipe_ops list_listener demo_server (join_events @ close_events) s \<and>
     closer s = CWait None \<and> server_step 2050 pipe_ops list_listener s ev s' \<and>
     (of_goroutine ev \<or> ev = EClose \<and> closer s' = CDone None)"
proof -
  obtain s where s: "server_run 2050 pipe_ops list_listener demo_server (join_events @ close_events) s"
      "closer s = CWait None"
    by (rule demo_close)
  then show ?thesis
    using server_Close_no_deadlock [OF demo_server_new s(1) pipe_contract list_listener_contract _ s(2)] by blast
qed

text \<open>C30. After the context of the TCP server is cancelled its goroutines take only finitely many more
  steps, whatever the schedule and whatever the clients send: together with the absence of deadlocks,
  \<open>Close\<close> returns.\<close>

theorem server_Close_ends:
  assumes "NewTCPServerTransport listen address h = Inr s0" and "server_run fuel ops lst s0 es s" and "srv_done s"
  shows "\<exists>bound. \<forall>es' s'. server_run fuel ops lst s es' s' \<longrightarrow> length (filter of_goroutine es') \<le> bound"
proof -
  have "fwd_inv s"
    using server_run_fwd [OF assms(2)] server_start(1) [OF assms(1)] by blast
  then have "server_shape s"
    by (simp add: fwd_inv_def)
  then have "length (filter of_goroutine es') \<le> work_left s" if "server_run fuel ops lst s es' s'" for es' s'
    using server_run_work [OF that _ assms(3)] by simp
  then show ?thesis
    by blast
qed

theorem server_Close_ends_witness:
  "\<exists>s bound. server_run 2050 pipe_ops list_listener demo_server (join_events @ close_events) s \<and>
     (\<forall>es' s'. server_run 2050 pipe_ops list_listener s es' s' \<longrightarrow> length (filter of_goroutine es') \<le> bound)"
proof -
  obtain s where s: "server_run 2050 pipe_ops list_listener demo_server (join_events @ close_events) s" "srv_done s"
    by (rule demo_close)
  then show ?thesis
    using server_Close_ends [OF demo_server_new s] by blast
qed

text \<open>The disconnect callback of the TCP server: \<open>OnDisconnect\<close> is called at most once, and exactly
  once when \<open>Close\<close> got past closing the listener and the callback is set.\<close>

theorem server_disconnects_once:
  assumes "NewTCPServerTransport listen address h = Inr s0" and "server_run fuel ops lst s0 es s"
  shows "disconnects (srv_events s) \<le> 1 \<and>
     (past_listener (closer s) \<longrightarrow>
        disconnects (srv_events s) = (if \<exists>f. h = Some f \<and> OnDisconnectFunc f then 1 else 0))"
proof -
  have "callback_inv h s"
    using server_run_callback [OF assms(2)] server_start(5) [OF assms(1)] by blast
  then show ?thesis
    by (auto simp: callback_inv_def disconnect_inv_def split: if_splits)
qed

theorem server_disconnects_once_witness:
  "\<exists>s. server_run 2050 pipe_ops list_listener demo_server (join_events @ close_events) s \<and>
     disconnects (srv_events s) = 1"
proof -
  obtain s where s: "server_run 2050 pipe_ops list_listener demo_server (join_events @ close_events) s"
      "closer s = CWait None"
    by (rule demo_close)
  then show ?thesis
    using server_disconnects_once [OF demo_server_new s(1)] by (auto simp: both_callbacks_def)
qed

end
