(* ===== verification/Qdp_Server_Close.thy ===== *)
theory Qdp_Server_Close
  imports Qdp_Server_Props
begin

text \<open>
  The TCP server as a program that runs: the steps of \<open>acceptLoop\<close> and \<open>handleClientReads\<close> as functions, and
  \<open>Close\<close> from its first statement to the return of \<open>wg.Wait()\<close>, for one schedule: the goroutines run only
  while \<open>Close\<close> waits, the accept loop first, then the read loops in the order of their clients. Every
  step is one of \<open>server_step\<close>, and \<open>Close\<close> comes to its end.
\<close>

section \<open>Definitions\<close>

definition accept_exec :: "('l, 'c) net_listener \<Rightarrow> ('l, 'c) server \<Rightarrow> ('l, 'c) server option" where
  "accept_exec lst s =
     (case srv_accept s of
        ACheck \<Rightarrow> Some (if srv_done s then accept_return s else s\<lparr>srv_accept := AAccept\<rparr>)
      | AAccept \<Rightarrow>
          (case Accept lst (srv_listener s) of
             None \<Rightarrow> None
           | Some (Inl e, l) \<Rightarrow> Some (accept_return (s\<lparr>srv_listener := l\<rparr>))
           | Some (Inr conn, l) \<Rightarrow> Some (s\<lparr>srv_listener := l, srv_accept := AStore conn\<rparr>))
      | AStore conn \<Rightarrow> Some (store_client conn s)
      | AStop \<Rightarrow> None)"

text \<open>One call of the function that \<open>handleClientReads\<close> passes to \<open>Range\<close>, for the key \<open>j\<close>.\<close>

definition visit_exec ::
  "'c net_conn \<Rightarrow> addr \<Rightarrow> message \<Rightarrow> addr set \<Rightarrow> addr set \<Rightarrow> addr \<Rightarrow> ('l, 'c) server \<Rightarrow> ('l, 'c) server option" where
  "visit_exec ops i m snap seen j s =
     (if j = i \<or> j \<notin> srv_clients s then Some (set_pc i (HRange m snap (insert j seen)) s)
      else case range_write ops m j s of
        Panic \<Rightarrow> None
      | Ret (None, s') \<Rightarrow>
          Some (set_pc i (HRange m snap (insert j seen)) (s'\<lparr>fwd_log := fwd_log s @ [(i, length (reads_of i s), j)]\<rparr>))
      | Ret (Some e, s') \<Rightarrow> Some (set_pc i (HRange m snap (insert j seen)) s'))"

definition handle_exec :: "nat \<Rightarrow> 'c net_conn \<Rightarrow> addr \<Rightarrow> ('l, 'c) server \<Rightarrow> ('l, 'c) server option" where
  "handle_exec fuel ops i s =
     (case handlers s ! i of
        HCheck \<Rightarrow> Some (set_pc i (if srv_done s then HStop else HRead) s)
      | HRead \<Rightarrow> Some (if client_done (objects s ! i) then drop_reader i s else set_pc i HReading s)
      | HReading \<Rightarrow>
          (case client_read_default fuel ops (objects s ! i) of
             Some (Ret (Inl e, c)) \<Rightarrow> Some (drop_reader i (set_client i c s))
           | Some (Ret (Inr m, c)) \<Rightarrow>
               Some (set_pc i (HRange m (srv_clients s) {}) ((set_client i c s)\<lparr>read_log := read_log s @ [(i, m)]\<rparr>))
           | _ \<Rightarrow> None)
      | HRange m snap seen \<Rightarrow>
          (case filter (\<lambda>j. j \<in> snap - seen) [0..<length (objects s)] of
             [] \<Rightarrow> if snap \<subseteq> seen then Some (set_pc i (HSend m snap) s) else None
           | j # _ \<Rightarrow> visit_exec ops i m snap seen j s)
      | HSend m snap \<Rightarrow>
          if srv_done s then Some (set_pc i HStop s)
          else if length (srv_msgCh s) < 100
            then Some (set_pc i HCheck (s\<lparr>srv_msgCh := srv_msgCh s @ [m], queue_log := queue_log s @ [(i, m)]\<rparr>))
          else None
      | HStop \<Rightarrow> None)"

fun goroutine_exec ::
  "nat \<Rightarrow> 'c net_conn \<Rightarrow> ('l, 'c) net_listener \<Rightarrow> server_event \<Rightarrow> ('l, 'c) server \<Rightarrow> ('l, 'c) server option" where
  "goroutine_exec fuel ops lst EAccept s = accept_exec lst s"
| "goroutine_exec fuel ops lst (EHandle i) s = (if i < length (handlers s) then handle_exec fuel ops i s else None)"
| "goroutine_exec fuel ops lst _ s = None"

text \<open>The goroutines that \<open>wg.Wait()\<close> waits for.\<close>

definition waiting_for :: "('l, 'c) server \<Rightarrow> server_event list" where
  "waiting_for s =
     (if srv_accept s = AStop then [] else [EAccept]) @
     map EHandle (filter (\<lambda>i. handlers s ! i \<noteq> HStop) [0..<length (handlers s)])"

fun wg_Wait :: "nat \<Rightarrow> 'c net_conn \<Rightarrow> ('l, 'c) net_listener \<Rightarrow> nat \<Rightarrow> ('l, 'c) server \<Rightarrow> ('l, 'c) server" where
  "wg_Wait fuel ops lst 0 s = s"
| "wg_Wait fuel ops lst (Suc n) s =
     (case waiting_for s of
        [] \<Rightarrow> s
      | ev # _ \<Rightarrow> (case goroutine_exec fuel ops lst ev s of None \<Rightarrow> s | Some s' \<Rightarrow> wg_Wait fuel ops lst n s'))"

definition close_key :: "'c net_conn \<Rightarrow> addr \<Rightarrow> ('l, 'c) server \<Rightarrow> ('l, 'c) server" where
  "close_key ops j s = set_client j (snd (client_Close ops (objects s ! j))) s"

text \<open>\<open>Close\<close> up to \<open>wg.Wait()\<close>.\<close>

definition server_cancel :: "'c net_conn \<Rightarrow> ('l, 'c) net_listener \<Rightarrow> ('l, 'c) server \<Rightarrow> go_error option \<times> ('l, 'c) server" where
  "server_cancel ops lst s =
     (let s = s\<lparr>srv_done := True\<rparr>;
          s = fold (close_key ops) (filter (\<lambda>j. j \<in> srv_clients s) [0..<length (objects s)]) s;
          (err, l) = listener_Close lst (srv_listener s)
      in (err, server_disconnect err (s\<lparr>srv_listener := l, closer := CWait err\<rparr>)))"

definition server_Close ::
  "nat \<Rightarrow> 'c net_conn \<Rightarrow> ('l, 'c) net_listener \<Rightarrow> ('l, 'c) server \<Rightarrow> go_error option \<times> ('l, 'c) server" where
  "server_Close fuel ops lst s =
     (let (err, s) = server_cancel ops lst s;
          s = wg_Wait fuel ops lst (work_left s) s
      in (err, if waiting_for s = [] then s\<lparr>closer := CDone err\<rparr> else s))"

section \<open>Every step is one of the server\<close>

lemma accept_exec_step: "accept_exec lst s = Some s' \<Longrightarrow> server_step fuel ops lst s EAccept s'"
  by (auto simp: accept_exec_def intro: server_step.intros split: accept_pc.splits option.splits sum.splits if_splits)

lemma visit_exec_step:
  assumes "visit_exec ops i m snap seen j s = Some s'" "i < length (handlers s)" "handlers s ! i = HRange m snap seen" "j \<in> snap - seen"
  shows "server_step fuel ops lst s (EHandle i) s'"
proof (cases "j = i \<or> j \<notin> srv_clients s")
  case True
  then show ?thesis
    using assms server_step.range_self [OF assms(2,3)] server_step.range_gone [OF assms(2,3), of j]
    by (auto simp: visit_exec_def)
next
  case False
  then obtain r where r: "range_write ops m j s = Ret r"
    using assms(1) by (auto simp: visit_exec_def split: go.splits)
  have j: "j \<in> snap \<union> srv_clients s - seen" "j \<noteq> i"
    using assms(4) False by auto
  show ?thesis
  proof (cases "fst r")
    case None
    then show ?thesis
      using False assms(1) r server_step.range_sent [OF assms(2,3) j, of ops "snd r"]
      by (cases r) (simp add: visit_exec_def)
  next
    case (Some e)
    then show ?thesis
      using False assms(1) r server_step.range_failed [OF assms(2,3) j, of ops e "snd r"]
      by (cases r) (simp add: visit_exec_def)
  qed
qed

lemma handle_exec_step:
  assumes "handle_exec fuel ops i s = Some s'" "i < length (handlers s)"
  shows "server_step fuel ops lst s (EHandle i) s'"
proof (cases "handlers s ! i")
  case (HRange m snap seen)
  show ?thesis
  proof (cases "filter (\<lambda>j. j \<in> snap - seen) [0..<length (objects s)]")
    case Nil
    then show ?thesis
      using assms HRange by (auto simp: handle_exec_def intro: server_step.range_end split: if_splits)
  next
    case (Cons j js)
    then have "j \<in> snap - seen"
      by (metis (no_types, lifting) list.set_intros(1) mem_Collect_eq set_filter)
    then show ?thesis
      using assms HRange Cons by (auto simp: handle_exec_def intro: visit_exec_step)
  qed
qed (use assms in \<open>auto simp: handle_exec_def intro: server_step.intros split: option.splits go.splits sum.splits if_splits\<close>)

lemma goroutine_exec_step: "goroutine_exec fuel ops lst ev s = Some s' \<Longrightarrow> server_step fuel ops lst s ev s' \<and> of_goroutine ev"
  by (cases ev) (auto simp: accept_exec_step handle_exec_step split: if_splits)

lemma wg_Wait_run: "\<exists>es. server_run fuel ops lst s es (wg_Wait fuel ops lst n s) \<and> (\<forall>e \<in> set es. of_goroutine e)"
proof (induction n arbitrary: s)
  case 0
  show ?case
    by (auto intro: server_run_nil)
next
  case (Suc n)
  show ?case
  proof (cases "\<exists>ev es s'. waiting_for s = ev # es \<and> goroutine_exec fuel ops lst ev s = Some s'")
    case True
    then obtain ev es s' where s': "waiting_for s = ev # es" "goroutine_exec fuel ops lst ev s = Some s'"
      by blast
    obtain es' where "server_run fuel ops lst s' es' (wg_Wait fuel ops lst n s')" "\<forall>e \<in> set es'. of_goroutine e"
      using Suc by blast
    then have "server_run fuel ops lst s ([ev] @ es') (wg_Wait fuel ops lst n s')" "\<forall>e \<in> set ([ev] @ es'). of_goroutine e"
      using goroutine_exec_step [OF s'(2)] server_run_append [OF _ server_run_one] by auto
    then show ?thesis
      using s' by fastforce
  next
    case False
    then have "wg_Wait fuel ops lst (Suc n) s = s"
      by (auto split: list.splits option.splits)
    then show ?thesis
      using server_run_nil [of fuel ops lst s] by fastforce
  qed
qed

text \<open>The steps of \<open>Close\<close> itself.\<close>

lemma fold_close_key_closer: "fold (close_key ops) js (t\<lparr>closer := c\<rparr>) = (fold (close_key ops) js t)\<lparr>closer := c\<rparr>"
proof (induction js arbitrary: t)
  case (Cons j js)
  have "close_key ops j (t\<lparr>closer := c\<rparr>) = (close_key ops j t)\<lparr>closer := c\<rparr>"
    by (cases t) (simp add: close_key_def set_client_def)
  then show ?case
    using Cons by simp
qed simp

lemma close_keys_run:
  assumes "distinct js" "set js \<subseteq> snap - seen" "closer s = CRange snap seen"
  shows "server_run fuel ops lst s (replicate (length js) EClose)
     ((fold (close_key ops) js s)\<lparr>closer := CRange snap (seen \<union> set js)\<rparr>)"
  using assms
proof (induction js arbitrary: s seen)
  case Nil
  then have "s\<lparr>closer := CRange snap (seen \<union> set [])\<rparr> = s"
    by simp
  then show ?case
    using server_run_nil [of fuel ops lst s] by simp
next
  case (Cons j js)
  let ?s = "(close_key ops j s)\<lparr>closer := CRange snap (insert j seen)\<rparr>"
  have "server_step fuel ops lst s EClose ?s"
    using server_step.close_client [OF Cons.prems(3), of j ops "fst (client_Close ops (objects s ! j))"] Cons.prems(2)
    by (simp add: close_key_def)
  moreover have "server_run fuel ops lst ?s (replicate (length js) EClose)
      ((fold (close_key ops) js ?s)\<lparr>closer := CRange snap (insert j seen \<union> set js)\<rparr>)"
    using Cons.prems by (intro Cons.IH) auto
  ultimately show ?case
    using server_run_append [OF _ server_run_one, of fuel ops lst ?s "replicate (length js) EClose"]
    by (simp add: fold_close_key_closer)
qed

definition idle :: "('l, 'c) server \<Rightarrow> bool" where
  "idle s \<longleftrightarrow> closer s = CIdle \<or> (\<exists>e. closer s = CDone e)"

lemma server_cancel_run:
  assumes "server_shape s" "idle s" "server_cancel ops lst s = (err, s')"
  shows "\<exists>n. server_run fuel ops lst s (EClose # replicate n EClose) s'" "closer s' = CWait err" "srv_done s'"
proof -
  let ?js = "filter (\<lambda>j. j \<in> srv_clients s) [0..<length (objects s)]"
  let ?s1 = "s\<lparr>srv_done := True, closer := CRange (srv_clients s) {}\<rparr>"
  let ?t = "fold (close_key ops) ?js (s\<lparr>srv_done := True\<rparr>)"
  let ?s2 = "?t\<lparr>closer := CRange (srv_clients s) (srv_clients s)\<rparr>"
  have js: "set ?js = srv_clients s"
    using assms(1) by (auto simp: server_shape_def)
  obtain l where s': "listener_Close lst (srv_listener ?t) = (err, l)"
      "s' = server_disconnect err (?t\<lparr>srv_listener := l, closer := CWait err\<rparr>)"
    using assms(3) by (auto simp: server_cancel_def Let_def split: prod.splits)
  have "server_run fuel ops lst ?s1 (replicate (length ?js) EClose)
      ((fold (close_key ops) ?js ?s1)\<lparr>closer := CRange (srv_clients s) ({} \<union> set ?js)\<rparr>)"
    by (rule close_keys_run) (use js in auto)
  then have run: "server_run fuel ops lst ?s1 (replicate (length ?js) EClose) ?s2"
    using js fold_close_key_closer [where t = "s\<lparr>srv_done := True\<rparr>" and js = ?js] by simp
  have "server_step fuel ops lst s EClose ?s1"
    using assms(2) by (auto simp: idle_def intro: server_step.close_cancel)
  moreover have "server_step fuel ops lst ?s2 EClose (?t\<lparr>closer := CListen\<rparr>)"
    using server_step.close_range_end [of ?s2 "srv_clients s" "srv_clients s"] by simp
  moreover have "server_step fuel ops lst (?t\<lparr>closer := CListen\<rparr>) EClose s'"
    using server_step.close_listener [of "?t\<lparr>closer := CListen\<rparr>" lst err l] s' by simp
  ultimately have "server_run fuel ops lst s ([EClose] @ replicate (length ?js) EClose @ [EClose] @ [EClose]) s'"
    using run by (blast intro: server_run_append server_run_one)
  then have "server_run fuel ops lst s (EClose # replicate (Suc (Suc (length ?js))) EClose) s'"
    by (simp add: replicate_app_Cons_same)
  then show "\<exists>n. server_run fuel ops lst s (EClose # replicate n EClose) s'"
    by blast
  have "srv_done ?t"
    by (rule fold_invariant [where P = srv_done and Q = "\<lambda>_. True"]) (simp_all add: close_key_def)
  then show "closer s' = CWait err" "srv_done s'"
    by (simp_all add: s'(2))
qed

section \<open>Close returns\<close>

lemma accept_exec_progress:
  assumes "listener_contract lst lclosed" and "lclosed (srv_listener s)" and "srv_accept s \<noteq> AStop"
  shows "accept_exec lst s \<noteq> None"
proof (cases "srv_accept s")
  case AAccept
  obtain e l where "Accept lst (srv_listener s) = Some (Inl e, l)"
    using assms(1,2) unfolding listener_contract_def by blast
  with AAccept show ?thesis
    by (simp add: accept_exec_def)
qed (use assms(3) in \<open>auto simp: accept_exec_def\<close>)

lemma visit_exec_progress:
  assumes "conn_contract ops closed" and "clients_ok closed s" and "j < length (objects s)" and "wire_fits m"
  shows "visit_exec ops i m snap seen j s \<noteq> None"
proof -
  have "objects_ok closed s"
    using assms(2) by (simp add: clients_ok_def)
  then obtain err s' where "range_write ops m j s = Ret (err, s')"
    using range_write_returns [OF assms(1) _ assms(3,4)] by blast
  then show ?thesis
    by (simp add: visit_exec_def split: option.splits)
qed

lemma handle_exec_progress:
  assumes "conn_contract ops closed" and "clients_ok closed s" and "open_loops_closed {} s" and "srv_done s"
    and "2050 \<le> fuel" and "i < length (handlers s)" and "handlers s ! i \<noteq> HStop"
  shows "handle_exec fuel ops i s \<noteq> None"
proof -
  have sh: "server_shape s"
    using assms(2) by (simp add: clients_ok_def)
  note ok = clients_ok_at [OF assms(2,6)]
  show ?thesis
  proof (cases "handlers s ! i")
    case HReading
    then have "client_done (objects s ! i)"
      using assms(3,6) sh by (auto simp: open_loops_closed_def server_shape_def)
    then obtain out where out: "client_read_default fuel ops (objects s ! i) = Some out"
      using client_read_dead [OF assms(1) ok(1) _ assms(5)] by auto
    then obtain res c where "out = Ret (res, c)"
      using client_read_ok [OF assms(1) ok(1)] by blast
    with out HReading show ?thesis
      by (simp add: handle_exec_def split: sum.splits)
  next
    case (HRange m snap seen)
    show ?thesis
    proof (cases "filter (\<lambda>j. j \<in> snap - seen) [0..<length (objects s)]")
      case Nil
      then have "snap \<subseteq> seen"
        using shape_pc [OF sh assms(6) HRange] by (auto simp: filter_empty_conv)
      then show ?thesis
        using HRange Nil by (simp add: handle_exec_def)
    next
      case (Cons j js)
      then have "j \<in> set (filter (\<lambda>j. j \<in> snap - seen) [0..<length (objects s)])"
        by simp
      then show ?thesis
        using HRange Cons visit_exec_progress [OF assms(1,2), of j m] ok(2) [of m] by (simp add: handle_exec_def)
    qed
  qed (use assms(4,7) in \<open>auto simp: handle_exec_def\<close>)
qed

text \<open>What holds while \<open>Close\<close> waits.\<close>

definition close_waits :: "('c \<Rightarrow> bool) \<Rightarrow> ('l \<Rightarrow> bool) \<Rightarrow> go_error option \<Rightarrow> ('l, 'c) server \<Rightarrow> bool" where
  "close_waits closed lclosed e s \<longleftrightarrow> close_inv lclosed s \<and> clients_ok closed s \<and> closer s = CWait e"

lemma goroutine_closer: "server_step fuel ops lst s ev s' \<Longrightarrow> of_goroutine ev \<Longrightarrow> closer s' = closer s"
proof (induction rule: server_step.induct)
  case (range_sent i s m snap seen j s')
  then show ?case
    by (auto dest!: range_write_frame)
next
  case (range_failed i s m snap seen j e s')
  then show ?case
    by (auto dest!: range_write_frame)
qed (auto simp: accept_return_def store_client_def drop_reader_def)

lemma wait_progress:
  assumes "conn_contract ops closed" "listener_contract lst lclosed" "2050 \<le> fuel" "close_waits closed lclosed e s"
    "ev \<in> set (waiting_for s)"
  obtains s' where "goroutine_exec fuel ops lst ev s = Some s'" "close_waits closed lclosed e s'" "work_left s' < work_left s"
proof -
  have d: "srv_done s" and sh: "server_shape s" and ol: "open_loops_closed {} s" and lc: "lclosed (srv_listener s)"
      and ok: "clients_ok closed s"
    using assms(4) by (auto simp: close_waits_def close_inv_def)
  from assms(5) consider "ev = EAccept" "srv_accept s \<noteq> AStop" | i where "ev = EHandle i" "i < length (handlers s)" "handlers s ! i \<noteq> HStop"
    by (auto simp: waiting_for_def split: if_splits)
  then have "goroutine_exec fuel ops lst ev s \<noteq> None"
    by cases (simp_all add: accept_exec_progress [OF assms(2) lc] handle_exec_progress [OF assms(1) ok ol d assms(3)] del: not_None_eq)
  then obtain s' where s': "goroutine_exec fuel ops lst ev s = Some s'"
    by blast
  note step = goroutine_exec_step [OF s', THEN conjunct1] goroutine_exec_step [OF s', THEN conjunct2]
  have "close_waits closed lclosed e s'"
    using assms(4) server_step_close [OF step(1) _ assms(2)] server_step_clients_ok [OF step(1) _ assms(1)] goroutine_closer [OF step]
    by (auto simp: close_waits_def)
  moreover have "work_left s' < work_left s"
    using goroutine_step_work [OF step(1) sh d] step(2) by simp
  ultimately show ?thesis
    using that s' by blast
qed

lemma wg_Wait_returns:
  assumes "conn_contract ops closed" "listener_contract lst lclosed" "2050 \<le> fuel" "close_waits closed lclosed e s" "work_left s \<le> n"
  shows "waiting_for (wg_Wait fuel ops lst n s) = [] \<and> close_waits closed lclosed e (wg_Wait fuel ops lst n s)"
  using assms(4,5)
proof (induction n arbitrary: s)
  case 0
  have "waiting_for s = []"
  proof (cases "waiting_for s")
    case (Cons ev evs)
    then show ?thesis
      using wait_progress [OF assms(1-3) 0(1), of ev] 0(2) by auto
  qed
  then show ?case
    using 0(1) by simp
next
  case (Suc n)
  show ?case
  proof (cases "waiting_for s")
    case (Cons ev evs)
    then obtain s' where "goroutine_exec fuel ops lst ev s = Some s'" "close_waits closed lclosed e s'" "work_left s' < work_left s"
      using wait_progress [OF assms(1-3) Suc.prems(1), of ev] by auto
    then show ?thesis
      using Suc.IH [of s'] Suc.prems(2) Cons by simp
  qed (use Suc.prems(1) in simp)
qed

text \<open>A server that a run has made, with its invariants.\<close>

definition server_reach :: "nat \<Rightarrow> 'c net_conn \<Rightarrow> ('l, 'c) net_listener \<Rightarrow> ('l, 'c) server \<Rightarrow> bool" where
  "server_reach fuel ops lst s \<longleftrightarrow>
     (\<exists>listen address s0 es. NewTCPServerTransport listen address (Some both_callbacks) = Inr s0 \<and> server_run fuel ops lst s0 es s)"

lemma server_reach_run: "server_reach fuel ops lst s \<Longrightarrow> server_run fuel ops lst s es s' \<Longrightarrow> server_reach fuel ops lst s'"
  unfolding server_reach_def using server_run_append by blast

lemma stopped_wait:
  "closer s = CWait e \<Longrightarrow> waiting_for s = [] \<Longrightarrow> server_step fuel ops lst s EClose (s\<lparr>closer := CDone e\<rparr>)"
  by (rule server_step.close_wait) (auto simp: waiting_for_def filter_empty_conv split: if_splits)

lemma wg_Wait_closer: "closer (wg_Wait fuel ops lst n s) = closer s"
proof -
  have "server_run fuel ops lst s es s' \<Longrightarrow> \<forall>e \<in> set es. of_goroutine e \<Longrightarrow> closer s' = closer s" for es s s'
    by (induction rule: server_run.induct) (auto dest: goroutine_closer)
  then show ?thesis
    using wg_Wait_run by blast
qed

lemma server_Close_run:
  assumes "server_shape s" "idle s" "server_Close fuel ops lst s = (err, s')"
  shows "\<exists>es. server_run fuel ops lst s (EClose # es) s' \<and> (\<forall>e \<in> set es. of_goroutine e \<or> e = EClose)"
proof -
  obtain s1 where s1: "server_cancel ops lst s = (err, s1)"
    using assms(3) by (auto simp: server_Close_def Let_def split: prod.splits)
  let ?s2 = "wg_Wait fuel ops lst (work_left s1) s1"
  obtain n where n: "server_run fuel ops lst s (EClose # replicate n EClose) s1"
    using server_cancel_run [OF assms(1,2) s1] by blast
  obtain es where es: "server_run fuel ops lst s1 es ?s2" "\<forall>e \<in> set es. of_goroutine e"
    using wg_Wait_run by blast
  have run: "server_run fuel ops lst s (EClose # replicate n EClose @ es) ?s2"
    using server_run_append [OF es(1) n] by simp
  show ?thesis
  proof (cases "waiting_for ?s2 = []")
    case True
    then have "server_step fuel ops lst ?s2 EClose s'"
      using stopped_wait [of ?s2 err] server_cancel_run(2) [OF assms(1,2) s1] s1 assms(3)
      by (simp add: server_Close_def wg_Wait_closer)
    then show ?thesis
      using server_run_cons [OF run] es(2) by (intro exI [of _ "replicate n EClose @ es @ [EClose]"]) auto
  next
    case False
    then show ?thesis
      using run es(2) s1 assms(3) by (intro exI [of _ "replicate n EClose @ es"]) (auto simp: server_Close_def)
  qed
qed

lemma server_Close_ends_well:
  assumes "server_reach fuel ops lst s" and "idle s"
    and "conn_contract ops closed" and "listener_contract lst lclosed" and "2050 \<le> fuel"
  shows "\<exists>err s' es. server_Close fuel ops lst s = (err, s') \<and> closer s' = CDone err \<and> srv_done s' \<and> srv_accept s' = AStop \<and>
     (\<forall>pc \<in> set (handlers s'). pc = HStop) \<and> lclosed (srv_listener s') \<and> disconnects (srv_events s') = 1 \<and>
     server_run fuel ops lst s (EClose # es) s' \<and> (\<forall>e \<in> set es. of_goroutine e \<or> e = EClose)"
proof -
  obtain listen address s0 es0 where s0: "NewTCPServerTransport listen address (Some both_callbacks) = Inr s0"
      "server_run fuel ops lst s0 es0 s"
    using assms(1) by (auto simp: server_reach_def)
  have inv: "close_inv lclosed s" "clients_ok closed s" "callback_inv (Some both_callbacks) s"
    using server_start(3-5) [OF s0(1)] server_run_close [OF s0(2) assms(4)] server_run_clients_ok [OF s0(2) assms(3)]
      server_run_callback [OF s0(2)] by blast+
  then have sh: "server_shape s"
    by (simp add: close_inv_def)
  obtain err s1 where s1: "server_cancel ops lst s = (err, s1)"
    by (cases "server_cancel ops lst s")
  note cancel = server_cancel_run [OF sh assms(2) s1]
  then obtain n where "server_run fuel ops lst s (EClose # replicate n EClose) s1"
    by blast
  then have "close_waits closed lclosed err s1"
    using inv(1,2) server_run_close [OF _ assms(4)] server_run_clients_ok [OF _ assms(3)] cancel(2) by (simp add: close_waits_def)
  let ?s2 = "wg_Wait fuel ops lst (work_left s1) s1"
  have s2: "waiting_for ?s2 = []" "close_waits closed lclosed err ?s2"
    using wg_Wait_returns [OF assms(3-5) \<open>close_waits closed lclosed err s1\<close>] by simp_all
  let ?s' = "?s2\<lparr>closer := CDone err\<rparr>"
  have s': "server_Close fuel ops lst s = (err, ?s')"
    using s1 s2(1) by (simp add: server_Close_def)
  then obtain es where es: "server_run fuel ops lst s (EClose # es) ?s'" "\<forall>e \<in> set es. of_goroutine e \<or> e = EClose"
    using server_Close_run [OF sh assms(2)] by blast
  have "disconnects (srv_events ?s') = 1"
    using server_run_callback [OF es(1) inv(3)] by (simp add: callback_inv_def disconnect_inv_def both_callbacks_def)
  moreover have "srv_accept ?s2 = AStop" "\<forall>pc \<in> set (handlers ?s2). pc = HStop"
    using s2(1) by (auto simp: waiting_for_def filter_empty_conv in_set_conv_nth split: if_splits)
  moreover have "srv_done ?s2" "lclosed (srv_listener ?s2)"
    using s2(2) by (auto simp: close_waits_def close_inv_def)
  ultimately show ?thesis
    using s' es by (intro exI [of _ err] exI [of _ ?s'] exI [of _ es]) simp
qed

section \<open>Property\<close>



end
