(* ===== verification/Qdp_Transports.thy ===== *)
theory Qdp_Transports
  imports Qdp_Broker_Objects Qdp_Server_Close
begin

text \<open>
  The broker over the three transports of the library. \<open>ITransport\<close> becomes a datatype with one constructor
  per implementation, the methods dispatch on it, and the constructors are the ones that
  \<open>setupTcpTransport\<close> and \<open>setupFtdiTransport\<close> call, with the connection handler that has both callbacks.

  Everything foreign is in the record \<open>runtime\<close>: network and USB, and the choices of the Go runtime that a
  call of a server's method leaves open: which case a \<open>select\<close> takes, the order in which \<open>Range\<close> visits the
  clients, and how the goroutines run while \<open>Close\<close> waits. The theorems hold for all choices that \<open>resolves\<close>
  allows. Between the calls the goroutines of a server take steps of their own (\<open>own_moves\<close>).
\<close>

section \<open>Definitions\<close>

datatype ('l, 'c, 'u, 'e, 'o) any_transport =
    TcpClient "'c tcp_client"
  | TcpServer "('l, 'c) server"
  | FtdiDevice "('u, 'e, 'o) ftdi"

record ('n, 'l, 'c, 'u, 'e, 'o) runtime =
  rt_fuel :: nat
  rt_dial :: "string \<Rightarrow> 'n \<Rightarrow> (go_error + 'c) \<times> 'n"
  rt_listen :: "string \<Rightarrow> 'n \<Rightarrow> (go_error + 'l) \<times> 'n"
  rt_bus :: "'n \<Rightarrow> 'u \<times> 'n"
  rt_conn :: "'c net_conn"
  rt_listener :: "('l, 'c) net_listener"
  rt_usb :: "('u, 'e, 'o) gousb"
  rt_inf :: int
  rt_gone :: "go_error \<Rightarrow> bool"
  rt_in :: "'e usb_read"
  rt_out :: "'o usb_write"
  rt_first :: "('l, 'c) server \<Rightarrow> bool"
  rt_order :: "('l, 'c) server \<Rightarrow> addr list"
  rt_close :: "('l, 'c) server \<Rightarrow> go_error option \<times> ('l, 'c) server"

fun any_ReadMessage ::
  "('n, 'l, 'c, 'u, 'e, 'o) runtime \<Rightarrow> ('l, 'c, 'u, 'e, 'o) any_transport transport_read" where
  "any_ReadMessage rt (TcpClient t) =
     map_option (map_go (apsnd TcpClient)) (client_ReadMessage (rt_fuel rt) (rt_conn rt) t)"
| "any_ReadMessage rt (TcpServer s) = map_option (Ret \<circ> apsnd TcpServer) (server_ReadMessage (rt_first rt s) s)"
| "any_ReadMessage rt (FtdiDevice t) =
     map_option (map_go (apsnd FtdiDevice)) (ftdi_ReadMessage (rt_fuel rt) (rt_usb rt) (rt_inf rt) (rt_gone rt) (rt_in rt) t)"

text \<open>\<open>fmt.Errorf("broadcast errors: %v", errors)\<close>: the texts of the errors in brackets.\<close>

fun spaced :: "string list \<Rightarrow> string" where
  "spaced [] = []"
| "spaced [s] = s"
| "spaced (s # ss) = s @ '' '' @ spaced ss"

definition broadcast_errors :: "go_error list \<Rightarrow> go_error" where
  "broadcast_errors errs = ErrText (''broadcast errors: ['' @ spaced (map error_text errs) @ '']'')"

fun any_WriteMessage ::
  "('n, 'l, 'c, 'u, 'e, 'o) runtime \<Rightarrow> ('l, 'c, 'u, 'e, 'o) any_transport transport_write" where
  "any_WriteMessage rt m (TcpClient t) = map_go (apsnd TcpClient) (client_WriteMessage (rt_conn rt) m t)"
| "any_WriteMessage rt m (TcpServer s) =
     map_go (map_prod (map_option broadcast_errors) TcpServer) (server_WriteMessage (rt_conn rt) (rt_order rt s) m s)"
| "any_WriteMessage rt m (FtdiDevice t) =
     map_go (apsnd FtdiDevice) (ftdi_WriteMessage (rt_usb rt) (rt_inf rt) (rt_gone rt) (rt_out rt) m t)"

fun any_Close ::
  "('n, 'l, 'c, 'u, 'e, 'o) runtime \<Rightarrow> ('l, 'c, 'u, 'e, 'o) any_transport transport_close" where
  "any_Close rt (TcpClient t) = apsnd TcpClient (client_Close (rt_conn rt) t)"
| "any_Close rt (TcpServer s) = apsnd TcpServer (rt_close rt s)"
| "any_Close rt (FtdiDevice t) = apsnd FtdiDevice (ftdi_Close t)"

fun any_events :: "('l, 'c, 'u, 'e, 'o) any_transport \<Rightarrow> conn_event list" where
  "any_events (TcpClient t) = client_events t"
| "any_events (TcpServer s) = srv_events s"
| "any_events (FtdiDevice t) = f_events t"

text \<open>The transports as the broker of \<open>main\<close> uses them.\<close>

definition program_kit ::
  "('n, 'l, 'c, 'u, 'e, 'o) runtime \<Rightarrow> ('n, ('l, 'c, 'u, 'e, 'o) any_transport) transport_kit" where
  "program_kit rt =
     \<lparr>kit_client = \<lambda>addr n. (let (conn, n) = rt_dial rt addr n
        in (map_sum id TcpClient (NewTCPClientTransport (\<lambda>_. conn) addr (Some both_callbacks)), n)),
      kit_server = \<lambda>addr n. (let (l, n) = rt_listen rt addr n
        in (map_sum id TcpServer (NewTCPServerTransport (\<lambda>_. l) addr (Some both_callbacks)), n)),
      kit_ftdi = \<lambda>cfg n. (let (u, n) = rt_bus rt n
        in case NewFTDITransport (rt_usb rt) (rt_inf rt) u cfg (Some both_callbacks) of
             (Some e, t) \<Rightarrow> (Inl e, n)
           | (None, t) \<Rightarrow> (Inr (FtdiDevice t), n)),
      kit_read = any_ReadMessage rt, kit_write = any_WriteMessage rt, kit_close = any_Close rt, kit_events = any_events\<rparr>"

text \<open>The steps a transport takes on its own: the accept loop and the read loops of a server.\<close>

fun own_moves ::
  "('n, 'l, 'c, 'u, 'e, 'o) runtime \<Rightarrow> ('l, 'c, 'u, 'e, 'o) any_transport \<Rightarrow> ('l, 'c, 'u, 'e, 'o) any_transport \<Rightarrow> bool" where
  "own_moves rt (TcpServer s) (TcpServer s') \<longleftrightarrow>
     (\<exists>ev. of_goroutine ev \<and> server_step (rt_fuel rt) (rt_conn rt) (rt_listener rt) s ev s')"
| "own_moves rt _ _ \<longleftrightarrow> False"

text \<open>The choices of the Go runtime: \<open>Range\<close> visits every client once, and what happens during a call of \<open>Close\<close> is
  a run of the server; on a server with no other such call under way the call runs to its end.\<close>

definition resolves :: "('n, 'l, 'c, 'u, 'e, 'o) runtime \<Rightarrow> bool" where
  "resolves rt \<longleftrightarrow>
     (\<forall>s. finite (srv_clients s) \<longrightarrow> distinct (rt_order rt s) \<and> set (rt_order rt s) = srv_clients s) \<and>
     (\<forall>s. \<exists>es. server_run (rt_fuel rt) (rt_conn rt) (rt_listener rt) s es (snd (rt_close rt s))) \<and>
     (\<forall>s. server_reach (rt_fuel rt) (rt_conn rt) (rt_listener rt) s \<and> idle s \<longrightarrow>
        closer (snd (rt_close rt s)) = CDone (fst (rt_close rt s)) \<and>
        (\<exists>es. server_run (rt_fuel rt) (rt_conn rt) (rt_listener rt) s (EClose # es) (snd (rt_close rt s))))"

abbreviation program_run where
  "program_run st rt \<equiv> system_run st (program_kit rt) (own_moves rt)"

lemma map_go_eq_Ret: "map_go f m = Ret y \<longleftrightarrow> (\<exists>x. m = Ret x \<and> y = f x)"
  by (cases m) auto

section \<open>Callbacks\<close>

text \<open>A log that grows by disconnects only.\<close>

definition only_disconnects :: "conn_event list \<Rightarrow> conn_event list \<Rightarrow> bool" where
  "only_disconnects es es' \<longleftrightarrow> (\<exists>ds. es' = es @ ds \<and> Connected \<notin> set ds)"

lemma only_disconnects_refl [simp]: "only_disconnects es es"
  by (simp add: only_disconnects_def)

lemma only_disconnects_trans: "only_disconnects es es' \<Longrightarrow> only_disconnects es' es'' \<Longrightarrow> only_disconnects es es''"
  by (auto simp: only_disconnects_def)

lemma only_disconnects_prefix: "only_disconnects es es' \<Longrightarrow> prefix es es'"
  by (auto simp: only_disconnects_def)

lemma only_disconnects_count: "only_disconnects es es' \<Longrightarrow> count_list es' Connected = count_list es Connected"
  by (auto simp: only_disconnects_def count_list_0_iff)

lemma disconnect_once_only: "only_disconnects (snd st) (snd (disconnect_once h err st))"
  by (auto simp: only_disconnects_def disconnect_once_def OnDisconnect_def split: option.splits)

lemma client_disconnect_only [simp]: "only_disconnects (client_events t) (client_events (client_disconnect err t))"
  using disconnect_once_only [of "(client_disconnected t, client_events t)" "client_handler t" err]
  by (simp flip: client_disconnect_sel(4))

lemma client_step_only: "client_step fuel ops s e s' \<Longrightarrow> only_disconnects (client_events (snd s)) (client_events (snd s'))"
proof (induction rule: client_step.induct)
  case (op_leave t res t')
  then show ?case
    by (elim client_read_default_cases) (use client_disconnect_only [of "t\<lparr>client_reader := _\<rparr>"] in auto)
next
  case (op_close t err t' b)
  obtain c where "t' = client_disconnect err (set_conn c (t\<lparr>client_done := True\<rparr>))"
    using client_Close_frame [OF op_close] by blast
  then show ?case
    using client_disconnect_only [of "set_conn c (t\<lparr>client_done := True\<rparr>)" err] by simp
qed (auto dest!: client_WriteMessage_frame)

lemma client_run_only: "client_run fuel ops s es s' \<Longrightarrow> only_disconnects (client_events (snd s)) (client_events (snd s'))"
  by (induction rule: client_run.induct) (auto dest: client_step_only intro: only_disconnects_trans)

lemma client_run_append:
  "client_run fuel ops s es s' \<Longrightarrow> client_run fuel ops s' es' s'' \<Longrightarrow> client_run fuel ops s (es @ es') s''"
  by (induction rule: client_run.induct) (auto intro: client_run_cons)

lemma server_disconnect_only [simp]: "only_disconnects (srv_events s) (srv_events (server_disconnect err s))"
  using disconnect_once_only [of "(srv_disconnected s, srv_events s)" "srv_handler s" err]
  by (simp flip: server_disconnect_sel(15))

lemma server_step_only: "server_step fuel ops lst s e s' \<Longrightarrow> only_disconnects (srv_events s) (srv_events s')"
proof (induction rule: server_step.induct)
  case (accept_done s)
  then show ?case
    using server_disconnect_only [of "s\<lparr>srv_accept := AStop\<rparr>"] by (simp add: accept_return_def)
next
  case (accept_err s e l)
  then show ?case
    using server_disconnect_only [of "s\<lparr>srv_listener := l, srv_accept := AStop\<rparr>"] by (simp add: accept_return_def)
next
  case (close_listener s e l)
  then show ?case
    using server_disconnect_only [of "s\<lparr>srv_listener := l, closer := CWait e\<rparr>"] by simp
next
  case (range_sent i s m snap seen j s')
  then show ?case
    by (auto dest!: range_write_frame)
next
  case (range_failed i s m snap seen j e s')
  then show ?case
    by (auto dest!: range_write_frame)
next
  case (call_read first s res s')
  then show ?case
    by (auto dest!: server_ReadMessage_frame)
next
  case (call_write order s m errs s')
  then show ?case
    by (auto dest!: server_WriteMessage_frame)
qed (auto simp: drop_reader_def store_client_def)

lemma server_run_only: "server_run fuel ops lst s es s' \<Longrightarrow> only_disconnects (srv_events s) (srv_events s')"
  by (induction rule: server_run.induct) (auto dest: server_step_only intro: only_disconnects_trans)

lemma connect_log: "connect ops inf_int (Some c) t = (err, t') \<Longrightarrow> prefix (f_events t) (f_events t')"
  by (cases err) (auto simp: adopt_def on_connect_def dest!: connect_succeeds connect_fails split: option.splits)

interpretation ftdi_log: ftdi_invariant ops inf_int "\<lambda>t. prefix es (f_events t)" for ops inf_int es
proof
  fix t :: "('a, 'b, 'c) ftdi"
  assume p: "prefix es (f_events t)"
  show "prefix es (f_events (t\<lparr>f_reader := r\<rparr>))" "prefix es (f_events (t\<lparr>f_outEndpoint := ep\<rparr>))" for r ep
    using p by simp_all
  show "prefix es (f_events (note_connect t))" "prefix es (f_events (note_disconnect usb_gone err t))" for usb_gone err
    using p by (auto simp: note_connect_def note_disconnect_def on_connect_def on_disconnect_def split: option.splits)
  show "prefix es (f_events (snd (ftdi_Close t)))"
    using p by (auto simp: ftdi_Close_def cancel_context_def disconnect_once_def split_beta Let_def split: option.splits)
  obtain c s where c: "NewContext (closeResources t) = (c, s)"
    by (cases "NewContext (closeResources t)")
  then have "f_events s = f_events t"
    by (auto simp: NewContext_def open_object_def)
  then show "prefix es (f_events (snd (tryReconnect ops inf_int t)))"
    using c p by (auto simp: tryReconnect_def close_object_def split: prod.splits option.splits dest!: connect_log intro: prefix_order.trans)
qed

section \<open>The transports move by their own steps\<close>

definition server_moves :: "('n, 'l, 'c, 'u, 'e, 'o) runtime \<Rightarrow> ('l, 'c) server \<Rightarrow> ('l, 'c) server \<Rightarrow> bool" where
  "server_moves rt s s' \<longleftrightarrow>
     only_disconnects (srv_events s) (srv_events s') \<and>
     (server_reach (rt_fuel rt) (rt_conn rt) (rt_listener rt) s \<and> idle s \<longrightarrow>
        idle s' \<and> (\<exists>es. server_run (rt_fuel rt) (rt_conn rt) (rt_listener rt) s es s'))"

fun object_moves ::
  "('n, 'l, 'c, 'u, 'e, 'o) runtime \<Rightarrow> ('l, 'c, 'u, 'e, 'o) any_transport \<Rightarrow> ('l, 'c, 'u, 'e, 'o) any_transport \<Rightarrow> bool" where
  "object_moves rt (TcpClient t) (TcpClient t') \<longleftrightarrow> (\<exists>es. client_run (rt_fuel rt) (rt_conn rt) (False, t) es (False, t'))"
| "object_moves rt (TcpServer s) (TcpServer s') \<longleftrightarrow> server_moves rt s s'"
| "object_moves rt (FtdiDevice t) (FtdiDevice t') \<longleftrightarrow>
     (\<exists>as. ftdi_run (rt_usb rt) (rt_inf rt) (rt_gone rt) (rt_in rt) (rt_out rt) t as t')"
| "object_moves rt _ _ \<longleftrightarrow> False"

lemma client_read_run:
  assumes "client_ReadMessage fuel ops t = Some (Ret (res, t'))"
  shows "\<exists>es. client_run fuel ops (False, t) es (False, t')"
proof (cases "client_done t")
  case True
  then show ?thesis
    using assms client_run_nil by (force simp: client_ReadMessage_def)
next
  case False
  then have "client_read_default fuel ops t = Some (Ret (res, t'))"
    using assms by (simp add: client_ReadMessage_def)
  then show ?thesis
    using client_run_cons [OF enter_go [OF False] client_run_cons [OF op_leave client_run_nil]] by blast
qed

lemma server_moves_step:
  assumes "server_step (rt_fuel rt) (rt_conn rt) (rt_listener rt) s ev s'" "closer s' = closer s"
  shows "server_moves rt s s'"
  using server_step_only [OF assms(1)] server_run_one [OF assms(1)] assms(2) by (auto simp: server_moves_def idle_def)

lemma server_reach_shape: "server_reach fuel ops lst s \<Longrightarrow> server_shape s"
  using server_run_fwd server_start(1) unfolding server_reach_def fwd_inv_def by metis

lemma server_shape_finite: "server_shape s \<Longrightarrow> finite (srv_clients s)"
  using finite_subset [of "srv_clients s" "{..<length (objects s)}"] by (auto simp: server_shape_def)

lemma server_read_moves:
  assumes "server_ReadMessage first s = Some (res, s')"
  shows "server_moves rt s s'"
  using server_ReadMessage_frame [OF assms] by (intro server_moves_step [OF server_step.call_read [OF assms]]) auto

lemma server_write_moves:
  assumes "resolves rt" "server_WriteMessage (rt_conn rt) (rt_order rt s) m s = Ret (errs, s')"
  shows "server_moves rt s s'"
proof -
  have frame: "srv_events s' = srv_events s" "closer s' = closer s"
    using server_WriteMessage_frame [OF assms(2)] by auto
  have "\<exists>es. server_run (rt_fuel rt) (rt_conn rt) (rt_listener rt) s es s'"
    if "server_reach (rt_fuel rt) (rt_conn rt) (rt_listener rt) s"
  proof -
    have "finite (srv_clients s)"
      using server_reach_shape [OF that] by (rule server_shape_finite)
    then have "set (rt_order rt s) = srv_clients s" "distinct (rt_order rt s)"
      using assms(1) by (simp_all add: resolves_def)
    then show ?thesis
      using server_run_one [OF server_step.call_write [OF _ _ assms(2)]] by blast
  qed
  then show ?thesis
    using frame by (simp add: server_moves_def idle_def)
qed

lemma server_close_moves:
  assumes "resolves rt" "rt_close rt s = (err, s')"
  shows "server_moves rt s s'"
proof -
  obtain es where "server_run (rt_fuel rt) (rt_conn rt) (rt_listener rt) s es s'"
    using assms unfolding resolves_def by (metis snd_conv)
  moreover have "closer s' = CDone err" if "server_reach (rt_fuel rt) (rt_conn rt) (rt_listener rt) s" "idle s"
    using assms that unfolding resolves_def by (metis fst_conv snd_conv)
  ultimately show ?thesis
    using server_run_only by (fastforce simp: server_moves_def idle_def)
qed

lemma any_read_moves:
  assumes "any_ReadMessage rt t = Some (Ret (res, t'))"
  shows "object_moves rt t t'"
proof (cases t)
  case (TcpClient c)
  then show ?thesis
    using assms by (auto simp: map_go_eq_Ret dest: client_read_run)
next
  case (TcpServer s)
  then show ?thesis
    using assms by (auto dest: server_read_moves)
next
  case (FtdiDevice f)
  then obtain f' where "t' = FtdiDevice f'"
      "ftdi_ReadMessage (rt_fuel rt) (rt_usb rt) (rt_inf rt) (rt_gone rt) (rt_in rt) f = Some (Ret (res, f'))"
    using assms by (auto simp: map_go_eq_Ret)
  then show ?thesis
    using ftdi_run_cons [OF step_read ftdi_run_nil] FtdiDevice object_moves.simps(3) by blast
qed

lemma any_write_moves:
  assumes "resolves rt" "any_WriteMessage rt m t = Ret (err, t')"
  shows "object_moves rt t t'"
proof (cases t)
  case (TcpClient c)
  then obtain c' where "t' = TcpClient c'" "client_WriteMessage (rt_conn rt) m c = Ret (err, c')"
    using assms(2) by (auto simp: map_go_eq_Ret)
  then show ?thesis
    using TcpClient client_run_cons [OF op_write client_run_nil] object_moves.simps(1) by blast
next
  case (TcpServer s)
  then show ?thesis
    using assms(2) server_write_moves [OF assms(1)] by (auto simp: map_go_eq_Ret)
next
  case (FtdiDevice f)
  then obtain f' where "t' = FtdiDevice f'" "ftdi_WriteMessage (rt_usb rt) (rt_inf rt) (rt_gone rt) (rt_out rt) m f = Ret (err, f')"
    using assms(2) by (auto simp: map_go_eq_Ret)
  then show ?thesis
    using ftdi_run_cons [OF step_write ftdi_run_nil] FtdiDevice object_moves.simps(3) by blast
qed

lemma any_close_moves:
  assumes "resolves rt" "any_Close rt t = (err, t')"
  shows "object_moves rt t t'"
proof (cases t)
  case (TcpClient c)
  then obtain c' where "t' = TcpClient c'" "client_Close (rt_conn rt) c = (err, c')"
    using assms(2) by (cases "client_Close (rt_conn rt) c") simp
  then show ?thesis
    using TcpClient client_run_cons [OF op_close client_run_nil] object_moves.simps(1) by blast
next
  case (TcpServer s)
  then show ?thesis
    using assms(2) server_close_moves [OF assms(1), of s] by (cases "rt_close rt s") auto
next
  case (FtdiDevice f)
  then obtain f' where "t' = FtdiDevice f'" "ftdi_Close f = (err, f')"
    using assms(2) by (cases "ftdi_Close f") simp
  then show ?thesis
    using FtdiDevice ftdi_run_cons [OF step_close ftdi_run_nil] object_moves.simps(3) by blast
qed

locale runtime_choices =
  fixes rt :: "('n, 'l, 'c, 'u, 'e, 'o) runtime"
  assumes choices: "resolves rt"

sublocale runtime_choices \<subseteq> program: transport_moves "program_kit rt" "object_moves rt"
proof
  fix t t' t'' :: "('l, 'c, 'u, 'e, 'o) any_transport" and res err m
  show "object_moves rt t t"
    by (cases t) (auto simp: server_moves_def intro: client_run_nil ftdi_run_nil server_run_nil)
  show "object_moves rt t t''" if moves: "object_moves rt t t'" "object_moves rt t' t''"
  proof (cases t)
    case (TcpClient c)
    then show ?thesis
      using moves by (cases t'; cases t'') (auto dest: client_run_append)
  next
    case (TcpServer s)
    then obtain s' s'' where "t' = TcpServer s'" "t'' = TcpServer s''"
      using moves by (cases t'; cases t'') auto
    then show ?thesis
      using moves TcpServer
      by (auto simp: server_moves_def intro: only_disconnects_trans server_run_append dest: server_reach_run)
  next
    case (FtdiDevice f)
    then obtain f' f'' where "t' = FtdiDevice f'" "t'' = FtdiDevice f''"
      using moves by (cases t'; cases t'') auto
    then show ?thesis
      using moves FtdiDevice ftdi_run_append by (auto simp del: ftdi_run_append) blast
  qed
  show "object_moves rt t t'" if "kit_read (program_kit rt) t = Some (Ret (res, t'))"
    using that any_read_moves by (simp add: program_kit_def)
  show "object_moves rt t t'" if "kit_write (program_kit rt) m t = Ret (err, t')"
    using that any_write_moves [OF choices] by (simp add: program_kit_def)
  show "object_moves rt t t'" if "kit_close (program_kit rt) t = (err, t')"
    using that any_close_moves [OF choices] by (simp add: program_kit_def)
  show "prefix (kit_events (program_kit rt) t) (kit_events (program_kit rt) t')" if "object_moves rt t t'"
    using that by (cases t; cases t')
      (auto simp: program_kit_def server_moves_def dest!: client_run_only only_disconnects_prefix dest: ftdi_log.run_keeps [OF _ prefix_order.refl])
qed

end
