(* ===== verification/Qdp_Network.thy ===== *)
theory Qdp_Network
  imports Qdp_Broker_Props Qdp_Pipe
begin

text \<open>
  Two brokers joined by a TCP connection. The steps of a broker's goroutine follow the session of its
  protocol (\<open>load_store_session\<close>), and the TCP clients run over the pipes of \<open>Qdp_Pipe\<close>: what one
  broker finds in \<open>TxMessage\<close> ends up in \<open>RxMessage\<close> of the other.
\<close>

section \<open>Goroutines of a broker\<close>

lemma with_transport_with [simp]: "with_transport t (with_transport u p) = with_transport t p"
  by (simp add: with_transport_def)

lemma with_transport_same [simp]: "with_transport (transport p) p = p"
  by (simp add: with_transport_def)

lemma with_protocol_with [simp]: "with_protocol p (with_protocol q s) = with_protocol p s" "proto (with_protocol p s) = p"
  by (simp_all add: with_protocol_def)

lemma with_protocol_same [simp]: "with_protocol (proto s) s = s"
  by (simp add: with_protocol_def)

lemma transport_with_transport [simp]: "transport (with_transport t p) = t"
  by (simp add: with_transport_def)

text \<open>What a step of a goroutine leaves in the objects is the session it led to.\<close>

lemma load_store_session:
  assumes "broker_ok w" "pid < length (agents w)" "session_step rd wr cl (load_session pid w) e s'" "e \<in> {Recv, Proc}"
  shows "load_session pid (store_session st k pid s' w) = s'"
proof -
  note frame = goroutine_frame [OF assms(3,4)]
  have h: "heap_ok w"
    using assms(1) by (simp add: broker_ok_def)
  have "agents (store_session st k pid s' w) = (agents w)[pid := stored_agent (agents w ! pid) s']"
    using frame by (intro store_session_effect(3) [OF h assms(2)]) simp_all
  then show ?thesis
    using assms(2) heap_ok_agent [OF h assms(2)]
    by (simp add: load_session_def store_session_transports [OF h assms(2)] stored_agent_def Let_def)
qed

lemma store_session_closures: "closures (store_session st k pid s' w) = closures w"
proof -
  have "closures (fold (perform st ent) cs v) = closures v" for ent cs and v :: "('a, 'b, 'c) broker"
    using perform_fold [of st ent cs v] by auto
  then show ?thesis
    by (simp add: store_session_def put_transport_def split_beta Let_def)
qed

abbreviation agent_transport :: "nat \<Rightarrow> ('d, 'n, 't) broker \<Rightarrow> nat" where
  "agent_transport pid w \<equiv> transport (proto (ag_session (agents w ! pid)))"

text \<open>One step of a goroutine of a protocol.\<close>

lemma goroutine_step:
  assumes "broker_ok w" "pid < length (agents w)" "load_session pid w = s" "e \<in> {Recv, Proc}"
    "session_step (kit_read k) (kit_write k) (kit_close k) s e s'"
  shows "\<exists>w'. broker_step st k w (AgentStep pid) w' \<and> broker_ok w' \<and> pid < length (agents w') \<and> load_session pid w' = s' \<and>
    closures w' = closures w \<and> subscribers (proto (ag_session (agents w' ! pid))) = subscribers (proto (ag_session (agents w ! pid))) \<and>
    agent_transport pid w' = agent_transport pid w \<and>
    transports w' = (transports w)[agent_transport pid w := (fst (transports w ! agent_transport pid w), transport (proto s'))]"
proof -
  let ?w = "store_session st k pid s' w"
  have step: "session_step (kit_read k) (kit_write k) (kit_close k) (load_session pid w) e s'"
    using assms(3,5) by simp
  note frame = goroutine_frame [OF step assms(4)]
  have h: "heap_ok w"
    using assms(1) by (simp add: broker_ok_def)
  have "broker_step st k w (AgentStep pid) ?w"
    by (rule agent_step [OF assms(2,4) step])
  moreover from this have "broker_ok ?w"
    using assms(1) broker_step_ok by blast
  moreover have "agents ?w = (agents w)[pid := stored_agent (agents w ! pid) s']"
    using frame by (intro store_session_effect(3) [OF h assms(2)]) simp_all
  moreover have "load_session pid ?w = s'"
    by (rule load_store_session [OF assms(1,2) step assms(4)])
  ultimately show ?thesis
    using frame assms(2) by (intro exI [of _ ?w]) (simp add: store_session_closures store_session_transports [OF h])
qed

text \<open>A turn of the receive goroutine puts the message into the channel.\<close>

lemma receive_turn:
  assumes "broker_ok w" "pid < length (agents w)" "s = load_session pid w"
    and "kit_read k (transport (proto s)) = Some (Ret (Inr m, t'))"
    and "recv s = RCheck" "proc s = PLoop" "\<not> ctx_done s" "msgCh (proto s) = []"
  shows "\<exists>w'. broker_run st k w (replicate 3 (AgentStep pid)) w' \<and> broker_ok w' \<and> pid < length (agents w') \<and>
    closures w' = closures w \<and> subscribers (proto (ag_session (agents w' ! pid))) = subscribers (proto (ag_session (agents w ! pid))) \<and>
    proc (load_session pid w') = PLoop \<and> msgCh (proto (load_session pid w')) = [m] \<and> agent_transport pid w' = agent_transport pid w \<and>
    transports w' = (transports w)[agent_transport pid w := (fst (transports w ! agent_transport pid w), t')]"
proof -
  let ?tid = "agent_transport pid w"
  let ?s1 = "s\<lparr>recv := RRead\<rparr>"
  let ?s2 = "?s1\<lparr>proto := (proto s)\<lparr>transport := t'\<rparr>, recv := RSend m, received := received ?s1 @ [m]\<rparr>"
  let ?s3 = "?s2\<lparr>proto := (proto ?s2)\<lparr>msgCh := msgCh (proto ?s2) @ [m]\<rparr>, recv := RCheck\<rparr>"
  have s1: "session_step (kit_read k) (kit_write k) (kit_close k) s Recv ?s1"
    using assms(5,7) by (rule session_step.check_go)
  have s2: "session_step (kit_read k) (kit_write k) (kit_close k) ?s1 Recv ?s2"
    using assms(4) by (intro session_step.read_ok) (simp_all add: ReceiveMessage_def)
  have s3: "session_step (kit_read k) (kit_write k) (kit_close k) ?s2 Recv ?s3"
    using assms(8) by (intro session_step.send_ok) simp_all
  have tid: "?tid < length (transports w)"
    using assms(1,2) heap_ok_agent by (auto simp: broker_ok_def)
  obtain w1 where w1: "broker_step st k w (AgentStep pid) w1" "broker_ok w1" "pid < length (agents w1)" "load_session pid w1 = ?s1"
    "closures w1 = closures w" "subscribers (proto (ag_session (agents w1 ! pid))) = subscribers (proto (ag_session (agents w ! pid)))"
    "agent_transport pid w1 = ?tid" "transports w1 = (transports w)[?tid := (fst (transports w ! ?tid), transport (proto ?s1))]"
    using goroutine_step [OF assms(1,2) assms(3) [symmetric] _ s1, of st] by blast
  obtain w2 where w2: "broker_step st k w1 (AgentStep pid) w2" "broker_ok w2" "pid < length (agents w2)" "load_session pid w2 = ?s2"
    "closures w2 = closures w1" "subscribers (proto (ag_session (agents w2 ! pid))) = subscribers (proto (ag_session (agents w1 ! pid)))"
    "agent_transport pid w2 = agent_transport pid w1"
    "transports w2 = (transports w1)[agent_transport pid w1 := (fst (transports w1 ! agent_transport pid w1), transport (proto ?s2))]"
    using goroutine_step [OF w1(2-4) _ s2, of st] by blast
  obtain w3 where w3: "broker_step st k w2 (AgentStep pid) w3" "broker_ok w3" "pid < length (agents w3)" "load_session pid w3 = ?s3"
    "closures w3 = closures w2" "subscribers (proto (ag_session (agents w3 ! pid))) = subscribers (proto (ag_session (agents w2 ! pid)))"
    "agent_transport pid w3 = agent_transport pid w2"
    "transports w3 = (transports w2)[agent_transport pid w2 := (fst (transports w2 ! agent_transport pid w2), transport (proto ?s3))]"
    using goroutine_step [OF w2(2-4) _ s3, of st] by blast
  have "broker_run st k w (replicate 3 (AgentStep pid)) w3"
    unfolding numeral_3_eq_3 replicate_Suc replicate_0 using w1(1) w2(1) w3(1) by (blast intro: broker_run.intros)
  moreover have "transports w3 = (transports w)[?tid := (fst (transports w ! ?tid), t')]"
    using w1(7,8) w2(7,8) w3(8) tid by simp
  ultimately show ?thesis
    using w1 w2 w3 assms(6,8) by (intro exI [of _ w3]) simp
qed

section \<open>Brokers over TCP\<close>

text \<open>The network as a script: the segments that arrive on each connection it accepts. It does not listen, and
  there is no USB device.\<close>

definition pipe_kit :: "nat \<Rightarrow> (byte list list list, pipe tcp_client) transport_kit" where
  "pipe_kit fuel =
     \<lparr>kit_client = \<lambda>addr n. (case n of
         [] \<Rightarrow> (NewTCPClientTransport (\<lambda>_. Inl (ErrText ''connection refused'')) addr (Some both_callbacks), [])
       | segs # n' \<Rightarrow> (NewTCPClientTransport (\<lambda>_. Inr (open_pipe [] segs)) addr (Some both_callbacks), n')),
      kit_server = \<lambda>addr n. (Inl (Wrapf ''failed to listen: '' (ErrText ''address already in use'')), n),
      kit_ftdi = \<lambda>cfg n. (Inl (ErrText ''device not found''), n),
      kit_read = client_ReadMessage fuel pipe_ops, kit_write = client_WriteMessage pipe_ops,
      kit_close = client_Close pipe_ops, kit_events = client_events\<rparr>"

definition linked_client :: "byte list list \<Rightarrow> byte list list message_reader \<Rightarrow> pipe tcp_client" where
  "linked_client outs r = (pipe_client (Some both_callbacks) outs r)\<lparr>client_events := [Connected]\<rparr>"

lemma linked_client_events [simp]: "client_events (linked_client outs r) = [Connected]"
  by (simp add: linked_client_def)

lemma pipe_kit_sel [simp]:
  "kit_read (pipe_kit fuel) = client_ReadMessage fuel pipe_ops" "kit_write (pipe_kit fuel) = client_WriteMessage pipe_ops"
  "kit_close (pipe_kit fuel) = client_Close pipe_ops" "kit_events (pipe_kit fuel) = client_events"
  "kit_client (pipe_kit fuel) addr (segs # n) = (Inr (linked_client [] (NewMessageReader segs)), n)"
  by (simp_all add: pipe_kit_def NewTCPClientTransport_def linked_client_def pipe_client_def both_callbacks_def OnConnect_def)

lemma linked_client_write:
  "wire_fits m \<Longrightarrow> client_WriteMessage pipe_ops m (linked_client outs r) = Ret (None, linked_client (outs @ [wire m]) r)"
  by (simp add: client_WriteMessage_def writeMessage_def write_frame_wire pipe_client_def pipe_ops_def
      pipe_Write_def open_pipe_def set_conn_def map_reader_def linked_client_def)

lemma linked_client_read:
  assumes "reader_inv r" "pos r = count r" "within_limits m" "length (wire m) \<le> 1024" "reader r = wire m # segs"
  shows "\<exists>r'. client_ReadMessage (Suc (Suc fuel)) pipe_ops (linked_client outs r) = Some (Ret (Inr m, linked_client outs r'))"
proof -
  obtain r' where "client_read_default (Suc (Suc fuel)) pipe_ops (pipe_client (Some both_callbacks) outs r) =
      Some (Ret (Inr m, pipe_client (Some both_callbacks) outs r'))"
    using pipe_client_read [OF assms] by blast
  then show ?thesis
    by (auto simp: client_ReadMessage_def client_read_default_def linked_client_def pipe_client_def
        split: option.splits go.splits sum.splits)
qed

text \<open>A step of the process goroutine stores it.\<close>

lemma process_turn:
  assumes "broker_ok w" "pid < length (agents w)" "store_contract st"
    and "proc (load_session pid w) = PLoop" "msgCh (proto (load_session pid w)) = m # ms"
  shows "\<exists>w'. broker_step st k w (AgentStep pid) w' \<and> transports w' = transports w \<and>
    (\<forall>sub \<in> set (subscribers (proto (ag_session (agents w ! pid)))). matchTopic (sub_topic sub) (Topic m) \<longrightarrow>
       (\<forall>f \<in> {''RxMessage'', ''RxMessageFn''}. ReadString st (closures w ! ident (sub_handler sub)) f (b_store w') = bytes_string (Payload m)))"
proof -
  let ?s = "load_session pid w"
  let ?s' = "?s\<lparr>proto := handleMessage ((proto ?s)\<lparr>msgCh := ms\<rparr>) m, handled := handled ?s @ [m]\<rparr>"
  have "session_step (kit_read k) (kit_write k) (kit_close k) ?s Proc ?s'"
    using assms(4,5) by (rule proc_msg)
  then have "broker_step st k w (AgentStep pid) (store_session st k pid ?s' w)"
    by (intro agent_step [OF assms(2), of Proc]) simp_all
  moreover have "transports (store_session st k pid ?s' w) = transports w"
    using assms(1,2) by (simp add: store_session_transports broker_ok_def handleMessage_frame)
  ultimately show ?thesis
    using handled_message_effect(2) [OF assms(1-3) refl refl, where k = k and m = m and ms = ms and hs = "handled ?s @ [m]"]
    by blast
qed

text \<open>A broker that has connected its client and subscribed the topic.\<close>

definition linked_broker :: "pipe tcp_client \<Rightarrow> (desk_store, byte list list list, pipe tcp_client) broker" where
  "linked_broker t =
     \<lparr>b_store = desk_tcp\<lparr>d_bool := (d_bool desk_tcp)((''tcp'', ''IsConnected'') := True), d_token := 4\<rparr>, b_net = [],
      isLeader = True, b_done = False, protocolsByEntity = Some ((\<lambda>_. None)(''tcp'' := Some 0)), tokens = [0, 1, 2, 3],
      bound = [0, 1, 2, 3], queue = [], transports = [(''tcp'', t)],
      agents = [\<lparr>ag_entity = ''tcp'', ag_session = desk_session [] RCheck []\<rparr>], closures = [''top'']\<rparr>"

lemma linked_broker_run:
  "broker_run desk_ops (pipe_kit fuel) (Init (NewMessageBroker desk_tcp [segs])) [BecomeLeader, RunTask 0]
     (linked_broker (linked_client [] (NewMessageReader segs)))"
proof -
  let ?w0 = "Init (NewMessageBroker desk_tcp [segs]) :: (desk_store, byte list list list, pipe tcp_client) broker"
  let ?w1 = "OnBecameLeader desk_ops (pipe_kit fuel) [] ?w0"
  have w1: "?w1 = \<lparr>b_store = desk_tcp\<lparr>d_bool := (d_bool desk_tcp)((''tcp'', ''IsConnected'') := False), d_token := 4\<rparr>, b_net = [],
     isLeader = True, b_done = False, protocolsByEntity = Some (\<lambda>_. None), tokens = [0, 1, 2, 3], bound = [0, 1, 2, 3],
     queue = [ConnectTask ''tcp'' 0], transports = [(''tcp'', linked_client [] (NewMessageReader segs))], agents = [], closures = []\<rparr>"
    by (simp add: Init_def NewMessageBroker_def broker_eval desk_tcp_def eval_nat_numeral)
  have "map_keys ?w0 []"
    by (simp add: map_keys_def Init_def NewMessageBroker_def protocol_of_def)
  then have "broker_step desk_ops (pipe_kit fuel) ?w0 BecomeLeader ?w1"
    by (rule became_leader)
  moreover have "broker_step desk_ops (pipe_kit fuel) ?w1 (RunTask 0) (linked_broker (linked_client [] (NewMessageReader segs)))"
    unfolding w1
    by (rule run_queued)
      (simp_all add: connect_task_def write_bool_def new_agent_def StartReceiving_def NewProtocol_def
        NewSubscriptionManager_def subscribe_topic_def protocol_Subscribe_def Subscribe_def desk_tcp_def linked_broker_def
        desk_session_def Let_def)
  ultimately show ?thesis
    by (blast intro: broker_run.intros)
qed

section \<open>Properties\<close>



end
