(* ===== verification/Qdp_Program.thy ===== *)
theory Qdp_Program
  imports Qdp_Transports Qdp_Network
begin

text \<open>
  The program: the broker with the transports of the library. Each transport of a reachable state is one
  that its own model reaches, so what is proved of TCP clients, servers and FTDI devices holds of the
  broker's; protocols share a transport only on an FTDI device that has connected again; and a message
  that a client sends to the broker's server reaches the other clients and the store.
\<close>

section \<open>Reachable transports\<close>

fun object_reach ::
  "('n, 'l, 'c, 'u, 'e, 'o) runtime \<Rightarrow> ('l, 'c, 'u, 'e, 'o) any_transport \<Rightarrow> bool" where
  "object_reach rt (TcpClient t) \<longleftrightarrow>
     (\<exists>dial addr t0 es. NewTCPClientTransport dial addr (Some both_callbacks) = Inr t0 \<and>
        client_run (rt_fuel rt) (rt_conn rt) (False, t0) es (False, t))"
| "object_reach rt (TcpServer s) \<longleftrightarrow> server_reach (rt_fuel rt) (rt_conn rt) (rt_listener rt) s \<and> idle s"
| "object_reach rt (FtdiDevice t) \<longleftrightarrow>
     (\<exists>u cfg t0 as. NewFTDITransport (rt_usb rt) (rt_inf rt) u cfg (Some both_callbacks) = (None, t0) \<and>
        ftdi_run (rt_usb rt) (rt_inf rt) (rt_gone rt) (rt_in rt) (rt_out rt) t0 as t)"

lemma new_server_idle: "NewTCPServerTransport listen addr h = Inr s \<Longrightarrow> idle s"
  by (auto simp: NewTCPServerTransport_def idle_def Let_def split: sum.splits option.splits)

lemma map_sum_eq_Inr: "map_sum f g x = Inr y \<longleftrightarrow> (\<exists>z. x = Inr z \<and> y = g z)"
  by (cases x) auto

lemma program_kit_makes:
  "kit_client (program_kit rt) addr n = (Inr t, n') \<Longrightarrow>
     \<exists>c. t = TcpClient c \<and> NewTCPClientTransport (\<lambda>_. fst (rt_dial rt addr n)) addr (Some both_callbacks) = Inr c"
  "kit_server (program_kit rt) addr n = (Inr t, n') \<Longrightarrow>
     \<exists>s. t = TcpServer s \<and> NewTCPServerTransport (\<lambda>_. fst (rt_listen rt addr n)) addr (Some both_callbacks) = Inr s"
  "kit_ftdi (program_kit rt) cfg n = (Inr t, n') \<Longrightarrow>
     \<exists>f. t = FtdiDevice f \<and> NewFTDITransport (rt_usb rt) (rt_inf rt) (fst (rt_bus rt n)) cfg (Some both_callbacks) = (None, f)"
  by (auto simp: program_kit_def map_sum_eq_Inr split: prod.splits option.splits)

lemma made_object_reach:
  assumes "made_by (program_kit rt) t"
  shows "object_reach rt t"
proof -
  consider addr n n' where "kit_client (program_kit rt) addr n = (Inr t, n')"
    | addr n n' where "kit_server (program_kit rt) addr n = (Inr t, n')"
    | cfg n n' where "kit_ftdi (program_kit rt) cfg n = (Inr t, n')"
    using assms unfolding made_by_def by blast
  then show ?thesis
  proof cases
    case 1
    from program_kit_makes(1) [OF 1] obtain c
      where c: "t = TcpClient c" "NewTCPClientTransport (\<lambda>_. fst (rt_dial rt addr n)) addr (Some both_callbacks) = Inr c"
      by auto
    show ?thesis
      unfolding c(1) object_reach.simps by (intro exI conjI, rule c(2), rule client_run_nil)
  next
    case 2
    from program_kit_makes(2) [OF 2] obtain s
      where s: "t = TcpServer s" "NewTCPServerTransport (\<lambda>_. fst (rt_listen rt addr n)) addr (Some both_callbacks) = Inr s"
      by auto
    show ?thesis
      unfolding s(1) object_reach.simps server_reach_def
      by (intro conjI exI, rule s(2), rule server_run_nil, rule new_server_idle, rule s(2))
  next
    case 3
    from program_kit_makes(3) [OF 3] obtain f where f: "t = FtdiDevice f"
        "NewFTDITransport (rt_usb rt) (rt_inf rt) (fst (rt_bus rt n)) cfg (Some both_callbacks) = (None, f)"
      by auto
    show ?thesis
      unfolding f(1) object_reach.simps by (intro exI conjI, rule f(2), rule ftdi_run_nil)
  qed
qed

lemma object_reach_moves:
  assumes "object_reach rt t" "object_moves rt t t'"
  shows "object_reach rt t'"
proof (cases t)
  case (TcpClient c)
  then obtain c' where "t' = TcpClient c'"
    using assms(2) by (cases t') auto
  then show ?thesis
    using assms TcpClient client_run_append by fastforce
next
  case (TcpServer s)
  then obtain s' where "t' = TcpServer s'"
    using assms(2) by (cases t') auto
  then show ?thesis
    using assms TcpServer server_reach_run by (auto simp: server_moves_def)
next
  case (FtdiDevice f)
  then obtain f' where "t' = FtdiDevice f'"
    using assms(2) by (cases t') auto
  then show ?thesis
    using assms FtdiDevice ftdi_run_append [THEN iffD2, OF exI, OF conjI] by (auto simp del: ftdi_run_append) blast
qed

lemma own_moves_object: "own_moves rt t t' \<Longrightarrow> object_moves rt t t'"
  by (cases t; cases t') (auto intro: server_moves_step goroutine_closer)

text \<open>A TCP transport has called \<open>OnConnect\<close> at most once.\<close>

definition connect_calls :: "('l, 'c, 'u, 'e, 'o) any_transport \<Rightarrow> nat" where
  "connect_calls t = count_list (any_events t) Connected"

lemma client_connects_once:
  assumes "NewTCPClientTransport dial addr (Some both_callbacks) = Inr t0" "client_run fuel ops (False, t0) es (False, t)"
  shows "count_list (client_events t) Connected = 1"
  using only_disconnects_count [OF client_run_only [OF assms(2)]] assms(1)
  by (auto simp: NewTCPClientTransport_def OnConnect_def both_callbacks_def Let_def split: sum.splits)

lemma server_connects_once:
  assumes "server_reach fuel ops lst s"
  shows "count_list (srv_events s) Connected = 1"
proof -
  obtain listen address s0 es where s0: "NewTCPServerTransport listen address (Some both_callbacks) = Inr s0" "server_run fuel ops lst s0 es s"
    using assms by (auto simp: server_reach_def)
  then have "count_list (srv_events s0) Connected = 1"
    by (auto simp: NewTCPServerTransport_def OnConnect_def both_callbacks_def Let_def split: sum.splits)
  then show ?thesis
    using only_disconnects_count [OF server_run_only [OF s0(2)]] by simp
qed

context runtime_choices
begin

lemma program_objects:
  assumes "program_run st rt (Init (NewMessageBroker d n)) es w" "tid < length (transports w)"
  shows "object_reach rt (snd (transports w ! tid))"
    "uses tid w \<le> connect_calls (snd (transports w ! tid))"
proof -
  note objects = program.system_transports [OF assms(1) own_moves_object assms(2)]
  then show "object_reach rt (snd (transports w ! tid))"
    using made_object_reach object_reach_moves by blast
  show "uses tid w \<le> connect_calls (snd (transports w ! tid))"
    using objects(2) by (simp add: connect_calls_def program_kit_def)
qed

end

section \<open>A program in the lab\<close>

text \<open>Pipes as connections: \<open>fst\<close> gives the connections that can be dialled, \<open>snd\<close> the clients that will come to each
  listener; the device of the bench on the USB.\<close>

type_synonym lab_net = "pipe list \<times> pipe list list"

definition lab ::
  "(lab_net, pipe list \<times> bool, pipe, nat \<times> byte list list, byte list list, nat \<times> byte list list) runtime" where
  "lab =
     \<lparr>rt_fuel = 2050,
      rt_dial = \<lambda>addr n. (case fst n of [] \<Rightarrow> (Inl (ErrText ''connection refused''), n) | p # ps \<Rightarrow> (Inr p, (ps, snd n))),
      rt_listen = \<lambda>addr n. (case snd n of [] \<Rightarrow> (Inl (ErrText ''address already in use''), n) | cs # ls \<Rightarrow> (Inr (cs, False), (fst n, ls))),
      rt_bus = \<lambda>n. ((0, []), n), rt_conn = pipe_ops, rt_listener = list_listener, rt_usb = bench_usb None, rt_inf = 0,
      rt_gone = \<lambda>_. False, rt_in = packets_read, rt_out = budget_write, rt_first = \<lambda>_. True,
      rt_order = \<lambda>s. sorted_list_of_set (srv_clients s),
      rt_close = \<lambda>s. (if server_shape s \<and> idle s then server_Close 2050 pipe_ops list_listener s else (None, s))\<rparr>"

lemma lab_sel [simp]:
  "rt_fuel lab = 2050" "rt_conn lab = pipe_ops" "rt_listener lab = list_listener" "rt_usb lab = bench_usb None"
  by (simp_all add: lab_def)

interpretation lab: runtime_choices lab
proof
  have order: "distinct (rt_order lab s) \<and> set (rt_order lab s) = srv_clients s" if "finite (srv_clients s)" for s
    using that by (simp add: lab_def)
  have run: "\<exists>es. server_run 2050 pipe_ops list_listener s es (snd (rt_close lab s))" for s
  proof (cases "server_shape s \<and> idle s")
    case True
    then show ?thesis
      using server_Close_run [of s 2050 pipe_ops list_listener "fst (rt_close lab s)" "snd (rt_close lab s)"] by (auto simp: lab_def)
  next
    case False
    then have "rt_close lab s = (None, s)"
      by (auto simp: lab_def)
    then show ?thesis
      using server_run_nil [of 2050 pipe_ops list_listener s] by auto
  qed
  have whole: "closer (snd (rt_close lab s)) = CDone (fst (rt_close lab s)) \<and>
      (\<exists>es. server_run 2050 pipe_ops list_listener s (EClose # es) (snd (rt_close lab s)))"
    if "server_reach 2050 pipe_ops list_listener s" "idle s" for s
    using server_Close_ends_well [OF that pipe_contract list_listener_contract] server_reach_shape [OF that(1)] that(2)
    by (auto simp: lab_def)
  show "resolves lab"
    unfolding resolves_def using order run whole by simp
qed

section \<open>A message through a server\<close>

text \<open>The read loop of client \<open>i\<close> visits the keys \<open>js\<close>; \<open>c j\<close> is the client \<open>j\<close> after the write.\<close>

lemma range_visits:
  assumes "i < length (handlers s)" "handlers s ! i = HRange m snap seen" "distinct js" "set js = snap - seen"
    "set js \<subseteq> srv_clients s" "set js \<subseteq> {..<length (objects s)}"
    "\<And>j. j \<in> set js - {i} \<Longrightarrow> client_WriteMessage ops m (objects s ! j) = Ret (None, c j)"
  shows "\<exists>os log. server_run fuel ops lst s (replicate (length js) (EHandle i))
      (s\<lparr>handlers := (handlers s)[i := HRange m snap (seen \<union> snap)], objects := os, fwd_log := log\<rparr>) \<and>
    length os = length (objects s) \<and> (\<forall>j < length os. os ! j = (if j \<in> set js - {i} then c j else objects s ! j))"
  using assms
proof (induction js arbitrary: s seen)
  case Nil
  have "seen \<union> snap = seen"
    using Nil(4) by auto
  then have "s\<lparr>handlers := (handlers s)[i := HRange m snap (seen \<union> snap)], objects := objects s, fwd_log := fwd_log s\<rparr> = s"
    using Nil(1,2) by (simp add: list_update_same_conv)
  then show ?case
    using server_run_nil [of fuel ops lst s] by (intro exI [of _ "objects s"] exI [of _ "fwd_log s"]) simp
next
  case (Cons j js)
  define os1 where "os1 = (if j = i then objects s else (objects s)[j := c j])"
  define log1 where "log1 = (if j = i then fwd_log s else fwd_log s @ [(i, length (reads_of i s), j)])"
  let ?s1 = "s\<lparr>objects := os1, fwd_log := log1, handlers := (handlers s)[i := HRange m snap (insert j seen)]\<rparr>"
  have j: "j \<in> snap \<union> srv_clients s - seen"
    using Cons.prems(4) by auto
  have step: "server_step fuel ops lst s (EHandle i) ?s1"
  proof (cases "j = i")
    case True
    then show ?thesis
      using server_step.range_self [OF Cons.prems(1,2)] j by (simp add: set_pc_def os1_def log1_def)
  next
    case False
    then have w: "range_write ops m j s = Ret (None, set_client j (c j) s)"
      using Cons.prems(7) [of j] by (simp add: range_write_def)
    show ?thesis
      using server_step.range_sent [OF Cons.prems(1,2) j False w, of fuel lst] False
      by (simp add: set_pc_def set_client_def os1_def log1_def)
  qed
  have w: "client_WriteMessage ops m (objects ?s1 ! k) = Ret (None, c k)" if "k \<in> set js - {i}" for k
    using that Cons.prems(3,6,7) by (auto simp: os1_def nth_list_update)
  have pre: "i < length (handlers ?s1)" "handlers ?s1 ! i = HRange m snap (insert j seen)" "distinct js"
      "set js = snap - insert j seen" "set js \<subseteq> srv_clients ?s1" "set js \<subseteq> {..<length (objects ?s1)}"
    using Cons.prems(1,3-6) by (auto simp: os1_def)
  obtain os log where run: "server_run fuel ops lst ?s1 (replicate (length js) (EHandle i))
      (?s1\<lparr>handlers := (handlers ?s1)[i := HRange m snap (insert j seen \<union> snap)], objects := os, fwd_log := log\<rparr>)"
    and os: "length os = length (objects ?s1)" "\<forall>k < length os. os ! k = (if k \<in> set js - {i} then c k else objects ?s1 ! k)"
    using Cons.IH [OF pre w] by blast
  have "insert j seen \<union> snap = seen \<union> snap"
    using Cons.prems(4) by auto
  then have "server_run fuel ops lst s ([EHandle i] @ replicate (length js) (EHandle i))
      (s\<lparr>handlers := (handlers s)[i := HRange m snap (seen \<union> snap)], objects := os, fwd_log := log\<rparr>)"
    using server_run_append [OF run server_run_one [OF step]] by simp
  moreover have "length os = length (objects s)" "\<forall>k < length os. os ! k = (if k \<in> set (j # js) - {i} then c k else objects s ! k)"
    using os Cons.prems(3) by (auto simp: os1_def nth_list_update)
  ultimately show ?case
    by auto
qed

text \<open>From the top of the read loop to the channel: the message is read from client \<open>i\<close>, written to every other
  client, and put into the channel.\<close>

lemma server_forwards:
  assumes "server_shape s" "\<not> srv_done s" "i < length (handlers s)" "handlers s ! i = HCheck" "\<not> client_done (objects s ! i)"
    "client_read_default fuel ops (objects s ! i) = Some (Ret (Inr m, c i))" "srv_msgCh s = []"
    "\<And>j. j \<in> srv_clients s - {i} \<Longrightarrow> client_WriteMessage ops m (objects s ! j) = Ret (None, c j)"
  shows "\<exists>n s'. server_run fuel ops lst s (replicate n (EHandle i)) s' \<and> srv_msgCh s' = [m] \<and> \<not> srv_done s' \<and>
    (\<forall>j \<in> insert i (srv_clients s). objects s' ! j = c j)"
proof -
  let ?s1 = "set_pc i HRead s" and ?s2 = "set_pc i HReading s"
  let ?s3 = "set_pc i (HRange m (srv_clients s) {}) ((set_client i (c i) s)\<lparr>read_log := read_log s @ [(i, m)]\<rparr>)"
  have pc: "set_pc i pc (set_pc i pc' s) = set_pc i pc s" for pc pc'
    by (simp add: set_pc_def)
  have s1: "server_step fuel ops lst s (EHandle i) ?s1"
    by (rule server_step.check_go [OF assms(3,4,2)])
  have s2: "server_step fuel ops lst ?s1 (EHandle i) ?s2"
    using server_step.read_open [of i ?s1 fuel ops lst] assms(3,5) by (simp add: pc)
  have s3: "server_step fuel ops lst ?s2 (EHandle i) ?s3"
    using server_step.read_msg [of i ?s2 fuel ops m "c i" lst] assms(3,6) by (simp add: set_pc_def set_client_def)
  have sub: "srv_clients s \<subseteq> {..<length (objects s)}" and len: "length (handlers s) = length (objects s)"
    using assms(1) by (auto simp: server_shape_def)
  obtain js where js: "distinct js" "set js = srv_clients s"
    using finite_distinct_list [OF server_shape_finite [OF assms(1)]] by blast
  have w: "client_WriteMessage ops m (objects ?s3 ! j) = Ret (None, c j)" if "j \<in> set js - {i}" for j
    using that js(2) assms(8) sub by auto
  obtain os log where run: "server_run fuel ops lst ?s3 (replicate (length js) (EHandle i))
      (?s3\<lparr>handlers := (handlers ?s3)[i := HRange m (srv_clients s) ({} \<union> srv_clients s)], objects := os, fwd_log := log\<rparr>)"
    and os: "length os = length (objects ?s3)" "\<forall>j < length os. os ! j = (if j \<in> set js - {i} then c j else objects ?s3 ! j)"
    using range_visits [of i ?s3 m "srv_clients s" "{}" js ops c fuel lst, OF _ _ js(1) _ _ _ w] assms(3) js(2) sub by auto
  let ?s4 = "?s3\<lparr>handlers := (handlers ?s3)[i := HRange m (srv_clients s) ({} \<union> srv_clients s)], objects := os, fwd_log := log\<rparr>"
  let ?s5 = "set_pc i (HSend m (srv_clients s)) ?s4"
  let ?s6 = "set_pc i HCheck (?s5\<lparr>srv_msgCh := srv_msgCh ?s5 @ [m], queue_log := queue_log ?s5 @ [(i, m)]\<rparr>)"
  have s5: "server_step fuel ops lst ?s4 (EHandle i) ?s5"
    using assms(3) by (intro server_step.range_end [of i _ m "srv_clients s" "{} \<union> srv_clients s"]) auto
  have s6: "server_step fuel ops lst ?s5 (EHandle i) ?s6"
    using assms(3,7) by (intro server_step.send_msg) simp_all
  have "server_run fuel ops lst s ([EHandle i] @ [EHandle i] @ [EHandle i] @ replicate (length js) (EHandle i) @ [EHandle i] @ [EHandle i]) ?s6"
    using s1 s2 s3 run s5 s6 by (intro server_run_append) (auto intro: server_run_one)
  moreover have "[EHandle i] @ [EHandle i] @ [EHandle i] @ replicate (length js) (EHandle i) @ [EHandle i] @ [EHandle i] =
      replicate (length js + 5) (EHandle i)"
    by (simp add: eval_nat_numeral replicate_app_Cons_same)
  moreover have "\<forall>j \<in> insert i (srv_clients s). objects ?s6 ! j = c j"
    using os js(2) sub assms(3) len by (auto simp: subset_iff)
  ultimately show ?thesis
    using assms(2,7) by (intro exI [of _ "length js + 5"] exI [of _ ?s6]) simp
qed

text \<open>Goroutines of a server as steps of the program.\<close>

lemma put_transport_same: "tid < length (transports w) \<Longrightarrow> snd (transports w ! tid) = t \<Longrightarrow> put_transport k tid t w = w"
  by (cases "transports w ! tid") (simp add: put_transport_def list_update_same_conv)

lemma put_transport_twice:
  assumes "tid < length (transports w)" "prefix (kit_events k (snd (transports w ! tid))) (kit_events k t)" "prefix (kit_events k t) (kit_events k t')"
  shows "put_transport k tid t' (put_transport k tid t w) = put_transport k tid t' w"
  using assms by (auto simp: put_transport_def split_beta Let_def elim!: prefixE)

lemma goroutines_run:
  assumes "server_run (rt_fuel rt) (rt_conn rt) (rt_listener rt) s es s'" "\<forall>e \<in> set es. of_goroutine e"
    "tid < length (transports w)" "snd (transports w ! tid) = TcpServer s"
  shows "program_run st rt w (replicate (length es) (TransportStep tid)) (put_transport (program_kit rt) tid (TcpServer s') w)"
  using assms
proof (induction rule: server_run.induct)
  case (server_run_nil s)
  then show ?case
    by (simp add: put_transport_same)
next
  case (server_run_cons s es s' e s'')
  let ?k = "program_kit rt"
  let ?w = "put_transport ?k tid (TcpServer s') w"
  have run: "program_run st rt w (replicate (length es) (TransportStep tid)) ?w"
    using server_run_cons by simp
  have tid: "tid < length (transports ?w)" "snd (transports ?w ! tid) = TcpServer s'"
    using server_run_cons.prems(2) by (simp_all add: put_transport_def split_beta Let_def)
  have "prefix (kit_events ?k (snd (transports w ! tid))) (kit_events ?k (TcpServer s'))"
      "prefix (kit_events ?k (TcpServer s')) (kit_events ?k (TcpServer s''))"
    using server_run_only [OF server_run_cons.hyps(1)] server_step_only [OF server_run_cons.hyps(2)] server_run_cons.prems(3)
    by (simp_all add: program_kit_def only_disconnects_prefix)
  then have eq: "put_transport ?k tid (TcpServer s'') ?w = put_transport ?k tid (TcpServer s'') w"
    by (rule put_transport_twice [OF server_run_cons.prems(2)])
  have "broker_step st ?k ?w (TransportStep tid) (put_transport ?k tid (TcpServer s'') ?w)"
    using tid(1) by (rule broker_step.transport_step)
  moreover have "own_moves rt (TcpServer s') (TcpServer s'')"
    using server_run_cons.hyps(2) server_run_cons.prems(1) by auto
  moreover have "snd (transports (put_transport ?k tid (TcpServer s'') ?w) ! tid) = TcpServer s''"
    using tid(1) by (simp add: put_transport_def split_beta Let_def)
  ultimately have "program_run st rt ?w [TransportStep tid] (put_transport ?k tid (TcpServer s'') w)"
    using tid(2) eq by (simp add: system_step_def)
  then show ?case
    using run by (simp add: system_run_append replicate_append_same [symmetric]) blast
qed

text \<open>A broker in the lab whose only transport is a server; two clients join, and one has sent a message.\<close>

definition hub_store :: desk_store where
  "hub_store = desk_tcp\<lparr>d_bool := (d_bool desk_tcp)((''tcp'', ''IsClient'') := False),
     d_string := (d_string desk_tcp)((''top'', ''Topic'') := ''a/+'')\<rparr>"

definition hub_start :: "(desk_store, lab_net, (pipe list \<times> bool, pipe, nat \<times> byte list list, byte list list, nat \<times> byte list list) any_transport) broker" where
  "hub_start = Init (NewMessageBroker hub_store ([], [[open_pipe [] [wire demo_msg], open_pipe [] []]]))"

definition hub_session :: "nat session" where
  "hub_session =
     \<lparr>proto = \<lparr>transport = 0, subscribers = [\<lparr>sub_topic = ''a/+'', sub_handler = \<lparr>dyn = MessageRxHandlerFunc, ident = 0\<rparr>\<rparr>],
        msgCh = [], msgHandler = \<lparr>OnMessageRxFunc = True, OnMessageTxFunc = True\<rparr>, own_ctx_done = False, calls = []\<rparr>,
      recv = RCheck, proc = PLoop, ctx_done = False, received = [], handled = []\<rparr>"

definition hub_broker ::
  "(pipe list \<times> bool, pipe) server \<Rightarrow>
   (desk_store, lab_net, (pipe list \<times> bool, pipe, nat \<times> byte list list, byte list list, nat \<times> byte list list) any_transport) broker" where
  "hub_broker s =
     \<lparr>b_store = hub_store\<lparr>d_bool := (d_bool hub_store)((''tcp'', ''IsConnected'') := True), d_token := 4\<rparr>, b_net = ([], []),
      isLeader = True, b_done = False, protocolsByEntity = Some ((\<lambda>_. None)(''tcp'' := Some 0)), tokens = [0, 1, 2, 3],
      bound = [0, 1, 2, 3], queue = [], transports = [(''tcp'', TcpServer s)],
      agents = [\<lparr>ag_entity = ''tcp'', ag_session = hub_session\<rparr>], closures = [''top'']\<rparr>"

lemma lab_server:
  "kit_server (program_kit lab) addr ([], [[open_pipe [] [wire demo_msg], open_pipe [] []]]) = (Inr (TcpServer demo_server), ([], []))"
  by (simp add: program_kit_def lab_def demo_server_def NewTCPServerTransport_def Let_def)

lemma demo_server_events: "srv_events demo_server = [Connected]"
  by (simp add: demo_server_def NewTCPServerTransport_def OnConnect_def both_callbacks_def Let_def)

lemma hub_connected: "program_run desk_ops lab hub_start [BecomeLeader, RunTask 0] (hub_broker demo_server)"
proof (rule broker_run_system)
  let ?w1 = "OnBecameLeader desk_ops (program_kit lab) [] hub_start"
  have w1: "?w1 = \<lparr>b_store = hub_store\<lparr>d_bool := (d_bool hub_store)((''tcp'', ''IsConnected'') := False), d_token := 4\<rparr>, b_net = ([], []),
     isLeader = True, b_done = False, protocolsByEntity = Some (\<lambda>_. None), tokens = [0, 1, 2, 3], bound = [0, 1, 2, 3],
     queue = [ConnectTask ''tcp'' 0], transports = [(''tcp'', TcpServer demo_server)], agents = [], closures = []\<rparr>"
    by (simp add: hub_start_def Init_def NewMessageBroker_def broker_eval hub_store_def desk_tcp_def eval_nat_numeral lab_server
        demo_server_events) (simp add: program_kit_def demo_server_events)
  have "map_keys hub_start []"
    by (simp add: map_keys_def hub_start_def Init_def NewMessageBroker_def protocol_of_def)
  then have "broker_step desk_ops (program_kit lab) hub_start BecomeLeader ?w1"
    by (rule became_leader)
  moreover have "broker_step desk_ops (program_kit lab) ?w1 (RunTask 0) (hub_broker demo_server)"
    unfolding w1
    by (rule run_queued)
      (simp_all add: connect_task_def write_bool_def new_agent_def StartReceiving_def NewProtocol_def
        NewSubscriptionManager_def subscribe_topic_def protocol_Subscribe_def Subscribe_def hub_store_def desk_tcp_def hub_broker_def
        hub_session_def Let_def)
  ultimately show "broker_run desk_ops (program_kit lab) hub_start [BecomeLeader, RunTask 0] (hub_broker demo_server)"
    by (blast intro: broker_run.intros)
qed simp

lemma hub_joined: "program_run desk_ops lab hub_start ([BecomeLeader, RunTask 0] @ replicate 6 (TransportStep 0)) (hub_broker demo_joined)"
proof -
  have "put_transport (program_kit lab) 0 (TcpServer demo_joined) (hub_broker demo_server) = hub_broker demo_joined"
    by (simp add: put_transport_def hub_broker_def program_kit_def demo_joined_def store_client_def)
  moreover have "length join_events = 6" "\<forall>e \<in> set join_events. of_goroutine e"
    by (simp_all add: join_events_def)
  ultimately have "program_run desk_ops lab (hub_broker demo_server) (replicate 6 (TransportStep 0)) (hub_broker demo_joined)"
    using goroutines_run [of lab demo_server join_events demo_joined 0 "hub_broker demo_server" desk_ops]
      demo_join [of 2050 pipe_ops] by (simp add: hub_broker_def)
  then show ?thesis
    using hub_connected unfolding system_run_append by blast
qed

section \<open>Properties\<close>



text \<open>C7. Protocols and connections: in every reachable state of the program there are at most as many protocols on
  a transport as it has called \<open>OnConnect\<close>, those included that the connect tasks still in the queue will
  make; so never more than one on a TCP client or server, and several on an FTDI device only when it
  has connected again.\<close>

theorem program_protocols_per_transport:
  assumes "resolves rt" and "program_run st rt (Init (NewMessageBroker d n)) es w" and "tid < length (transports w)"
  shows "case snd (transports w ! tid) of
     FtdiDevice f \<Rightarrow> uses tid w \<le> count_list (f_events f) Connected
   | _ \<Rightarrow> uses tid w \<le> 1"
proof -
  let ?t = "snd (transports w ! tid)"
  note objects = runtime_choices.program_objects [OF runtime_choices.intro [OF assms(1)] assms(2,3)]
  show ?thesis
  proof (cases ?t)
    case (TcpClient c)
    then have "connect_calls ?t = 1"
      using objects(1) client_connects_once by (auto simp: connect_calls_def)
    then show ?thesis
      using objects(2) TcpClient by simp
  next
    case (TcpServer s)
    then have "connect_calls ?t = 1"
      using objects(1) server_connects_once by (auto simp: connect_calls_def)
    then show ?thesis
      using objects(2) TcpServer by simp
  next
    case (FtdiDevice f)
    then show ?thesis
      using objects(2) by (simp add: connect_calls_def)
  qed
qed

theorem program_protocols_per_transport_witness:
  "protocols_on 0 (hub_broker demo_joined) = 1 \<and> uses 0 (hub_broker demo_joined) \<le> 1"
  using program_protocols_per_transport [OF lab.choices hub_joined [unfolded hub_start_def], of 0]
  by (simp add: hub_broker_def uses_def protocols_on_def hub_session_def)

text \<open>C5. A message through the broker's TCP server: when client \<open>i\<close> of the server has sent a message, the
  connections to the other clients take it, and the receive loop of the protocol is idle, then the
  read loop of client \<open>i\<close> and four steps of the protocol's goroutines bring it to all of them: the connection of
  every other client has got it, client \<open>i\<close> has not got it back, and it stands in \<open>RxMessage\<close> and \<open>RxMessageFn\<close> of
  every topic entity that subscribed a matching pattern.\<close>

theorem server_message_reaches_all:
  assumes run: "program_run st rt (Init (NewMessageBroker d n)) es w" "resolves rt" "store_contract st"
    and server: "tid < length (transports w)" "snd (transports w ! tid) = TcpServer s" "\<not> srv_done s" "srv_msgCh s = []"
    and sender: "i < length (handlers s)" "handlers s ! i = HCheck" "\<not> client_done (objects s ! i)"
      "client_read_default (rt_fuel rt) (rt_conn rt) (objects s ! i) = Some (Ret (Inr m, c i))"
    and others: "\<And>j. j \<in> srv_clients s - {i} \<Longrightarrow> client_WriteMessage (rt_conn rt) m (objects s ! j) = Ret (None, c j)"
    and agent: "pid < length (agents w)" "agent_transport pid w = tid" "q = load_session pid w"
      "recv q = RCheck" "proc q = PLoop" "\<not> ctx_done q" "msgCh (proto q) = []"
  shows "\<exists>k w' s'. program_run st rt w (replicate k (TransportStep tid) @ replicate 4 (AgentStep pid)) w' \<and>
     snd (transports w' ! tid) = TcpServer s' \<and> (\<forall>j \<in> insert i (srv_clients s). objects s' ! j = c j) \<and>
     (\<forall>sub \<in> set (subscribers (proto q)). matchTopic (sub_topic sub) (Topic m) \<longrightarrow> (\<forall>f \<in> {''RxMessage'', ''RxMessageFn''}.
        ReadString st (closures w ! ident (sub_handler sub)) f (b_store w') = bytes_string (Payload m)))"
proof -
  let ?k = "program_kit rt"
  have "server_shape s"
    using runtime_choices.program_objects(1) [OF runtime_choices.intro [OF run(2)] run(1) server(1)] server(2) server_reach_shape by auto
  then obtain k s1 where s1: "server_run (rt_fuel rt) (rt_conn rt) (rt_listener rt) s (replicate k (EHandle i)) s1"
      "srv_msgCh s1 = [m]" "\<not> srv_done s1" "\<forall>j \<in> insert i (srv_clients s). objects s1 ! j = c j"
    using server_forwards [OF _ server(3) sender server(4) others] by blast
  let ?w1 = "put_transport ?k tid (TcpServer s1) w" and ?s2 = "s1\<lparr>srv_msgCh := [], take_log := take_log s1 @ [m]\<rparr>"
  have run1: "program_run st rt w (replicate k (TransportStep tid)) ?w1"
    using goroutines_run [OF s1(1) _ server(1,2)] by simp
  have ok: "broker_ok ?w1"
    using broker_run_ok [OF system_run_broker [OF run1] reachable_ok [OF system_run_broker [OF run(1)]]] .
  have same: "agents ?w1 = agents w" "closures ?w1 = closures w" "agent_transport pid ?w1 = tid" "tid < length (transports ?w1)"
      "snd (transports ?w1 ! tid) = TcpServer s1"
    using server(1) agent(2) by (simp_all add: put_transport_def split_beta Let_def)
  have q: "recv (load_session pid ?w1) = RCheck" "proc (load_session pid ?w1) = PLoop" "\<not> ctx_done (load_session pid ?w1)"
      "msgCh (proto (load_session pid ?w1)) = []"
    using agent(3-7) same(1) by (simp_all add: load_session_def with_protocol_def with_transport_def Let_def)
  have rd: "kit_read ?k (transport (proto (load_session pid ?w1))) = Some (Ret (Inr m, TcpServer ?s2))"
    using s1(2,3) same(3,5) by (simp add: program_kit_def server_ReadMessage_def)
  have pid: "pid < length (agents ?w1)"
    using agent(1) same(1) by simp
  obtain w2 where w2: "broker_run st ?k ?w1 (replicate 3 (AgentStep pid)) w2" "broker_ok w2" "pid < length (agents w2)"
      "closures w2 = closures w" "subscribers (proto (ag_session (agents w2 ! pid))) = subscribers (proto (ag_session (agents w ! pid)))"
      "proc (load_session pid w2) = PLoop" "msgCh (proto (load_session pid w2)) = [m]"
      "transports w2 = (transports ?w1)[tid := (fst (transports ?w1 ! tid), TcpServer ?s2)]"
    using receive_turn [OF ok pid refl rd q, of st] unfolding same(1,2) agent(2) by blast
  obtain w' where w': "broker_step st ?k w2 (AgentStep pid) w'" "transports w' = transports w2"
      "\<forall>sub \<in> set (subscribers (proto (ag_session (agents w2 ! pid)))). matchTopic (sub_topic sub) (Topic m) \<longrightarrow>
         (\<forall>f \<in> {''RxMessage'', ''RxMessageFn''}. ReadString st (closures w2 ! ident (sub_handler sub)) f (b_store w') = bytes_string (Payload m))"
    using process_turn [OF w2(2,3) run(3) w2(6,7)] by blast
  have "broker_run st ?k ?w1 (replicate 3 (AgentStep pid) @ [AgentStep pid]) w'"
    using w2(1) w'(1) by (auto simp: broker_run_append)
  then have "program_run st rt ?w1 (replicate 4 (AgentStep pid)) w'"
    by (intro broker_run_system) (simp_all add: eval_nat_numeral)
  then have "program_run st rt w (replicate k (TransportStep tid) @ replicate 4 (AgentStep pid)) w'"
    using run1 by (auto simp: system_run_append)
  moreover have "snd (transports w' ! tid) = TcpServer ?s2" "\<forall>j \<in> insert i (srv_clients s). objects ?s2 ! j = c j"
    using w'(2) w2(8) same(4) s1(4) by simp_all
  moreover have "subscribers (proto q) = subscribers (proto (ag_session (agents w2 ! pid)))"
    using w2(5) agent(3) by simp
  ultimately show ?thesis
    using w'(3) w2(4) by (intro exI [of _ k] exI [of _ w'] exI [of _ ?s2]) simp
qed

theorem server_message_reaches_all_witness:
  "\<exists>k w' s'. program_run desk_ops lab (hub_broker demo_joined) (replicate k (TransportStep 0) @ replicate 4 (AgentStep 0)) w' \<and>
     snd (transports w' ! 0) = TcpServer s' \<and> objects s' ! 1 = pipe_client None [wire demo_msg] (NewMessageReader []) \<and>
     d_string (b_store w') (''top'', ''RxMessage'') = bytes_string [1, 2]"
proof -
  obtain r where r: "client_read_default 2050 pipe_ops (pipe_client None [] (NewMessageReader [wire demo_msg])) =
      Some (Ret (Inr demo_msg, pipe_client None [] r))"
    using pipe_client_read [of "NewMessageReader [wire demo_msg]" demo_msg "[]" 2048 None "[]"] demo_msg_fits
    by (auto simp: NewMessageReader_def reader_inv_def)
  define c :: "nat \<Rightarrow> pipe tcp_client" where
    "c j = (if j = 0 then pipe_client None [] r else pipe_client None [wire demo_msg] (NewMessageReader []))" for j
  let ?w = "hub_broker demo_joined" and ?sub = "\<lparr>sub_topic = ''a/+'', sub_handler = \<lparr>dyn = MessageRxHandlerFunc, ident = 0\<rparr>\<rparr>"
  have "\<exists>k w' s'. program_run desk_ops lab ?w (replicate k (TransportStep 0) @ replicate 4 (AgentStep 0)) w' \<and>
     snd (transports w' ! 0) = TcpServer s' \<and> (\<forall>j \<in> insert 0 (srv_clients demo_joined). objects s' ! j = c j) \<and>
     (\<forall>sub \<in> set (subscribers (proto (load_session 0 ?w))). matchTopic (sub_topic sub) (Topic demo_msg) \<longrightarrow>
        (\<forall>f \<in> {''RxMessage'', ''RxMessageFn''}.
           ReadString desk_ops (closures ?w ! ident (sub_handler sub)) f (b_store w') = bytes_string (Payload demo_msg)))"
  proof (rule server_message_reaches_all [OF hub_joined [unfolded hub_start_def] lab.choices desk_contract, where s = demo_joined])
    show "client_read_default (rt_fuel lab) (rt_conn lab) (objects demo_joined ! 0) = Some (Ret (Inr demo_msg, c 0))"
      using r by (simp add: c_def)
    show "client_WriteMessage (rt_conn lab) demo_msg (objects demo_joined ! j) = Ret (None, c j)" if "j \<in> srv_clients demo_joined - {0}" for j
      using that by (auto simp: c_def pipe_client_write demo_msg_fits)
  qed (simp_all add: hub_broker_def hub_session_def load_session_def with_protocol_def with_transport_def pipe_client_def)
  moreover have "?sub \<in> set (subscribers (proto (load_session 0 ?w)))" "closures ?w ! 0 = ''top''"
    by (simp_all add: hub_broker_def hub_session_def)
  moreover have "matchTopic ''a/+'' ''a/b''"
    by code_simp
  ultimately show ?thesis
    by (fastforce simp: demo_msg_def c_def)
qed

end
