(* ===== verification/Qdp_C_Memory.thy ===== *)
theory Qdp_C_Memory
  imports Qdp_Prelude "HOL-Library.Monad_Syntax"
begin

unbundle bit_operations_syntax

text \<open>
  The C values of \<open>lib/c\<close>. An array object is a list; an access outside of it is undefined behaviour,
  which is the value \<open>None\<close>, so a function of the C library has the type \<open>\<dots> \<Rightarrow> 'a option\<close> and is
  written in the option monad. A pointer of type \<open>const char *\<close> that is only read is the list of the bytes
  from it to the end of its array, and a string ends at the first zero byte. \<open>uint32_t\<close> is a 32-bit
  word; \<open>size_t\<close> is 64 bits wide and holds offsets and sums of 32-bit lengths here, so it is a \<open>nat\<close>.
\<close>

named_theorems c_simps \<open>array accesses in range\<close>

section \<open>Arrays\<close>

text \<open>Reading and writing \<open>n\<close> consecutive elements; \<open>memcpy(dst + d, src + s, n)\<close> is one after the other.\<close>

definition array_read :: "'a list \<Rightarrow> nat \<Rightarrow> nat \<Rightarrow> 'a list option" where
  "array_read a off n = (if off + n \<le> length a then Some (take n (drop off a)) else None)"

definition array_write :: "'a list \<Rightarrow> nat \<Rightarrow> 'a list \<Rightarrow> 'a list option" where
  "array_write a off src =
     (if off + length src \<le> length a then Some (take off a @ src @ drop (off + length src) a) else None)"

definition memcpy :: "'a list \<Rightarrow> nat \<Rightarrow> 'a list \<Rightarrow> nat \<Rightarrow> nat \<Rightarrow> 'a list option" where
  "memcpy dst d src s n = do { bs \<leftarrow> array_read src s n; array_write dst d bs }"

lemma array_read_eq_Some:
  "array_read a off n = Some xs \<longleftrightarrow> off + n \<le> length a \<and> xs = take n (drop off a)"
  by (auto simp: array_read_def)

lemma array_read_ok [c_simps]: "off + n \<le> length a \<Longrightarrow> array_read a off n = Some (take n (drop off a))"
  by (simp add: array_read_def)

lemma array_read_out: "length a < off + n \<Longrightarrow> array_read a off n = None"
  by (simp add: array_read_def)

lemma array_write_ok [c_simps]:
  "off + length src \<le> length a \<Longrightarrow>
   array_write a off src = Some (take off a @ src @ drop (off + length src) a)"
  by (simp add: array_write_def)

lemma array_write_out: "length a < off + length src \<Longrightarrow> array_write a off src = None"
  by (simp add: array_write_def)

lemma array_write_length: "array_write a off src = Some a' \<Longrightarrow> length a' = length a"
  by (auto simp: array_write_def split: if_splits)

lemma memcpy_ok [c_simps]:
  "s + n \<le> length src \<Longrightarrow> d + n \<le> length dst \<Longrightarrow>
   memcpy dst d src s n = Some (take d dst @ take n (drop s src) @ drop (d + n) dst)"
  by (simp add: memcpy_def array_read_def array_write_def)

lemma memcpy_length: "memcpy dst d src s n = Some dst' \<Longrightarrow> length dst' = length dst"
  by (auto simp: memcpy_def bind_eq_Some_conv dest: array_write_length)

section \<open>Strings\<close>

fun strlen :: "byte list \<Rightarrow> nat option" where
  "strlen [] = None"
| "strlen (b # bs) = (if b = 0 then Some 0 else map_option Suc (strlen bs))"

text \<open>\<open>strcmp(a, b) == 0\<close>, comparing up to the first difference or the end.\<close>

fun strcmp_eq :: "byte list \<Rightarrow> byte list \<Rightarrow> bool option" where
  "strcmp_eq (a # as) (b # bs) =
     (if a \<noteq> b then Some False else if a = 0 then Some True else strcmp_eq as bs)"
| "strcmp_eq _ _ = None"

text \<open>\<open>strchr(s, c)\<close> for \<open>c \<noteq> 0\<close>: the pointer to the first occurrence, or \<open>NULL\<close>.\<close>

fun strchr :: "byte list \<Rightarrow> byte \<Rightarrow> byte list option option" where
  "strchr [] c = None"
| "strchr (b # bs) c = (if b = c then Some (Some (b # bs)) else if b = 0 then Some None else strchr bs c)"

text \<open>\<open>strncpy(dst, src, n)\<close> stores exactly \<open>n\<close> bytes: the string, cut or filled up with zeros.\<close>

fun strncpy_bytes :: "byte list \<Rightarrow> nat \<Rightarrow> byte list option" where
  "strncpy_bytes src 0 = Some []"
| "strncpy_bytes [] (Suc n) = None"
| "strncpy_bytes (b # src) (Suc n) =
     (if b = 0 then Some (replicate (Suc n) 0) else map_option (Cons b) (strncpy_bytes src n))"

definition strncpy :: "byte list \<Rightarrow> byte list \<Rightarrow> nat \<Rightarrow> byte list option" where
  "strncpy dst src n = do { bs \<leftarrow> strncpy_bytes src n; array_write dst 0 bs }"

text \<open>The contents of a terminated string.\<close>

definition cstr :: "byte list \<Rightarrow> byte list" where
  "cstr a = takeWhile (\<lambda>b. b \<noteq> 0) a"

abbreviation terminated :: "byte list \<Rightarrow> bool" where
  "terminated a \<equiv> 0 \<in> set a"

lemma zero_notin_cstr [simp]: "0 \<notin> set (cstr a)"
  by (auto simp: cstr_def dest: set_takeWhileD)

lemma cstr_simps [simp]: "cstr [] = []" "cstr (b # bs) = (if b = 0 then [] else b # cstr bs)"
  by (simp_all add: cstr_def)

lemma cstr_append_zero: "0 \<notin> set s \<Longrightarrow> cstr (s @ 0 # r) = s"
  by (induction s) auto

lemma cstr_idem [simp]: "cstr (cstr a) = cstr a"
  by (induction a) auto

lemma length_cstr_le: "length (cstr a) \<le> length a"
  by (simp add: cstr_def length_takeWhile_le)

lemma terminated_split: "terminated a \<Longrightarrow> \<exists>r. a = cstr a @ 0 # r"
  by (induction a) auto

lemma terminated_length: "terminated a \<Longrightarrow> length (cstr a) < length a"
  using terminated_split [of a] by (metis length_append length_Cons less_add_Suc1 add_Suc_right)

lemma strlen_eq: "strlen a = (if terminated a then Some (length (cstr a)) else None)"
  by (induction a) auto

lemma strcmp_eq_cstr: "terminated a \<Longrightarrow> terminated b \<Longrightarrow> strcmp_eq a b = Some (cstr a = cstr b)"
  by (induction a b rule: strcmp_eq.induct) auto

lemma strncpy_bytes_eq:
  "terminated src \<Longrightarrow> strncpy_bytes src n = Some (take n (cstr src) @ replicate (n - length (cstr src)) 0)"
  by (induction src n rule: strncpy_bytes.induct) auto

lemma length_strncpy_bytes: "strncpy_bytes src n = Some bs \<Longrightarrow> length bs = n"
  by (induction src n arbitrary: bs rule: strncpy_bytes.induct) (auto split: if_splits)

lemma cstr_append: "0 \<notin> set s \<Longrightarrow> cstr (s @ t) = s @ cstr t"
  by (induction s) auto

lemma cstr_take: "cstr (take n (cstr a)) = take n (cstr a)"
  by (metis cstr_append zero_notin_cstr append_Nil2 cstr_simps(1) in_set_takeD)

lemma cstr_replicate_zero [simp]: "cstr (replicate k 0 @ t) = (if k = 0 then cstr t else [])"
  by (cases k) auto

text \<open>
  \<open>strncpy(dst, src, sizeof dst - 1)\<close> into an array whose last byte is zero: a terminated string, cut to
  what fits.
\<close>

lemma strncpy_last_zero:
  assumes "terminated src" and "length dst = Suc n" and "dst ! n = 0"
  shows "\<exists>a. strncpy dst src n = Some a \<and> length a = Suc n \<and> a ! n = 0 \<and> cstr a = take n (cstr src)"
proof -
  let ?bs = "take n (cstr src) @ replicate (n - length (cstr src)) 0"
  have len: "length ?bs = n"
    by simp
  have "drop n dst = [0]"
    using assms(2,3) Cons_nth_drop_Suc [of n dst] by simp
  then have s: "strncpy dst src n = Some (?bs @ [0])"
    using assms len by (simp add: strncpy_def strncpy_bytes_eq array_write_def)
  have "0 \<notin> set (take n (cstr src))"
    by (metis zero_notin_cstr in_set_takeD)
  then have "cstr (?bs @ [0]) = take n (cstr src)"
    by (simp add: cstr_append)
  moreover have "(?bs @ [0]) ! n = 0"
    using len by (metis nth_append_length)
  ultimately show ?thesis
    using s len by auto
qed

lemma strchr_cases:
  assumes "terminated a" and "c \<noteq> 0"
  shows "strchr a c = Some (if c \<in> set (cstr a) then Some (dropWhile (\<lambda>b. b \<noteq> c) a) else None)"
  using assms by (induction a) auto

lemma char_of_byte_inject [simp]: "char_of_byte a = char_of_byte b \<longleftrightarrow> a = b"
  by (metis byte_of_char_of_byte)

lemma char_of_byte_eq_iff: "char_of_byte a = c \<longleftrightarrow> a = byte_of_char c"
  by (metis byte_of_char_of_byte char_of_byte_of_char)

lemma byte_of_char_zero: "byte_of_char c = 0 \<longleftrightarrow> c = CHR 0x00"
proof -
  have "byte_of_char (CHR 0x00) = 0"
    by (simp add: byte_of_char_def)
  then show ?thesis
    by (metis char_of_byte_of_char)
qed

lemma zero_in_string_bytes: "0 \<in> set (string_bytes s) \<longleftrightarrow> CHR 0x00 \<in> set s"
  by (auto simp: string_bytes_def image_iff byte_of_char_zero eq_commute [of 0])

section \<open>Little-endian integers\<close>

definition write_uint32_le :: "byte list \<Rightarrow> nat \<Rightarrow> u32 \<Rightarrow> byte list option" where
  "write_uint32_le buf off v =
     array_write buf off
       [ucast (v AND 0xFF), ucast (drop_bit 8 v AND 0xFF), ucast (drop_bit 16 v AND 0xFF),
        ucast (drop_bit 24 v AND 0xFF)]"

definition read_uint32_le :: "byte list \<Rightarrow> nat \<Rightarrow> u32 option" where
  "read_uint32_le buf off = do {
     bs \<leftarrow> array_read buf off 4;
     Some (ucast (bs ! 0) OR push_bit 8 (ucast (bs ! 1)) OR push_bit 16 (ucast (bs ! 2))
       OR push_bit 24 (ucast (bs ! 3)))
   }"

lemma ucast_and_FF: "(ucast (v AND 0xFF) :: byte) = ucast v" for v :: u32
proof (rule bit_word_eqI)
  fix n
  assume n: "n < LENGTH(8)"
  have "bit (0xFF :: u32) n"
    using n by (auto simp: less_Suc_eq numeral_eq_Suc bit_0 bit_Suc)
  then show "bit (ucast (v AND 0xFF) :: byte) n \<longleftrightarrow> bit (ucast v :: byte) n"
    using n by (simp add: bit_simps)
qed

lemma write_uint32_le_bytes: "write_uint32_le buf off v = array_write buf off (le_bytes v)"
  by (simp add: write_uint32_le_def le_bytes_def ucast_and_FF)

lemma le_bytes_nth:
  "le_bytes v ! 0 = ucast v" "le_bytes v ! 1 = ucast (drop_bit 8 v)"
  "le_bytes v ! 2 = ucast (drop_bit 16 v)" "le_bytes v ! 3 = ucast (drop_bit 24 v)"
  by (simp_all add: le_bytes_def nth_Cons')

lemma read_uint32_le_bytes:
  assumes "take 4 (drop off buf) = le_bytes v"
  shows "read_uint32_le buf off = Some v"
proof -
  have "length (take 4 (drop off buf)) = 4"
    by (simp only: assms length_le_bytes)
  then have "off + 4 \<le> length buf"
    by (simp add: min_def split: if_splits)
  then have "read_uint32_le buf off = Some (le_word (le_bytes v ! 0) (le_bytes v ! 1) (le_bytes v ! 2) (le_bytes v ! 3))"
    by (simp only: read_uint32_le_def array_read_def assms le_word_def if_True Option.bind.simps)
  then show ?thesis
    by (simp only: le_bytes_nth le_word_le_bytes)
qed

lemma read_uint32_le_take:
  assumes "off + 4 \<le> length buf"
  shows "\<exists>v. read_uint32_le buf off = Some v \<and> take 4 (drop off buf) = le_bytes v"
proof -
  have "4 \<le> length (drop off buf)"
    using assms by simp
  then obtain v where "take 4 (drop off buf) = le_bytes v"
    using Uint32_take by blast
  then show ?thesis
    using read_uint32_le_bytes by blast
qed

end
