(* ===== verification/Qdp_C_Message.thy ===== *)
theory Qdp_C_Message
  imports Qdp_C_Memory Qdp_Message
begin

unbundle bit_operations_syntax

text \<open>
  Checksum, buffers and messages of the C library (\<open>lib/c/qdp.c\<close>, \<open>qdp.h\<close>): the CRC table, a global
  variable that is zero until \<open>qdp_crc32_init\<close> runs, \<open>qdp_buffer_t\<close>, \<open>qdp_message_write\<close> and
  \<open>qdp_message_read\<close>. The table is an argument of the operations that read it. The lemmas relate both
  directions to the frame \<open>wire\<close> of the Go library and say when an access is out of bounds.
\<close>

section \<open>Checksum\<close>

definition qdp_crc32_step :: "u32 \<Rightarrow> u32" where
  "qdp_crc32_step crc = (if crc AND 1 \<noteq> 0 then drop_bit 1 crc XOR 0xEDB88320 else drop_bit 1 crc)"

definition qdp_crc32_init :: "u32 list" where
  "qdp_crc32_init = map (\<lambda>i. (qdp_crc32_step ^^ 8) (word_of_nat i)) [0..<256]"

definition qdp_crc32_zero :: "u32 list" where
  "qdp_crc32_zero = replicate 256 0"

definition qdp_crc32_byte :: "u32 list \<Rightarrow> u32 \<Rightarrow> byte \<Rightarrow> u32" where
  "qdp_crc32_byte tab crc b = drop_bit 8 crc XOR tab ! unat ((crc XOR ucast b) AND 0xFF)"

definition qdp_calc_crc32 :: "u32 list \<Rightarrow> byte list \<Rightarrow> u32" where
  "qdp_calc_crc32 tab data = foldl (qdp_crc32_byte tab) 0xFFFFFFFF data XOR 0xFFFFFFFF"

section \<open>Buffers\<close>

text \<open>\<open>buf_data\<close> is the array that the member \<open>data\<close> points to.\<close>

record qdp_buffer =
  buf_data :: "byte list"
  buf_size :: nat
  buf_capacity :: nat
  buf_position :: nat

definition qdp_buffer_create :: "byte list \<Rightarrow> nat \<Rightarrow> qdp_buffer" where
  "qdp_buffer_create d cap = \<lparr>buf_data = d, buf_size = 0, buf_capacity = cap, buf_position = 0\<rparr>"

definition qdp_buffer_reset :: "qdp_buffer \<Rightarrow> qdp_buffer" where
  "qdp_buffer_reset buf = buf\<lparr>buf_size := 0, buf_position := 0\<rparr>"

definition qdp_buffer_can_read :: "qdp_buffer \<Rightarrow> nat \<Rightarrow> bool" where
  "qdp_buffer_can_read buf bytes \<longleftrightarrow> buf_position buf + bytes \<le> buf_size buf"

definition qdp_buffer_can_write :: "qdp_buffer \<Rightarrow> nat \<Rightarrow> bool" where
  "qdp_buffer_can_write buf bytes \<longleftrightarrow> buf_size buf + bytes \<le> buf_capacity buf"

section \<open>Messages\<close>

abbreviation QDP_MAX_TOPIC_LENGTH :: nat where
  "QDP_MAX_TOPIC_LENGTH \<equiv> 256"

abbreviation QDP_MAX_PAYLOAD_SIZE :: nat where
  "QDP_MAX_PAYLOAD_SIZE \<equiv> 512"

record qdp_header =
  hdr_topic_len :: u32
  hdr_payload_len :: u32
  hdr_topic :: "byte list"

record qdp_payload =
  pl_size :: u32
  pl_data :: "byte list"

record qdp_message =
  msg_header :: qdp_header
  msg_payload :: qdp_payload
  msg_checksum :: u32

text \<open>\<open>qdp_message_t msg = {0}\<close>, and what \<open>qdp_message_clear\<close> leaves.\<close>

definition zero_message :: qdp_message where
  "zero_message =
     \<lparr>msg_header = \<lparr>hdr_topic_len = 0, hdr_payload_len = 0, hdr_topic = replicate QDP_MAX_TOPIC_LENGTH 0\<rparr>,
      msg_payload = \<lparr>pl_size = 0, pl_data = replicate QDP_MAX_PAYLOAD_SIZE 0\<rparr>, msg_checksum = 0\<rparr>"

definition qdp_message_clear :: "qdp_message \<Rightarrow> qdp_message" where
  "qdp_message_clear msg =
     msg\<lparr>msg_header := msg_header zero_message, msg_payload := msg_payload zero_message, msg_checksum := 0\<rparr>"

text \<open>\<open>sizeof(qdp_header_t)\<close> is \<open>4 + 4 + 256\<close>; the sum is converted to \<open>uint32_t\<close>.\<close>

definition qdp_message_calc_size :: "qdp_message \<Rightarrow> u32" where
  "qdp_message_calc_size msg = word_of_nat (264 + unat (hdr_payload_len (msg_header msg)) + 4)"

text \<open>A write at \<open>buf->data + buf->size\<close>, after which \<open>size\<close> grows by what was written.\<close>

definition buffer_append :: "qdp_buffer \<Rightarrow> byte list \<Rightarrow> qdp_buffer option" where
  "buffer_append buf bs = do {
     d \<leftarrow> array_write (buf_data buf) (buf_size buf) bs;
     Some (buf\<lparr>buf_data := d, buf_size := buf_size buf + length bs\<rparr>)
   }"

definition buffer_append_uint32 :: "qdp_buffer \<Rightarrow> u32 \<Rightarrow> qdp_buffer option" where
  "buffer_append_uint32 buf v = do {
     d \<leftarrow> write_uint32_le (buf_data buf) (buf_size buf) v;
     Some (buf\<lparr>buf_data := d, buf_size := buf_size buf + 4\<rparr>)
   }"

definition qdp_message_write :: "u32 list \<Rightarrow> qdp_buffer \<Rightarrow> qdp_message \<Rightarrow> (bool \<times> qdp_buffer) option" where
  "qdp_message_write tab buf msg =
     (let topic_len = hdr_topic_len (msg_header msg);
          payload_size = pl_size (msg_payload msg);
          total_size = 8 + unat topic_len + unat payload_size + 4;
          start_pos = buf_size buf in
      if \<not> qdp_buffer_can_write buf total_size then Some (False, buf)
      else do {
        buf \<leftarrow> buffer_append_uint32 buf topic_len;
        buf \<leftarrow> buffer_append_uint32 buf payload_size;
        topic \<leftarrow> array_read (hdr_topic (msg_header msg)) 0 (unat topic_len);
        buf \<leftarrow> buffer_append buf topic;
        payload \<leftarrow> array_read (pl_data (msg_payload msg)) 0 (unat payload_size);
        buf \<leftarrow> buffer_append buf payload;
        written \<leftarrow> array_read (buf_data buf) start_pos (buf_size buf - start_pos);
        buf \<leftarrow> buffer_append_uint32 buf (qdp_calc_crc32 tab written);
        Some (True, buf)
      })"

text \<open>
  The length \<open>8 + topic_len + payload_len\<close> is a \<open>uint32_t\<close> sum, to which \<open>sizeof(uint32_t)\<close> is added as a
  \<open>size_t\<close>; it is compared with \<open>size\<close> alone.
\<close>

definition qdp_message_read ::
    "u32 list \<Rightarrow> qdp_buffer \<Rightarrow> qdp_message \<Rightarrow> (bool \<times> qdp_buffer \<times> qdp_message) option" where
  "qdp_message_read tab buf msg =
     (let start_pos = buf_position buf in
      if \<not> qdp_buffer_can_read buf 8 then Some (False, buf, msg)
      else do {
        topic_len \<leftarrow> read_uint32_le (buf_data buf) (buf_position buf);
        payload_len \<leftarrow> read_uint32_le (buf_data buf) (buf_position buf + 4);
        let buf = buf\<lparr>buf_position := buf_position buf + 4 + 4\<rparr>;
        let msg = msg\<lparr>msg_header := (msg_header msg)\<lparr>hdr_topic_len := topic_len, hdr_payload_len := payload_len\<rparr>\<rparr>;
        if QDP_MAX_TOPIC_LENGTH < unat topic_len \<or> QDP_MAX_PAYLOAD_SIZE < unat payload_len
        then Some (False, buf, msg)
        else if buf_size buf < unat (8 + topic_len + payload_len) + 4 then Some (False, buf, msg)
        else do {
          topic \<leftarrow> memcpy (hdr_topic (msg_header msg)) 0 (buf_data buf) (buf_position buf) (unat topic_len);
          topic \<leftarrow> array_write topic (unat topic_len) [0];
          let buf = buf\<lparr>buf_position := buf_position buf + unat topic_len\<rparr>;
          payload \<leftarrow> memcpy (pl_data (msg_payload msg)) 0 (buf_data buf) (buf_position buf) (unat payload_len);
          let buf = buf\<lparr>buf_position := buf_position buf + unat payload_len\<rparr>;
          checksum \<leftarrow> read_uint32_le (buf_data buf) (buf_position buf);
          let buf = buf\<lparr>buf_position := buf_position buf + 4\<rparr>;
          covered \<leftarrow> array_read (buf_data buf) start_pos (buf_position buf - start_pos - 4);
          let msg = msg\<lparr>msg_header := (msg_header msg)\<lparr>hdr_topic := topic\<rparr>,
            msg_payload := \<lparr>pl_size = payload_len, pl_data = payload\<rparr>, msg_checksum := checksum\<rparr>;
          Some (checksum = qdp_calc_crc32 tab covered, buf, msg)
        }
      })"

text \<open>Access to a received message; a \<open>char *\<close> into an array is the rest of the array.\<close>

definition qdp_get_topic :: "qdp_message \<Rightarrow> byte list" where
  "qdp_get_topic msg = hdr_topic (msg_header msg)"

definition qdp_get_string :: "qdp_message \<Rightarrow> byte list option" where
  "qdp_get_string msg = (if pl_size (msg_payload msg) = 0 then None else Some (pl_data (msg_payload msg)))"

definition qdp_get_bytes :: "qdp_message \<Rightarrow> nat \<times> byte list" where
  "qdp_get_bytes msg = (unat (pl_size (msg_payload msg)), pl_data (msg_payload msg))"

section \<open>The checksum is that of the Go library\<close>

lemma crc_shifts_funpow: "(qdp_crc32_step ^^ n) crc = crc_shifts n crc"
proof (induction n arbitrary: crc)
  case (Suc n)
  have "qdp_crc32_step crc = crc_shift crc"
    by (simp only: qdp_crc32_step_def crc_shift_def polynomial_def)
  then show ?case
    by (simp add: funpow_Suc_right Suc.IH del: funpow.simps)
qed simp

lemma qdp_crc32_init_table: "qdp_crc32_init = crc32Table"
  by (simp only: qdp_crc32_init_def crc32Table_def crc_shifts_funpow)

lemma bit_0xFF: "bit (0xFF :: u32) n \<longleftrightarrow> n < 8"
proof -
  have "(0xFF :: u32) = mask 8"
    by (simp add: mask_eq_exp_minus_1)
  then show ?thesis
    by (simp only: bit_mask_iff possible_bit_word) auto
qed

lemma crc_index: "unat ((crc XOR ucast b) AND 0xFF) = unat (ucast crc XOR b)" for crc :: u32 and b :: byte
proof -
  have "(crc XOR ucast b) AND 0xFF = ucast (ucast crc XOR b)"
    by (rule bit_word_eqI) (auto simp only: bit_simps bit_0xFF, auto dest: bit_imp_le_length)
  moreover have "unat (ucast x :: u32) = unat x" for x :: byte
    using unsigned_less [where w = x and 'a = nat] by (simp add: unsigned_ucast_eq take_bit_nat_eq_self_iff)
  ultimately show ?thesis
    by simp
qed

lemma qdp_calc_crc32_init: "qdp_calc_crc32 qdp_crc32_init = calculateCRC32"
proof -
  have "qdp_crc32_byte qdp_crc32_init = crc_update"
    by (intro ext) (simp only: qdp_crc32_byte_def crc_update_def qdp_crc32_init_table crc_index)
  then show ?thesis
    by (intro ext) (simp only: qdp_calc_crc32_def calculateCRC32_def)
qed

text \<open>Before \<open>qdp_crc32_init\<close> the table is zero and the register loses a byte per step.\<close>

lemma qdp_crc32_byte_zero: "qdp_crc32_byte qdp_crc32_zero crc b = drop_bit 8 crc"
proof -
  have "unat (ucast crc XOR b) < 256"
    using unsigned_less [of "ucast crc XOR b"] by simp
  then show ?thesis
    by (simp add: qdp_crc32_byte_def qdp_crc32_zero_def crc_index)
qed

lemma foldl_crc32_zero: "foldl (qdp_crc32_byte qdp_crc32_zero) crc bs = drop_bit (8 * length bs) crc"
  by (induction bs arbitrary: crc) (simp_all add: qdp_crc32_byte_zero ac_simps)

lemma qdp_calc_crc32_zero:
  assumes "4 \<le> length bs"
  shows "qdp_calc_crc32 qdp_crc32_zero bs = 0xFFFFFFFF"
proof -
  have "drop_bit (8 * length bs) (0xFFFFFFFF :: u32) = 0"
    using assms by (intro bit_word_eqI) (auto simp: bit_simps dest!: bit_imp_le_length)
  then show ?thesis
    by (simp add: qdp_calc_crc32_def foldl_crc32_zero)
qed

section \<open>Writing\<close>

text \<open>The array of a buffer has the capacity the buffer says, and no more is used.\<close>

definition buffer_ok :: "qdp_buffer \<Rightarrow> bool" where
  "buffer_ok buf \<longleftrightarrow> length (buf_data buf) = buf_capacity buf \<and> buf_size buf \<le> buf_capacity buf"

definition message_ok :: "qdp_message \<Rightarrow> bool" where
  "message_ok msg \<longleftrightarrow> length (hdr_topic (msg_header msg)) = QDP_MAX_TOPIC_LENGTH \<and>
     length (pl_data (msg_payload msg)) = QDP_MAX_PAYLOAD_SIZE"

definition contents :: "qdp_buffer \<Rightarrow> byte list" where
  "contents buf = take (buf_size buf) (buf_data buf)"

definition appended :: "qdp_buffer \<Rightarrow> byte list \<Rightarrow> qdp_buffer" where
  "appended buf bs = buf\<lparr>buf_data := take (buf_size buf) (buf_data buf) @ bs @ drop (buf_size buf + length bs) (buf_data buf),
     buf_size := buf_size buf + length bs\<rparr>"

lemma buffer_ok_create [simp]: "length d = cap \<Longrightarrow> buffer_ok (qdp_buffer_create d cap)"
  by (simp add: buffer_ok_def qdp_buffer_create_def)

lemma buffer_ok_reset [simp]: "buffer_ok buf \<Longrightarrow> buffer_ok (qdp_buffer_reset buf)"
  by (simp add: buffer_ok_def qdp_buffer_reset_def)

lemma message_ok_zero [simp]: "message_ok zero_message"
  by (simp add: message_ok_def zero_message_def)

lemma buffer_append_appended:
  "buf_size buf + length bs \<le> length (buf_data buf) \<Longrightarrow> buffer_append buf bs = Some (appended buf bs)"
  by (simp add: buffer_append_def appended_def array_write_ok)

lemma buffer_append_uint32_bytes: "buffer_append_uint32 buf v = buffer_append buf (le_bytes v)"
  by (simp add: buffer_append_uint32_def buffer_append_def write_uint32_le_bytes)

lemma appended_sel [simp]:
  "buf_size (appended buf bs) = buf_size buf + length bs"
  "buf_capacity (appended buf bs) = buf_capacity buf"
  "buf_position (appended buf bs) = buf_position buf"
  by (simp_all add: appended_def)

lemma length_appended [simp]:
  "buf_size buf + length bs \<le> length (buf_data buf) \<Longrightarrow> length (buf_data (appended buf bs)) = length (buf_data buf)"
  by (simp add: appended_def)

lemma appended_appended:
  assumes "buf_size buf + length xs + length ys \<le> length (buf_data buf)"
  shows "appended (appended buf xs) ys = appended buf (xs @ ys)"
  using assms by (simp add: appended_def ac_simps)

lemma contents_appended:
  "buf_size buf + length bs \<le> length (buf_data buf) \<Longrightarrow> contents (appended buf bs) = contents buf @ bs"
  by (simp add: contents_def appended_def)

lemma appended_window:
  "buf_size buf + length bs \<le> length (buf_data buf) \<Longrightarrow>
   array_read (buf_data (appended buf bs)) (buf_size buf) (length bs) = Some bs"
  by (simp add: appended_def array_read_def)

text \<open>The bytes \<open>qdp_message_write\<close> puts before the checksum.\<close>

definition c_body :: "qdp_message \<Rightarrow> byte list" where
  "c_body msg = le_bytes (hdr_topic_len (msg_header msg)) @ le_bytes (pl_size (msg_payload msg)) @
     take (unat (hdr_topic_len (msg_header msg))) (hdr_topic (msg_header msg)) @
     take (unat (pl_size (msg_payload msg))) (pl_data (msg_payload msg))"

lemma qdp_message_write_full:
  assumes "buffer_ok buf" and "\<not> qdp_buffer_can_write buf
     (12 + unat (hdr_topic_len (msg_header msg)) + unat (pl_size (msg_payload msg)))"
  shows "qdp_message_write tab buf msg = Some (False, buf)"
  using assms(2) by (simp add: qdp_message_write_def Let_def qdp_buffer_can_write_def)

lemma qdp_message_write_body:
  assumes "buffer_ok buf" and "qdp_buffer_can_write buf
     (12 + unat (hdr_topic_len (msg_header msg)) + unat (pl_size (msg_payload msg)))"
    and "unat (hdr_topic_len (msg_header msg)) \<le> length (hdr_topic (msg_header msg))"
    and "unat (pl_size (msg_payload msg)) \<le> length (pl_data (msg_payload msg))"
  shows "qdp_message_write tab buf msg =
     Some (True, appended buf (c_body msg @ le_bytes (qdp_calc_crc32 tab (c_body msg))))"
proof -
  have room: "buf_size buf + (12 + unat (hdr_topic_len (msg_header msg)) + unat (pl_size (msg_payload msg)))
      \<le> length (buf_data buf)"
    using assms(1,2) by (simp add: buffer_ok_def qdp_buffer_can_write_def)
  have len: "length (c_body msg) = 8 + unat (hdr_topic_len (msg_header msg)) + unat (pl_size (msg_payload msg))"
    using assms(3,4) by (simp add: c_body_def)
  then have win: "array_read (buf_data (appended buf (c_body msg))) (buf_size buf)
      (8 + unat (hdr_topic_len (msg_header msg)) + unat (pl_size (msg_payload msg))) = Some (c_body msg)"
    using appended_window [of buf "c_body msg"] room by simp
  show ?thesis
    using assms room len win
    by (simp add: qdp_message_write_def Let_def buffer_append_uint32_bytes buffer_append_appended
        array_read_ok appended_appended ac_simps flip: c_body_def)
qed

lemma qdp_message_write_undefined:
  assumes "buffer_ok buf" and "qdp_buffer_can_write buf
     (12 + unat (hdr_topic_len (msg_header msg)) + unat (pl_size (msg_payload msg)))"
    and "length (hdr_topic (msg_header msg)) < unat (hdr_topic_len (msg_header msg))"
  shows "qdp_message_write tab buf msg = None"
proof -
  have "buf_size buf + 8 \<le> length (buf_data buf)"
    using assms(1,2) by (simp add: buffer_ok_def qdp_buffer_can_write_def)
  then show ?thesis
    using assms by (simp add: qdp_message_write_def Let_def buffer_append_uint32_bytes buffer_append_appended
        array_read_out qdp_buffer_can_write_def)
qed

section \<open>Reading\<close>

text \<open>The message that \<open>qdp_message_read\<close> leaves: the fields of the frame, in arrays that keep the rest of
  what they held.\<close>

definition read_header :: "u32 \<Rightarrow> u32 \<Rightarrow> qdp_message \<Rightarrow> qdp_message" where
  "read_header tn pn msg =
     msg\<lparr>msg_header := (msg_header msg)\<lparr>hdr_topic_len := tn, hdr_payload_len := pn\<rparr>\<rparr>"

definition read_fields :: "u32 \<Rightarrow> u32 \<Rightarrow> byte list \<Rightarrow> byte list \<Rightarrow> u32 \<Rightarrow> qdp_message \<Rightarrow> qdp_message" where
  "read_fields tn pn topic payload crc msg =
     \<lparr>msg_header = \<lparr>hdr_topic_len = tn, hdr_payload_len = pn,
        hdr_topic = topic @ 0 # drop (Suc (length topic)) (hdr_topic (msg_header msg))\<rparr>,
      msg_payload = \<lparr>pl_size = pn, pl_data = payload @ drop (length payload) (pl_data (msg_payload msg))\<rparr>,
      msg_checksum = crc\<rparr>"

lemma two_lengths:
  assumes "take 8 (drop p d) = le_bytes tn @ le_bytes pn"
  shows "read_uint32_le d p = Some tn" and "read_uint32_le d (p + 4) = Some pn"
proof -
  have "take 4 (take 8 (drop p d)) = le_bytes tn" "drop 4 (take 8 (drop p d)) = le_bytes pn"
    unfolding assms by simp_all
  then have "take 4 (drop p d) = le_bytes tn" "take 4 (drop (p + 4) d) = le_bytes pn"
    by (simp_all add: drop_take add.commute)
  then show "read_uint32_le d p = Some tn" and "read_uint32_le d (p + 4) = Some pn"
    by (simp_all add: read_uint32_le_bytes)
qed

lemma small_total:
  "unat tn \<le> 256 \<Longrightarrow> unat pn \<le> 512 \<Longrightarrow> unat (8 + tn + pn :: u32) = 8 + unat tn + unat pn"
  by (simp add: unat_word_ariths)

lemma read_short:
  "buf_size buf < buf_position buf + 8 \<Longrightarrow> qdp_message_read tab buf msg = Some (False, buf, msg)"
  by (simp add: qdp_message_read_def qdp_buffer_can_read_def)

lemma read_refused:
  assumes "buf_position buf + 8 \<le> buf_size buf"
    and hdr: "take 8 (drop (buf_position buf) (buf_data buf)) = le_bytes tn @ le_bytes pn"
    and "256 < unat tn \<or> 512 < unat pn \<or> buf_size buf < 12 + unat tn + unat pn"
  shows "qdp_message_read tab buf msg =
     Some (False, buf\<lparr>buf_position := buf_position buf + 8\<rparr>, read_header tn pn msg)"
proof (cases "256 < unat tn \<or> 512 < unat pn")
  case True
  then show ?thesis
    using assms by (simp add: qdp_message_read_def qdp_buffer_can_read_def two_lengths [OF hdr] read_header_def
        add.assoc)
next
  case False
  then show ?thesis
    using assms small_total [of tn pn]
    by (simp add: qdp_message_read_def qdp_buffer_can_read_def two_lengths [OF hdr] read_header_def add.assoc)
qed

lemma read_after_header:
  assumes "buf_position buf + 8 \<le> buf_size buf"
    and hdr: "take 8 (drop (buf_position buf) (buf_data buf)) = le_bytes tn @ le_bytes pn"
    and "unat tn \<le> 256" "unat pn \<le> 512" "12 + unat tn + unat pn \<le> buf_size buf"
  shows "qdp_message_read tab buf msg = do {
     topic \<leftarrow> memcpy (hdr_topic (msg_header msg)) 0 (buf_data buf) (buf_position buf + 8) (unat tn);
     topic \<leftarrow> array_write topic (unat tn) [0];
     payload \<leftarrow> memcpy (pl_data (msg_payload msg)) 0 (buf_data buf) (buf_position buf + 8 + unat tn) (unat pn);
     checksum \<leftarrow> read_uint32_le (buf_data buf) (buf_position buf + 8 + unat tn + unat pn);
     covered \<leftarrow> array_read (buf_data buf) (buf_position buf) (8 + unat tn + unat pn);
     Some (checksum = qdp_calc_crc32 tab covered,
       buf\<lparr>buf_position := buf_position buf + 12 + unat tn + unat pn\<rparr>,
       \<lparr>msg_header = \<lparr>hdr_topic_len = tn, hdr_payload_len = pn, hdr_topic = topic\<rparr>,
        msg_payload = \<lparr>pl_size = pn, pl_data = payload\<rparr>, msg_checksum = checksum\<rparr>)
   }"
proof -
  obtain a b t pl c where msg: "msg = \<lparr>msg_header = \<lparr>hdr_topic_len = a, hdr_payload_len = b, hdr_topic = t\<rparr>,
      msg_payload = pl, msg_checksum = c\<rparr>"
    by (metis qdp_message.cases qdp_header.cases)
  show ?thesis
    using assms small_total [of tn pn]
    by (simp add: qdp_message_read_def qdp_buffer_can_read_def two_lengths [OF hdr] add.assoc msg Let_def)
qed

lemma read_undefined:
  assumes "buf_position buf + 8 \<le> buf_size buf" and "message_ok msg"
    and hdr: "take 8 (drop (buf_position buf) (buf_data buf)) = le_bytes tn @ le_bytes pn"
    and "unat tn \<le> 256" "unat pn \<le> 512" "12 + unat tn + unat pn \<le> buf_size buf"
    and "unat tn = 256 \<or> length (buf_data buf) < buf_position buf + 12 + unat tn + unat pn"
  shows "qdp_message_read tab buf msg = None"
  using assms(2,7) unfolding read_after_header [OF assms(1) hdr assms(4-6)]
  by (auto simp: bind_eq_None_conv message_ok_def memcpy_def array_read_def array_write_def read_uint32_le_def)

lemma read_returns:
  assumes "buf_position buf + 8 \<le> buf_size buf" and "message_ok msg"
    and hdr: "take 8 (drop (buf_position buf) (buf_data buf)) = le_bytes tn @ le_bytes pn"
    and "unat tn < 256" "unat pn \<le> 512" "12 + unat tn + unat pn \<le> buf_size buf"
    and "buf_position buf + 12 + unat tn + unat pn \<le> length (buf_data buf)"
    and crc: "take 4 (drop (buf_position buf + 8 + unat tn + unat pn) (buf_data buf)) = le_bytes crc"
  shows "qdp_message_read tab buf msg =
     Some (crc = qdp_calc_crc32 tab (take (8 + unat tn + unat pn) (drop (buf_position buf) (buf_data buf))),
       buf\<lparr>buf_position := buf_position buf + 12 + unat tn + unat pn\<rparr>,
       read_fields tn pn (take (unat tn) (drop (buf_position buf + 8) (buf_data buf)))
         (take (unat pn) (drop (buf_position buf + 8 + unat tn) (buf_data buf))) crc msg)"
proof -
  have tn: "unat tn \<le> 256"
    using assms(4) by simp
  have pn: "Suc (unat tn) \<le> length (hdr_topic (msg_header msg))"
    using assms(2,4) by (simp add: message_ok_def)
  show ?thesis
    using assms(2,4-7) pn unfolding read_after_header [OF assms(1) hdr tn assms(5,6)]
    by (simp add: c_simps read_uint32_le_bytes [OF crc] message_ok_def read_fields_def)
qed

section \<open>Frames\<close>

text \<open>What the arrays of a \<open>qdp_message_t\<close> can hold, with the terminating zero of the topic.\<close>

definition c_limits :: "message \<Rightarrow> bool" where
  "c_limits m \<longleftrightarrow> length (Topic m) < QDP_MAX_TOPIC_LENGTH \<and> length (Payload m) \<le> QDP_MAX_PAYLOAD_SIZE"

definition c_message :: "message \<Rightarrow> qdp_message \<Rightarrow> qdp_message" where
  "c_message m = read_fields (word_of_nat (length (Topic m))) (word_of_nat (length (Payload m)))
     (string_bytes (Topic m)) (Payload m) (calculateCRC32 (wire_body m))"

text \<open>What a callback sees through \<open>qdp_get_topic\<close> and \<open>qdp_get_bytes\<close>.\<close>

definition message_view :: "qdp_message \<Rightarrow> message" where
  "message_view msg = \<lparr>Topic = bytes_string (cstr (qdp_get_topic msg)),
     Payload = (case qdp_get_bytes msg of (n, bs) \<Rightarrow> take n bs)\<rparr>"

lemma c_limits_fits: "c_limits m \<Longrightarrow> wire_fits m"
  by (simp add: c_limits_def wire_fits_def)

lemma c_limits_unat:
  assumes "c_limits m"
  shows "unat (word_of_nat (length (Topic m)) :: u32) = length (Topic m)"
    and "unat (word_of_nat (length (Payload m)) :: u32) = length (Payload m)"
  using assms by (simp_all add: c_limits_def)

lemma message_ok_c_message: "c_limits m \<Longrightarrow> message_ok msg \<Longrightarrow> message_ok (c_message m msg)"
  by (simp add: message_ok_def c_message_def read_fields_def c_limits_def)

lemma message_view_c_message:
  assumes "c_limits m" and "CHR 0x00 \<notin> set (Topic m)"
  shows "message_view (c_message m msg) = m"
proof -
  have "cstr (string_bytes (Topic m) @ 0 # r) = string_bytes (Topic m)" for r
    using assms(2) by (simp add: cstr_append_zero zero_in_string_bytes)
  then show ?thesis
    using c_limits_unat [OF assms(1)]
    by (simp add: message_view_def qdp_get_topic_def qdp_get_bytes_def c_message_def read_fields_def)
qed

lemma wire_parts:
  assumes "drop p d = wire m @ rest"
  shows "take 8 (drop p d) = le_bytes (word_of_nat (length (Topic m))) @ le_bytes (word_of_nat (length (Payload m)))"
    and "take (length (Topic m)) (drop (p + 8) d) = string_bytes (Topic m)"
    and "take (length (Payload m)) (drop (p + 8 + length (Topic m)) d) = Payload m"
    and "take 4 (drop (p + 8 + length (Topic m) + length (Payload m)) d) = le_bytes (calculateCRC32 (wire_body m))"
    and "take (8 + length (Topic m) + length (Payload m)) (drop p d) = wire_body m"
proof -
  have d: "drop (p + k) d = drop k (wire m @ rest)" for k
    by (simp add: assms [symmetric] add.commute)
  show "take 8 (drop p d) = le_bytes (word_of_nat (length (Topic m))) @ le_bytes (word_of_nat (length (Payload m)))"
    by (simp add: assms wire_def wire_body_def)
  show "take (length (Topic m)) (drop (p + 8) d) = string_bytes (Topic m)"
    unfolding d by (simp add: wire_def wire_body_def)
  show "take (length (Payload m)) (drop (p + 8 + length (Topic m)) d) = Payload m"
    unfolding d add.assoc [of p] by (simp add: wire_def wire_body_def)
  show "take 4 (drop (p + 8 + length (Topic m) + length (Payload m)) d) = le_bytes (calculateCRC32 (wire_body m))"
    unfolding d add.assoc [of p] add.assoc [of p "8 + length (Topic m)"] by (simp add: wire_def)
  show "take (8 + length (Topic m) + length (Payload m)) (drop p d) = wire_body m"
    by (simp add: assms wire_def)
qed

lemma read_frame:
  assumes "message_ok msg" and "c_limits m" and d: "drop (buf_position buf) (buf_data buf) = wire m @ rest"
    and "buf_position buf + 8 \<le> buf_size buf" and "length (wire m) \<le> buf_size buf"
  shows "qdp_message_read qdp_crc32_init buf msg =
     Some (True, buf\<lparr>buf_position := buf_position buf + length (wire m)\<rparr>, c_message m msg)"
proof -
  note u = c_limits_unat [OF assms(2)] and w = wire_parts [OF d]
  have len: "buf_position buf + 12 + length (Topic m) + length (Payload m) \<le> length (buf_data buf)"
    using arg_cong [OF d, of length] by simp
  have "length (Topic m) < 256" "length (Payload m) \<le> 512"
    using assms(2) by (simp_all add: c_limits_def)
  then show ?thesis
    using read_returns [OF assms(4,1) w(1), of "calculateCRC32 (wire_body m)" qdp_crc32_init, unfolded u, OF _ _ _ len w(4)]
      assms(5) unfolding w qdp_calc_crc32_init
    by (simp add: c_message_def add.assoc)
qed

lemma frame_of_parts:
  assumes hdr: "take 8 (drop p d) = le_bytes tn @ le_bytes pn" and "p + 12 + unat tn + unat pn \<le> length d"
    and "take 4 (drop (p + 8 + unat tn + unat pn) d) =
       le_bytes (calculateCRC32 (take (8 + unat tn + unat pn) (drop p d)))"
  shows "\<exists>m. length (Topic m) = unat tn \<and> length (Payload m) = unat pn \<and>
     take (length (wire m)) (drop p d) = wire m"
proof -
  let ?m = "\<lparr>Topic = bytes_string (take (unat tn) (drop (p + 8) d)), Payload = take (unat pn) (drop (p + 8 + unat tn) d)\<rparr>"
  let ?n = "8 + unat tn + unat pn"
  have len: "length (Topic ?m) = unat tn" "length (Payload ?m) = unat pn"
    using assms(2) by simp_all
  have "take ?n (drop p d) = take 8 (drop p d) @ take (unat tn) (drop (p + 8) d) @ take (unat pn) (drop (p + 8 + unat tn) d)"
    by (simp only: take_add drop_drop append_assoc) (simp only: ac_simps)
  then have body: "wire_body ?m = take ?n (drop p d)"
    using hdr assms(2) by (simp add: wire_body_def)
  have "take (?n + 4) (drop p d) = take ?n (drop p d) @ take 4 (drop (p + ?n) d)"
    using take_add [of ?n 4 "drop p d"] by (simp only: drop_drop add.commute [of p])
  then have "take (?n + 4) (drop p d) = wire ?m"
    using assms(3) body by (simp add: wire_def add.assoc)
  then show ?thesis
    using len by (intro exI [of _ ?m]) (simp add: ac_simps)
qed

text \<open>The four ways \<open>qdp_message_read\<close> can end.\<close>

lemma read_cases:
  assumes "buffer_ok buf" and "message_ok msg"
  obtains
    (short) "buf_size buf < buf_position buf + 8" "qdp_message_read tab buf msg = Some (False, buf, msg)"
  | (refused) tn pn where "take 8 (drop (buf_position buf) (buf_data buf)) = le_bytes tn @ le_bytes pn"
      "buf_position buf + 8 \<le> buf_size buf" "256 < unat tn \<or> 512 < unat pn \<or> buf_size buf < 12 + unat tn + unat pn"
      "qdp_message_read tab buf msg = Some (False, buf\<lparr>buf_position := buf_position buf + 8\<rparr>, read_header tn pn msg)"
  | (undef) tn pn where "take 8 (drop (buf_position buf) (buf_data buf)) = le_bytes tn @ le_bytes pn"
      "buf_position buf + 8 \<le> buf_size buf" "unat tn \<le> 256" "unat pn \<le> 512" "12 + unat tn + unat pn \<le> buf_size buf"
      "unat tn = 256 \<or> length (buf_data buf) < buf_position buf + 12 + unat tn + unat pn"
      "qdp_message_read tab buf msg = None"
  | (returned) tn pn crc where "take 8 (drop (buf_position buf) (buf_data buf)) = le_bytes tn @ le_bytes pn"
      "buf_position buf + 8 \<le> buf_size buf" "unat tn < 256" "unat pn \<le> 512" "12 + unat tn + unat pn \<le> buf_size buf"
      "buf_position buf + 12 + unat tn + unat pn \<le> length (buf_data buf)"
      "take 4 (drop (buf_position buf + 8 + unat tn + unat pn) (buf_data buf)) = le_bytes crc"
      "qdp_message_read tab buf msg =
         Some (crc = qdp_calc_crc32 tab (take (8 + unat tn + unat pn) (drop (buf_position buf) (buf_data buf))),
           buf\<lparr>buf_position := buf_position buf + 12 + unat tn + unat pn\<rparr>,
           read_fields tn pn (take (unat tn) (drop (buf_position buf + 8) (buf_data buf)))
             (take (unat pn) (drop (buf_position buf + 8 + unat tn) (buf_data buf))) crc msg)"
proof (cases "buf_size buf < buf_position buf + 8")
  case True
  then show ?thesis
    using read_short short by blast
next
  case False
  let ?d = "drop (buf_position buf) (buf_data buf)"
  have "buf_position buf + 8 \<le> length (buf_data buf)"
    using False assms(1) by (simp add: buffer_ok_def)
  then have "4 \<le> length ?d" "4 \<le> length (drop 4 ?d)"
    by simp_all
  then obtain tn pn where "take 4 ?d = le_bytes tn" "take 4 (drop 4 ?d) = le_bytes pn"
    using Uint32_take by metis
  then have hdr: "take 8 ?d = le_bytes tn @ le_bytes pn"
    using take_add [of 4 4 ?d] by simp
  have p: "buf_position buf + 8 \<le> buf_size buf"
    using False by simp
  consider "256 < unat tn \<or> 512 < unat pn \<or> buf_size buf < 12 + unat tn + unat pn"
    | "unat tn \<le> 256" "unat pn \<le> 512" "12 + unat tn + unat pn \<le> buf_size buf"
      "unat tn = 256 \<or> length (buf_data buf) < buf_position buf + 12 + unat tn + unat pn"
    | "unat tn < 256" "unat pn \<le> 512" "12 + unat tn + unat pn \<le> buf_size buf"
      "buf_position buf + 12 + unat tn + unat pn \<le> length (buf_data buf)"
    by linarith
  then show ?thesis
  proof cases
    case 1
    show ?thesis
      using refused [OF hdr p 1 read_refused [OF p hdr 1]] .
  next
    case 2
    show ?thesis
      using undef [OF hdr p 2 read_undefined [OF p assms(2) hdr 2]] .
  next
    case 3
    let ?t = "drop (buf_position buf + 8 + unat tn + unat pn) (buf_data buf)"
    have "4 \<le> length ?t"
      using 3(4) by simp
    then obtain crc where crc: "take 4 ?t = le_bytes crc"
      using Uint32_take by metis
    show ?thesis
      using returned [OF hdr p 3 crc read_returns [OF p assms(2) hdr 3 crc]] .
  qed
qed

lemma read_accepts_frame:
  assumes "buffer_ok buf" and "message_ok msg"
    and "qdp_message_read qdp_crc32_init buf msg = Some (True, buf', msg')"
  shows "\<exists>m rest. c_limits m \<and> drop (buf_position buf) (buf_data buf) = wire m @ rest \<and>
     buf_position buf + 8 \<le> buf_size buf \<and> length (wire m) \<le> buf_size buf"
  using assms(1,2)
proof (cases rule: read_cases [where tab = qdp_crc32_init])
  case (returned tn pn crc)
  let ?d = "drop (buf_position buf) (buf_data buf)"
  have "crc = calculateCRC32 (take (8 + unat tn + unat pn) ?d)"
    using returned(8) assms(3) by (simp add: qdp_calc_crc32_init)
  then obtain m where m: "length (Topic m) = unat tn" "length (Payload m) = unat pn" "take (length (wire m)) ?d = wire m"
    using frame_of_parts [OF returned(1,6)] returned(7) by auto
  then have "?d = wire m @ drop (length (wire m)) ?d"
    by (metis append_take_drop_id)
  then show ?thesis
    using m(1,2) returned(2-5) by (intro exI [of _ m]) (auto simp: c_limits_def)
qed (use assms(3) in simp_all)

text \<open>An unfinished read moves the position and never beyond the array.\<close>

lemma read_position:
  assumes "buffer_ok buf" and "message_ok msg" and "qdp_message_read tab buf msg = Some (ok, buf', msg')"
  shows "buf' = buf\<lparr>buf_position := buf_position buf'\<rparr>" and "message_ok msg'"
    and "ok \<Longrightarrow> buf_position buf < buf_size buf \<and> buf_position buf < buf_position buf'"
  using assms(1,2)
  by (cases rule: read_cases [where tab = tab];
      use assms(2,3) in \<open>auto simp: read_fields_def read_header_def message_ok_def\<close>)+

text \<open>A message built by the publishing functions is written as its frame.\<close>

lemma write_frame_c:
  assumes "buffer_ok buf" and "qdp_buffer_can_write buf (length (wire m))" and "wire_fits m"
    and "hdr_topic_len (msg_header msg) = word_of_nat (length (Topic m))"
    and "pl_size (msg_payload msg) = word_of_nat (length (Payload m))"
    and "hdr_topic (msg_header msg) = string_bytes (Topic m) @ rt"
    and "pl_data (msg_payload msg) = Payload m @ rp"
  shows "qdp_message_write qdp_crc32_init buf msg = Some (True, appended buf (wire m))"
proof -
  have u: "unat (word_of_nat (length (Topic m)) :: u32) = length (Topic m)"
    "unat (word_of_nat (length (Payload m)) :: u32) = length (Payload m)"
    using assms(3) by (simp_all add: wire_fits_def)
  then have "c_body msg = wire_body m"
    using assms(4-7) by (simp add: c_body_def wire_body_def)
  then show ?thesis
    using qdp_message_write_body [OF assms(1), of msg qdp_crc32_init] assms(2,4-7) u
    by (simp add: wire_def qdp_calc_crc32_init add.assoc)
qed

section \<open>Properties\<close>

text \<open>C10. What the C reader accepts: it delivers a message exactly when the bytes from the position on
  begin with the frame of a message that fits the arrays, the eight header bytes lie within the
  received bytes, and the frame is not longer than all received bytes together. The message then
  holds the fields of the frame and the position moves behind it. (The frame itself need not lie within the
  received bytes.)\<close>

theorem qdp_message_read_accepts_iff:
  assumes "buffer_ok buf" and "message_ok msg"
  shows "qdp_message_read qdp_crc32_init buf msg = Some (True, buf', msg') \<longleftrightarrow>
     (\<exists>m rest. c_limits m \<and> drop (buf_position buf) (buf_data buf) = wire m @ rest \<and>
        buf_position buf + 8 \<le> buf_size buf \<and> length (wire m) \<le> buf_size buf \<and>
        buf' = buf\<lparr>buf_position := buf_position buf + length (wire m)\<rparr> \<and> msg' = c_message m msg)"
proof
  assume r: "qdp_message_read qdp_crc32_init buf msg = Some (True, buf', msg')"
  then obtain m rest where m: "c_limits m" "drop (buf_position buf) (buf_data buf) = wire m @ rest"
      "buf_position buf + 8 \<le> buf_size buf" "length (wire m) \<le> buf_size buf"
    using read_accepts_frame [OF assms] by blast
  then show "\<exists>m rest. c_limits m \<and> drop (buf_position buf) (buf_data buf) = wire m @ rest \<and>
        buf_position buf + 8 \<le> buf_size buf \<and> length (wire m) \<le> buf_size buf \<and>
        buf' = buf\<lparr>buf_position := buf_position buf + length (wire m)\<rparr> \<and> msg' = c_message m msg"
    using r read_frame [OF assms(2) m] by auto
qed (use read_frame [OF assms(2)] in blast)

definition sample_frame :: message where
  "sample_frame = \<lparr>Topic = ''t'', Payload = [7]\<rparr>"

definition sample_buffer :: qdp_buffer where
  "sample_buffer = \<lparr>buf_data = wire sample_frame @ replicate 10 0, buf_size = 14, buf_capacity = 24, buf_position = 0\<rparr>"

lemma sample_buffer_ok: "buffer_ok sample_buffer" "c_limits sample_frame" "length (wire sample_frame) = 14"
  by (simp_all add: sample_buffer_def sample_frame_def buffer_ok_def c_limits_def)

theorem qdp_message_read_accepts_iff_witness:
  "qdp_message_read qdp_crc32_init sample_buffer zero_message =
     Some (True, sample_buffer\<lparr>buf_position := 14\<rparr>, c_message sample_frame zero_message)"
  unfolding qdp_message_read_accepts_iff [OF sample_buffer_ok(1) message_ok_zero]
  by (rule exI [of _ sample_frame], rule exI [of _ "replicate 10 0"])
    (use sample_buffer_ok in \<open>simp add: sample_buffer_def\<close>)

text \<open>C40. Memory safety of the C reader: it touches memory outside the arrays exactly when a header within
  the limits announces a topic of 256 bytes (whose terminating zero is then stored behind the array), or a
  frame that passes the check against the received size and, counted from the position, ends behind
  the buffer. Everything else is rejected or read within bounds.\<close>

theorem qdp_message_read_undefined_iff:
  assumes "buffer_ok buf" and "message_ok msg"
  shows "qdp_message_read tab buf msg = None \<longleftrightarrow>
     (\<exists>tn pn. take 8 (drop (buf_position buf) (buf_data buf)) = le_bytes tn @ le_bytes pn \<and>
        buf_position buf + 8 \<le> buf_size buf \<and> unat tn \<le> 256 \<and> unat pn \<le> 512 \<and>
        12 + unat tn + unat pn \<le> buf_size buf \<and>
        (unat tn = 256 \<or> buf_capacity buf < buf_position buf + 12 + unat tn + unat pn))"
proof -
  have cap: "length (buf_data buf) = buf_capacity buf"
    using assms(1) by (simp add: buffer_ok_def)
  show ?thesis
    using assms
  proof (cases rule: read_cases [where tab = tab])
    case (undef tn pn)
    then show ?thesis
      unfolding cap by blast
  qed (auto simp: cap)
qed

definition full_topic_buffer :: qdp_buffer where
  "full_topic_buffer = \<lparr>buf_data = le_bytes 256 @ le_bytes 0 @ replicate 260 0, buf_size = 268,
     buf_capacity = 268, buf_position = 0\<rparr>"

theorem qdp_message_read_undefined_iff_witness:
  "qdp_message_read qdp_crc32_init full_topic_buffer zero_message = None"
proof -
  have ok: "buffer_ok full_topic_buffer"
    by (simp add: full_topic_buffer_def buffer_ok_def)
  show ?thesis
    unfolding qdp_message_read_undefined_iff [OF ok message_ok_zero]
    by (intro exI [of _ 256] exI [of _ 0]) (simp add: full_topic_buffer_def)
qed

text \<open>Without \<open>qdp_new\<close> the table is zero, and a frame passes the check exactly when it ends in four
  bytes \<open>FF\<close>, whatever it contains.\<close>

lemma qdp_message_read_zero_table:
  assumes "buf_position buf + 8 \<le> buf_size buf" and "message_ok msg"
    and "take 8 (drop (buf_position buf) (buf_data buf)) = le_bytes tn @ le_bytes pn"
    and "unat tn < 256" "unat pn \<le> 512" "12 + unat tn + unat pn \<le> buf_size buf"
    and "buf_position buf + 12 + unat tn + unat pn \<le> length (buf_data buf)"
    and "take 4 (drop (buf_position buf + 8 + unat tn + unat pn) (buf_data buf)) = le_bytes crc"
  shows "(\<exists>buf' msg'. qdp_message_read qdp_crc32_zero buf msg = Some (True, buf', msg')) \<longleftrightarrow> crc = 0xFFFFFFFF"
  using read_returns [OF assms, of qdp_crc32_zero] assms(7) by (simp add: qdp_calc_crc32_zero)

end
