(* ===== verification/Qdp_C_Topic.thy ===== *)
theory Qdp_C_Topic
  imports Qdp_C_Memory Qdp_Topic
begin

text \<open>
  Topic matching of the C library (\<open>lib/c/qdp.c\<close>, \<open>qdp_topic_matches\<close>), which walks over pattern and topic
  character by character, where the Go library compares lists of levels. The lemmas show that the walk stays
  within terminated strings and ends, what it computes, and on which patterns and topics the two libraries
  agree.
\<close>

section \<open>Definitions\<close>

definition QDP_MULTI_LEVEL_WILDCARD :: byte where
  "QDP_MULTI_LEVEL_WILDCARD = byte_of_char (CHR ''#'')"

definition QDP_SINGLE_LEVEL_WILDCARD :: byte where
  "QDP_SINGLE_LEVEL_WILDCARD = byte_of_char (CHR ''+'')"

definition QDP_TOPIC_LEVEL_SEPARATOR :: byte where
  "QDP_TOPIC_LEVEL_SEPARATOR = byte_of_char (CHR ''/'')"

lemmas wildcards = QDP_MULTI_LEVEL_WILDCARD_def QDP_SINGLE_LEVEL_WILDCARD_def QDP_TOPIC_LEVEL_SEPARATOR_def

definition deref :: "byte list \<Rightarrow> byte option" where
  "deref p = (case p of [] \<Rightarrow> None | c # _ \<Rightarrow> Some c)"

text \<open>The test after the loop.\<close>

definition matches_at_end :: "byte list \<Rightarrow> byte list \<Rightarrow> bool option" where
  "matches_at_end p t = do {
     pc \<leftarrow> deref p;
     if pc = 0 then do { tc \<leftarrow> deref t; Some (tc = 0) }
     else if pc = QDP_MULTI_LEVEL_WILDCARD then do { c \<leftarrow> deref (tl p); Some (c = 0) }
     else Some False
   }"

lemma strchr_shorter: "strchr a c = Some (Some r) \<Longrightarrow> r \<noteq> [] \<and> length r \<le> length a"
  by (induction a) (auto split: if_splits)

function qdp_topic_matches :: "byte list \<Rightarrow> byte list \<Rightarrow> bool option" where
  "qdp_topic_matches p t =
     (case p of [] \<Rightarrow> None
      | pc # p' \<Rightarrow>
        if pc = 0 then matches_at_end p t
        else
          (case t of [] \<Rightarrow> None
           | tc # t' \<Rightarrow>
             if tc = 0 then matches_at_end p t
             else if pc = QDP_MULTI_LEVEL_WILDCARD then do { c \<leftarrow> deref p'; Some (c = 0) }
             else if pc = QDP_SINGLE_LEVEL_WILDCARD then
               (case strchr t QDP_TOPIC_LEVEL_SEPARATOR of
                  None \<Rightarrow> None
                | Some None \<Rightarrow> do { c \<leftarrow> deref p'; Some (c = 0) }
                | Some (Some next_sep) \<Rightarrow>
                    (case p' of [] \<Rightarrow> None
                     | c # p'' \<Rightarrow> qdp_topic_matches (if c = QDP_TOPIC_LEVEL_SEPARATOR then p'' else p') (tl next_sep)))
             else if pc = QDP_TOPIC_LEVEL_SEPARATOR then
               (if tc \<noteq> QDP_TOPIC_LEVEL_SEPARATOR then Some False else qdp_topic_matches p' t')
             else if pc \<noteq> tc then Some False
             else qdp_topic_matches p' t'))"
  by pat_completeness auto
termination
proof (relation "measure (\<lambda>(p, t). length t)")
  fix t :: "byte list" and tc t' next_sep' next_sep and p p'' :: "byte list" and c
  assume "t = tc # t'" and "strchr t QDP_TOPIC_LEVEL_SEPARATOR = Some next_sep'" and "next_sep' = Some next_sep"
  then have "length (tl next_sep) < length t"
    using strchr_shorter by fastforce
  then show "((if c = QDP_TOPIC_LEVEL_SEPARATOR then p'' else p, tl next_sep), q, t) \<in> measure (\<lambda>(p, t). length t)" for q
    by simp
qed auto

declare qdp_topic_matches.simps [simp del]

section \<open>What the walk computes\<close>

text \<open>The same walk over the contents of the two strings.\<close>

function c_match :: "string \<Rightarrow> string \<Rightarrow> bool" where
  "c_match [] t = (t = [])"
| "c_match (a # p) [] = (a = CHR ''#'' \<and> p = [])"
| "c_match (a # p) (b # t) =
     (if a = CHR ''#'' then p = []
      else if a = CHR ''+'' then
        (if CHR ''/'' \<in> set (b # t)
         then c_match (case p of c # q \<Rightarrow> if c = CHR ''/'' then q else p | [] \<Rightarrow> [])
                (tl (dropWhile (\<lambda>x. x \<noteq> CHR ''/'') (b # t)))
         else p = [])
      else a = b \<and> c_match p t)"
  by pat_completeness auto
termination
proof (relation "measure (\<lambda>(p, t). length t)")
  fix a b :: char and p t :: string
  have "length (tl (dropWhile (\<lambda>x. x \<noteq> CHR ''/'') (b # t))) < length (b # t)"
    using length_dropWhile_le [of "\<lambda>x. x \<noteq> CHR ''/''" t] by (auto simp: less_Suc_eq_le)
  then show "((case p of [] \<Rightarrow> [] | c # q \<Rightarrow> if c = CHR ''/'' then q else p,
      tl (dropWhile (\<lambda>x. x \<noteq> CHR ''/'') (b # t))), a # p, b # t) \<in> measure (\<lambda>(p, t). length t)"
    by simp
qed auto

definition c_string :: "byte list \<Rightarrow> string" where
  "c_string a = bytes_string (cstr a)"

lemma c_string_simps [simp]:
  "c_string [] = []" "c_string (0 # a) = []" "b \<noteq> 0 \<Longrightarrow> c_string (b # a) = char_of_byte b # c_string a"
  by (simp_all add: c_string_def bytes_string_def)

lemma c_string_eq_Nil: "terminated a \<Longrightarrow> c_string a = [] \<longleftrightarrow> deref a = Some 0"
  by (cases a) (auto simp: c_string_def bytes_string_def deref_def)

lemma deref_terminated: "terminated a \<Longrightarrow> deref a = Some (hd a)"
  by (cases a) (auto simp: deref_def)

lemma deref_Cons [simp]: "deref (c # a) = Some c"
  by (simp add: deref_def)

lemma deref_zero: "terminated a \<Longrightarrow> (do { c \<leftarrow> deref a; Some (c = 0) }) = Some (c_string a = [])"
  by (cases a) (auto simp: c_string_def bytes_string_def)

lemma wildcards_nonzero:
  "QDP_MULTI_LEVEL_WILDCARD \<noteq> 0" "QDP_SINGLE_LEVEL_WILDCARD \<noteq> 0" "QDP_TOPIC_LEVEL_SEPARATOR \<noteq> 0"
  "QDP_MULTI_LEVEL_WILDCARD \<noteq> QDP_SINGLE_LEVEL_WILDCARD"
  "QDP_SINGLE_LEVEL_WILDCARD \<noteq> QDP_TOPIC_LEVEL_SEPARATOR"
  "QDP_MULTI_LEVEL_WILDCARD \<noteq> QDP_TOPIC_LEVEL_SEPARATOR"
  by (simp_all add: wildcards byte_of_char_def)

lemma matches_at_end_pattern:
  assumes "terminated p" and "terminated t" and "c_string p = [] \<or> c_string t = []"
  shows "matches_at_end p t = Some (c_match (c_string p) (c_string t))"
proof (cases p)
  case (Cons pc p')
  show ?thesis
  proof (cases "pc = 0")
    case True
    then show ?thesis
      using Cons assms(2) deref_zero [OF assms(2)] by (simp add: matches_at_end_def)
  next
    case False
    then have "terminated p'" "c_string t = []" "c_string p = char_of_byte pc # c_string p'"
      using assms(1,3) Cons by auto
    then show ?thesis
      using Cons False deref_zero [of p'] by (simp add: matches_at_end_def char_of_byte_eq_iff wildcards)
  qed
qed (use assms in simp)

text \<open>The separator in the topic, and what follows it.\<close>

lemma c_string_separator:
  assumes "terminated t"
  shows "CHR ''/'' \<in> set (c_string t) \<longleftrightarrow> QDP_TOPIC_LEVEL_SEPARATOR \<in> set (cstr t)"
  by (force simp: c_string_def bytes_string_def char_of_byte_eq_iff wildcards image_iff)

lemma after_separator:
  assumes "terminated t" and "CHR ''/'' \<in> set (c_string t)"
  shows "terminated (tl (dropWhile (\<lambda>b. b \<noteq> QDP_TOPIC_LEVEL_SEPARATOR) t)) \<and>
     c_string (tl (dropWhile (\<lambda>b. b \<noteq> QDP_TOPIC_LEVEL_SEPARATOR) t)) =
     tl (dropWhile (\<lambda>x. x \<noteq> CHR ''/'') (c_string t))"
  using assms
proof (induction t)
  case (Cons b t)
  then show ?case
    by (cases "b = 0") (auto simp: char_of_byte_eq_iff wildcards byte_of_char_zero)
qed simp

text \<open>One turn of the loop, by the character the pattern has.\<close>

lemma walk_end: "pc = 0 \<or> tc = 0 \<Longrightarrow> qdp_topic_matches (pc # p) (tc # t) = matches_at_end (pc # p) (tc # t)"
  by (subst qdp_topic_matches.simps) auto

lemma walk_hash:
  "pc = QDP_MULTI_LEVEL_WILDCARD \<Longrightarrow> tc \<noteq> 0 \<Longrightarrow>
   qdp_topic_matches (pc # p) (tc # t) = do { c \<leftarrow> deref p; Some (c = 0) }"
  using wildcards_nonzero by (subst qdp_topic_matches.simps) simp

lemma walk_plus:
  "pc = QDP_SINGLE_LEVEL_WILDCARD \<Longrightarrow> tc \<noteq> 0 \<Longrightarrow>
   qdp_topic_matches (pc # p) (tc # t) = (case strchr (tc # t) QDP_TOPIC_LEVEL_SEPARATOR of
        None \<Rightarrow> None
      | Some None \<Rightarrow> do { c \<leftarrow> deref p; Some (c = 0) }
      | Some (Some r) \<Rightarrow> (case p of [] \<Rightarrow> None
          | c # q \<Rightarrow> qdp_topic_matches (if c = QDP_TOPIC_LEVEL_SEPARATOR then q else p) (tl r)))"
  using wildcards_nonzero by (subst qdp_topic_matches.simps) simp

lemma walk_other:
  "pc \<noteq> 0 \<Longrightarrow> tc \<noteq> 0 \<Longrightarrow> pc \<noteq> QDP_MULTI_LEVEL_WILDCARD \<Longrightarrow> pc \<noteq> QDP_SINGLE_LEVEL_WILDCARD \<Longrightarrow>
   qdp_topic_matches (pc # p) (tc # t) = (if pc = tc then qdp_topic_matches p t else Some False)"
  by (subst qdp_topic_matches.simps) auto

lemma walk_plus_level:
  assumes "terminated p" and "terminated t" and "tc \<noteq> 0"
    and IH: "\<And>p' t'. length t' < length (tc # t) \<Longrightarrow> terminated p' \<Longrightarrow> terminated t' \<Longrightarrow>
       qdp_topic_matches p' t' = Some (c_match (c_string p') (c_string t'))"
  shows "qdp_topic_matches (QDP_SINGLE_LEVEL_WILDCARD # p) (tc # t) =
     Some (c_match (CHR ''+'' # c_string p) (c_string (tc # t)))"
proof -
  have t: "terminated (tc # t)"
    using assms(2) by simp
  note q = walk_plus [OF refl assms(3), of p t]
    and found = strchr_cases [OF t wildcards_nonzero(3), folded c_string_separator [OF t]]
  have s: "c_string (tc # t) = char_of_byte tc # c_string t"
    using assms(3) by simp
  show ?thesis
  proof (cases "CHR ''/'' \<in> set (c_string (tc # t))")
    case True
    let ?r = "dropWhile (\<lambda>b. b \<noteq> QDP_TOPIC_LEVEL_SEPARATOR) (tc # t)"
    note sep = after_separator [OF t True]
    obtain c p' where p: "p = c # p'"
      using assms(1) by (cases p) auto
    let ?p = "if c = QDP_TOPIC_LEVEL_SEPARATOR then p' else p"
    have "length (tl ?r) < length (tc # t)"
      using length_dropWhile_le [of "\<lambda>b. b \<noteq> QDP_TOPIC_LEVEL_SEPARATOR" t] by (auto simp: less_Suc_eq_le)
    moreover have "terminated ?p"
      using assms(1) p wildcards_nonzero(3) by auto
    ultimately have "qdp_topic_matches ?p (tl ?r) = Some (c_match (c_string ?p) (c_string (tl ?r)))"
      using IH sep by blast
    then have "qdp_topic_matches (QDP_SINGLE_LEVEL_WILDCARD # p) (tc # t) = Some (c_match (c_string ?p) (c_string (tl ?r)))"
      using q found True p by simp
    moreover have "c_string ?p = (case c_string p of x # xs \<Rightarrow> if x = CHR ''/'' then xs else c_string p | [] \<Rightarrow> [])"
      using p wildcards_nonzero(3) by (cases "c = 0") (auto simp: char_of_byte_eq_iff wildcards)
    ultimately show ?thesis
      using sep True by (simp add: s)
  next
    case False
    then show ?thesis
      using q found deref_zero [OF assms(1)] by (simp add: s)
  qed
qed

text \<open>On terminated strings every access is within the arrays, and the result depends on the contents
  only.\<close>

lemma qdp_topic_matches_c_match:
  assumes "terminated p" and "terminated t"
  shows "qdp_topic_matches p t = Some (c_match (c_string p) (c_string t))"
  using assms
proof (induction "length t" arbitrary: p t rule: less_induct)
  case less
  obtain pc p' tc t' where pt: "p = pc # p'" "t = tc # t'"
    using less.prems by (cases p; cases t) auto
  show ?case
  proof (cases "pc = 0 \<or> tc = 0")
    case True
    then have "c_string p = [] \<or> c_string t = []"
      using pt by auto
    then show ?thesis
      using matches_at_end_pattern [OF less.prems] walk_end [OF True] pt by simp
  next
    case False
    then have nz: "pc \<noteq> 0" "tc \<noteq> 0" and zero: "terminated p'" "terminated t'"
      using less.prems pt by auto
    have s: "c_string p = char_of_byte pc # c_string p'" "c_string t = char_of_byte tc # c_string t'"
      using pt nz by simp_all
    consider (hash) "pc = QDP_MULTI_LEVEL_WILDCARD" | (plus) "pc = QDP_SINGLE_LEVEL_WILDCARD"
      | (other) "pc \<noteq> QDP_MULTI_LEVEL_WILDCARD" "pc \<noteq> QDP_SINGLE_LEVEL_WILDCARD"
      by blast
    then show ?thesis
    proof cases
      case hash
      then show ?thesis
        unfolding s using walk_hash [OF hash nz(2), of p' t'] deref_zero [OF zero(1)] pt by (simp add: wildcards)
    next
      case plus
      then show ?thesis
        using walk_plus_level [OF zero nz(2)] less.hyps s pt by (simp add: wildcards)
    next
      case other
      have "qdp_topic_matches p' t' = Some (c_match (c_string p') (c_string t'))"
        using less.hyps [of t' p'] zero pt by simp
      then show ?thesis
        unfolding s using walk_other [OF nz other, of p' t'] other pt by (auto simp: char_of_byte_eq_iff wildcards)
    qed
  qed
qed

section \<open>Agreement with the Go library\<close>

text \<open>Patterns whose wildcards take up a whole level, with \<open>#\<close> only at the end.\<close>

definition plain :: "string \<Rightarrow> bool" where
  "plain l \<longleftrightarrow> CHR ''+'' \<notin> set l \<and> CHR ''#'' \<notin> set l"

fun wf_levels :: "string list \<Rightarrow> bool" where
  "wf_levels [] = True"
| "wf_levels [p] = (p = ''#'' \<or> p = ''+'' \<or> plain p)"
| "wf_levels (p # q # ps) = ((p = ''+'' \<or> plain p) \<and> wf_levels (q # ps))"

definition sep_free :: "string list \<Rightarrow> bool" where
  "sep_free ls \<longleftrightarrow> (\<forall>l \<in> set ls. CHR ''/'' \<notin> set l)"

lemma sep_free_simps [simp]: "sep_free []" "sep_free (l # ls) \<longleftrightarrow> CHR ''/'' \<notin> set l \<and> sep_free ls"
  by (simp_all add: sep_free_def)

lemma sep_free_Split [simp]: "sep_free (Split s)"
proof (induction s)
  case (Cons c s)
  then show ?case
    by (cases "Split s") auto
qed simp

text \<open>A string is at the boundary of a level when it is empty or begins with a separator.\<close>

definition boundary :: "string \<Rightarrow> bool" where
  "boundary r \<longleftrightarrow> r = [] \<or> hd r = CHR ''/''"

lemma boundary_cases: "boundary r \<Longrightarrow> r = [] \<or> (\<exists>q. r = CHR ''/'' # q)"
  by (cases r) (auto simp: boundary_def)

lemma c_match_plain_level:
  assumes "plain p" and "CHR ''/'' \<notin> set p" "CHR ''/'' \<notin> set t" and "boundary r" "boundary r'"
  shows "c_match (p @ r) (t @ r') \<longleftrightarrow> p = t \<and> c_match r r'"
  using assms(1-3)
proof (induction p arbitrary: t)
  case Nil
  then show ?case
    using boundary_cases [OF assms(4)] by (cases t) auto
next
  case (Cons a p)
  then show ?case
    using boundary_cases [OF assms(5)] by (cases t) (auto simp: plain_def)
qed

lemma c_match_plus_level:
  assumes "CHR ''/'' \<notin> set t" and "boundary r" "boundary r'" and "t @ r' \<noteq> []" and "r' \<noteq> ''/''"
  shows "c_match (CHR ''+'' # r) (t @ r') \<longleftrightarrow> c_match r r'"
proof -
  obtain b u where u: "t @ r' = b # u"
    using assms(4) by (cases "t @ r'") auto
  have sep: "CHR ''/'' \<in> set (t @ r') \<longleftrightarrow> r' \<noteq> []" "dropWhile (\<lambda>x. x \<noteq> CHR ''/'') (t @ r') = r'"
    using assms(1) boundary_cases [OF assms(3)] by (auto simp: dropWhile_append3)
  have "c_match (CHR ''+'' # r) (t @ r') \<longleftrightarrow>
      (if r' = [] then r = [] else c_match (case r of c # q \<Rightarrow> if c = CHR ''/'' then q else r | [] \<Rightarrow> []) (tl r'))"
    using sep unfolding u by (simp only: c_match.simps) simp
  also have "\<dots> \<longleftrightarrow> c_match r r'"
    using boundary_cases [OF assms(2)] boundary_cases [OF assms(3)] assms(5) by (auto simp: boundary_def)
  finally show ?thesis .
qed

text \<open>What follows the first level of a joined string.\<close>

definition rest_levels :: "string list \<Rightarrow> string" where
  "rest_levels ls = (if ls = [] then [] else CHR ''/'' # Join ls)"

lemma Join_rest: "Join (l # ls) = l @ rest_levels ls"
  by (cases ls) (simp_all add: rest_levels_def)

lemma boundary_rest [simp]: "boundary (rest_levels ls)"
  by (simp add: rest_levels_def boundary_def)

lemma Join_eq_Nil: "Join ls = [] \<longleftrightarrow> ls = [] \<or> ls = [[]]"
  by (cases ls rule: Join.cases) auto

lemma c_match_rest:
  "c_match (rest_levels ps) (rest_levels ts) \<longleftrightarrow>
     ps = [] \<and> ts = [] \<or> ps \<noteq> [] \<and> ts \<noteq> [] \<and> c_match (Join ps) (Join ts)"
  by (auto simp: rest_levels_def)

lemma c_match_first_level:
  assumes "p = ''+'' \<or> plain p" and "CHR ''/'' \<notin> set p" "CHR ''/'' \<notin> set t" and "last (t # ts) \<noteq> []"
  shows "c_match (Join (p # ps)) (Join (t # ts)) \<longleftrightarrow> level_ok p t \<and> c_match (rest_levels ps) (rest_levels ts)"
proof (cases "p = ''+''")
  case True
  have "t @ rest_levels ts \<noteq> []" "rest_levels ts \<noteq> ''/''"
    using assms(4) by (auto simp: rest_levels_def Join_eq_Nil)
  then show ?thesis
    using c_match_plus_level [OF assms(3) boundary_rest boundary_rest] True
    by (simp add: Join_rest level_ok_def)
next
  case False
  then show ?thesis
    using c_match_plain_level [OF _ assms(2,3) boundary_rest boundary_rest] assms(1)
    by (simp add: Join_rest level_ok_def)
qed

lemma c_match_hash: "c_match ''#'' t"
  by (cases t) simp_all

lemma c_match_levels:
  assumes "wf_levels ps" and "sep_free ps" "sep_free ts" and "ps \<noteq> []" "ts \<noteq> []" and "last ts \<noteq> []"
  shows "c_match (Join ps) (Join ts) \<longleftrightarrow> level_match ps ts"
  using assms
proof (induction ps arbitrary: ts rule: wf_levels.induct)
  case (2 p)
  obtain t ts' where ts: "ts = t # ts'"
    using 2 by (cases ts) auto
  show ?case
  proof (cases "p = ''#''")
    case True
    then show ?thesis
      using ts c_match_hash by simp
  next
    case False
    have "level_match [p] ts \<longleftrightarrow> level_ok p t \<and> ts' = []"
      using False by (cases ts') (auto simp: ts level_ok_def)
    then show ?thesis
      using c_match_first_level [of p t ts' "[]"] c_match_rest [of "[]" ts'] False 2 ts by auto
  qed
next
  case (3 p q ps)
  obtain t ts' where ts: "ts = t # ts'"
    using 3 by (cases ts) auto
  have "p \<noteq> ''#''"
    using 3(2) by (auto simp: plain_def)
  moreover have "ts' \<noteq> [] \<Longrightarrow> c_match (Join (q # ps)) (Join ts') \<longleftrightarrow> level_match (q # ps) ts'"
    using 3 ts by auto
  moreover have "level_match (q # ps) [] = False"
    by simp
  ultimately have "level_match (p # q # ps) ts \<longleftrightarrow>
      level_ok p t \<and> c_match (rest_levels (q # ps)) (rest_levels ts')"
    unfolding c_match_rest by (cases ts') (auto simp: ts level_ok_def)
  then show ?case
    using c_match_first_level [of p t ts' "q # ps"] 3 ts by auto
qed simp

text \<open>With such a pattern the addition of \<open>matchTopic\<close> to the levels makes no difference.\<close>

lemma level_match_length: "wf_levels ps \<Longrightarrow> level_match ps ts \<Longrightarrow> length ps \<le> length ts"
proof (induction ps ts rule: level_match.induct)
  case (4 p ps t ts)
  then show ?case
    by (cases ps) (auto simp: plain_def)
qed auto

lemma matchTopic_wf: "wf_levels (Split p) \<Longrightarrow> matchTopic p t \<longleftrightarrow> level_match (Split p) (Split t)"
  using matchTopic_levels level_match_length by blast

section \<open>Properties\<close>

text \<open>C11. The two libraries agree: for a pattern whose wildcards stand for whole levels, with \<open>#\<close> only
  at the end, and a topic that neither is empty nor ends in a separator, \<open>qdp_topic_matches\<close> reads only
  within the two strings, ends, and gives the result of the Go library's \<open>matchTopic\<close>.\<close>

theorem qdp_topic_matches_agrees:
  assumes "terminated p" and "terminated t"
    and "wf_levels (Split (c_string p))" and "last (Split (c_string t)) \<noteq> ''''"
  shows "qdp_topic_matches p t = Some (matchTopic (c_string p) (c_string t))"
proof -
  have "c_match (Join (Split (c_string p))) (Join (Split (c_string t))) \<longleftrightarrow>
      level_match (Split (c_string p)) (Split (c_string t))"
    using assms(3,4) by (intro c_match_levels) simp_all
  then show ?thesis
    using qdp_topic_matches_c_match [OF assms(1,2)] matchTopic_wf [OF assms(3)] by (simp add: Join_Split)
qed

definition c_literal :: "string \<Rightarrow> byte list" where
  "c_literal s = string_bytes s @ [0]"

lemma c_literal_simps [simp]: "terminated (c_literal s)" "CHR 0x00 \<notin> set s \<Longrightarrow> c_string (c_literal s) = s"
  by (simp_all add: c_literal_def c_string_def cstr_append_zero zero_in_string_bytes)

theorem qdp_topic_matches_agrees_witness:
  "qdp_topic_matches (c_literal ''a/+/#'') (c_literal ''a/b/c/d'') = Some True"
proof -
  have "wf_levels (Split ''a/+/#'')" "last (Split ''a/b/c/d'') \<noteq> ''''"
    "c_string (c_literal ''a/+/#'') = ''a/+/#''" "c_string (c_literal ''a/b/c/d'') = ''a/b/c/d''"
    by (simp_all add: plain_def)
  then show ?thesis
    using qdp_topic_matches_agrees [of "c_literal ''a/+/#''" "c_literal ''a/b/c/d''"]
    by (simp add: matchTopic_levels)
qed

text \<open>Where they differ: a topic that is empty or ends in a separator has an empty last level, which \<open>+\<close>
  matches in Go; in C it does not, and the separator is skipped instead. Wildcards inside a level are
  literal in Go only, and \<open>#\<close> before the end matches in Go only.\<close>

theorem topic_matching_differs:
  "qdp_topic_matches (c_literal ''a/+'') (c_literal ''a/'') = Some False \<and> matchTopic ''a/+'' ''a/''"
  "qdp_topic_matches (c_literal ''a/+'') (c_literal ''a/b/'') = Some True \<and> \<not> matchTopic ''a/+'' ''a/b/''"
  "qdp_topic_matches (c_literal ''a+'') (c_literal ''ab'') = Some True \<and> \<not> matchTopic ''a+'' ''ab''"
  "qdp_topic_matches (c_literal ''a/#/c'') (c_literal ''a/b/c'') = Some False \<and> matchTopic ''a/#/c'' ''a/b/c''"
  by (simp_all add: qdp_topic_matches_c_match matchTopic_levels)

end
