(* ===== verification/Qdp_C_Api.thy ===== *)
theory Qdp_C_Api
  imports Qdp_C_Message Qdp_C_Topic
begin

text \<open>
  The public interface of the C library (\<open>lib/c/qdp.c\<close>): the context \<open>qdp_t\<close> with its fixed table of 64
  subscriptions and its two stream buffers, publishing, subscribing and processing. The transport
  functions belong to the application: they take a buffer and their own state and return a result code
  with the changed buffer and state, or are undefined themselves. A callback is an entry of a log, with the function pointer, its
  context and the message; it does not call back into the library.
\<close>

section \<open>Definitions\<close>

type_synonym 't c_transfer = "qdp_buffer \<Rightarrow> 't \<Rightarrow> (int \<times> qdp_buffer \<times> 't) option"

record 't qdp_transport =
  tr_send :: "'t c_transfer option"
  tr_recv :: "'t c_transfer option"
  tr_ctx :: 't

text \<open>A subscription slot; the callback is a function pointer, \<open>None\<close> for \<open>NULL\<close>.\<close>

record qdp_subscription =
  csub_topic :: "byte list"
  csub_fn :: "nat option"
  csub_ctx :: nat

datatype c_call = Call nat nat qdp_message

abbreviation QDP_MAX_SUBSCRIPTIONS :: nat where
  "QDP_MAX_SUBSCRIPTIONS \<equiv> 64"

abbreviation QDP_MAX_BUFFER_CAPACITY :: nat where
  "QDP_MAX_BUFFER_CAPACITY \<equiv> 1024 * 10"

text \<open>The context; its transport is \<open>None\<close> as long as the three members are zero. The streams are their
  buffers, whose arrays are \<open>rx_data\<close> and \<open>tx_data\<close>.\<close>

record 't qdp =
  q_transport :: "'t qdp_transport option"
  q_subs :: "qdp_subscription list"
  q_sub_count :: u32
  q_rx :: qdp_buffer
  q_tx :: qdp_buffer

definition qdp_stream_begin_message :: "qdp_buffer \<Rightarrow> bool \<times> qdp_buffer" where
  "qdp_stream_begin_message stream = (True, qdp_buffer_reset stream)"

definition qdp_stream_end_message :: "qdp_buffer \<Rightarrow> bool" where
  "qdp_stream_end_message stream \<longleftrightarrow> 0 < buf_size stream"

definition qdp_stream_next_message ::
    "u32 list \<Rightarrow> qdp_buffer \<Rightarrow> qdp_message \<Rightarrow> (bool \<times> qdp_buffer \<times> qdp_message) option" where
  "qdp_stream_next_message tab stream msg =
     (if buf_size stream \<le> buf_position stream then Some (False, stream, msg)
      else qdp_message_read tab stream msg)"

text \<open>\<open>qdp_new\<close>, with the outcome of \<open>QDP_MALLOC\<close> as an argument: the context and the CRC table.\<close>

definition empty_slot :: qdp_subscription where
  "empty_slot = \<lparr>csub_topic = replicate QDP_MAX_TOPIC_LENGTH 0, csub_fn = None, csub_ctx = 0\<rparr>"

definition qdp_new :: "bool \<Rightarrow> u32 list \<Rightarrow> 't qdp option \<times> u32 list" where
  "qdp_new allocated tab =
     (if \<not> allocated then (None, tab)
      else
        (Some \<lparr>q_transport = None, q_subs = replicate QDP_MAX_SUBSCRIPTIONS empty_slot, q_sub_count = 0,
           q_rx = qdp_buffer_create (replicate QDP_MAX_BUFFER_CAPACITY 0) QDP_MAX_BUFFER_CAPACITY,
           q_tx = qdp_buffer_create (replicate QDP_MAX_BUFFER_CAPACITY 0) QDP_MAX_BUFFER_CAPACITY\<rparr>,
         qdp_crc32_init))"

text \<open>\<open>qdp_free\<close> gives the memory back: no context is left, and \<open>NULL\<close> is ignored.\<close>

definition qdp_free :: "'t qdp option \<Rightarrow> 't qdp option" where
  "qdp_free q = (case q of None \<Rightarrow> q | Some _ \<Rightarrow> None)"

definition qdp_set_transport ::
    "'t c_transfer option \<Rightarrow> 't c_transfer option \<Rightarrow> 't \<Rightarrow> 't qdp \<Rightarrow> 't qdp" where
  "qdp_set_transport send recv ctx q = q\<lparr>q_transport := Some \<lparr>tr_send = send, tr_recv = recv, tr_ctx = ctx\<rparr>\<rparr>"

definition qdp_subscribe :: "byte list \<Rightarrow> nat option \<Rightarrow> nat \<Rightarrow> 't qdp \<Rightarrow> (bool \<times> 't qdp) option" where
  "qdp_subscribe pattern fn ctx q =
     (if QDP_MAX_SUBSCRIPTIONS \<le> unat (q_sub_count q) then Some (False, q)
      else do {
        let i = unat (q_sub_count q);
        slot \<leftarrow> array_read (q_subs q) i 1;
        topic \<leftarrow> strncpy (csub_topic (hd slot)) pattern (QDP_MAX_TOPIC_LENGTH - 1);
        subs \<leftarrow> array_write (q_subs q) i [\<lparr>csub_topic = topic, csub_fn = fn, csub_ctx = ctx\<rparr>];
        Some (True, q\<lparr>q_subs := subs, q_sub_count := q_sub_count q + 1\<rparr>)
      })"

lemma u32_Suc: "i < n \<Longrightarrow> unat (i + 1) = Suc (unat i)" for i n :: u32
  using unat_u32_less [of n] by (simp add: word_less_nat_alt unat_word_ariths)

lemma u32_pred: "i < n \<Longrightarrow> unat (n - 1) = unat n - 1" for i n :: u32
  using unat_minus_one [of n] by (cases "n = 0") (auto simp: word_less_nat_alt)

text \<open>The loop of \<open>qdp_unsubscribe\<close>; \<open>i--\<close> may wrap around, and \<open>i++\<close> undoes it.\<close>

definition remove_slot :: "u32 \<Rightarrow> u32 \<Rightarrow> qdp_subscription list \<Rightarrow> qdp_subscription list option" where
  "remove_slot i n subs =
     (if i < n - 1 then memcpy subs (unat i) subs (unat (i + 1)) (unat (n - i - 1)) else Some subs)"

function unsubscribe_from ::
    "byte list \<Rightarrow> u32 \<Rightarrow> u32 \<Rightarrow> qdp_subscription list \<Rightarrow> (u32 \<times> qdp_subscription list) option" where
  "unsubscribe_from pattern i n subs =
     (if i < n then
        (case array_read subs (unat i) 1 of
           None \<Rightarrow> None
         | Some slot \<Rightarrow>
             (case strcmp_eq (csub_topic (hd slot)) pattern of
                None \<Rightarrow> None
              | Some True \<Rightarrow>
                  (case remove_slot i n subs of
                     None \<Rightarrow> None
                   | Some subs \<Rightarrow> unsubscribe_from pattern (i - 1 + 1) (n - 1) subs)
              | Some False \<Rightarrow> unsubscribe_from pattern (i + 1) n subs))
      else Some (n, subs))"
  by pat_completeness auto

termination
  by (relation "measure (\<lambda>(pattern, i, n, subs). unat n - unat i)")
    (auto simp: u32_Suc u32_pred word_less_nat_alt)

declare unsubscribe_from.simps [simp del]

definition qdp_unsubscribe :: "byte list \<Rightarrow> 't qdp \<Rightarrow> 't qdp option" where
  "qdp_unsubscribe pattern q = do {
     (n, subs) \<leftarrow> unsubscribe_from pattern 0 (q_sub_count q) (q_subs q);
     Some (q\<lparr>q_subs := subs, q_sub_count := n\<rparr>)
   }"

text \<open>The end of both publishing functions: writing the message and handing the buffer to \<open>send\<close>, if there
  is one.\<close>

definition send_tx :: "'t qdp \<Rightarrow> (int \<times> 't qdp) option" where
  "send_tx q =
     (case q_transport q of
        None \<Rightarrow> Some (0, q)
      | Some tr \<Rightarrow>
          (case tr_send tr of
             None \<Rightarrow> Some (0, q)
           | Some send \<Rightarrow> do {
               (err, tx, ctx) \<leftarrow> send (q_tx q) (tr_ctx tr);
               Some (err, q\<lparr>q_tx := tx, q_transport := Some (tr\<lparr>tr_ctx := ctx\<rparr>)\<rparr>)
             }))"

definition publish_message :: "u32 list \<Rightarrow> qdp_message \<Rightarrow> 't qdp \<Rightarrow> (int \<times> 't qdp) option" where
  "publish_message tab msg q = do {
     (written, tx) \<leftarrow> qdp_message_write tab (q_tx q) msg;
     if \<not> written then Some (- 1, q\<lparr>q_tx := tx\<rparr>) else send_tx (q\<lparr>q_tx := tx\<rparr>)
   }"

definition qdp_publish_string :: "u32 list \<Rightarrow> byte list \<Rightarrow> byte list \<Rightarrow> 't qdp \<Rightarrow> (int \<times> 't qdp) option" where
  "qdp_publish_string tab topic str q = do {
     let q = q\<lparr>q_tx := snd (qdp_stream_begin_message (q_tx q))\<rparr>;
     topic_len \<leftarrow> strlen topic;
     len \<leftarrow> strlen str;
     topic_array \<leftarrow> strncpy (hdr_topic (msg_header zero_message)) topic (QDP_MAX_TOPIC_LENGTH - 1);
     if QDP_MAX_PAYLOAD_SIZE < len then Some (- 1, q)
     else do {
       payload \<leftarrow> memcpy (pl_data (msg_payload zero_message)) 0 str 0 len;
       publish_message tab
         \<lparr>msg_header = \<lparr>hdr_topic_len = word_of_nat topic_len, hdr_payload_len = word_of_nat len, hdr_topic = topic_array\<rparr>,
          msg_payload = \<lparr>pl_size = word_of_nat len, pl_data = payload\<rparr>, msg_checksum = 0\<rparr> q
     }
   }"

definition qdp_publish_bytes ::
    "u32 list \<Rightarrow> byte list \<Rightarrow> byte list \<Rightarrow> nat \<Rightarrow> 't qdp \<Rightarrow> (int \<times> 't qdp) option" where
  "qdp_publish_bytes tab topic data len q =
     (if QDP_MAX_PAYLOAD_SIZE < len then Some (- 1, q)
      else do {
        let q = q\<lparr>q_tx := snd (qdp_stream_begin_message (q_tx q))\<rparr>;
        topic_len \<leftarrow> strlen topic;
        topic_array \<leftarrow> strncpy (hdr_topic (msg_header zero_message)) topic (QDP_MAX_TOPIC_LENGTH - 1);
        payload \<leftarrow> memcpy (pl_data (msg_payload zero_message)) 0 data 0 len;
        publish_message tab
          \<lparr>msg_header = \<lparr>hdr_topic_len = word_of_nat topic_len, hdr_payload_len = word_of_nat len, hdr_topic = topic_array\<rparr>,
           msg_payload = \<lparr>pl_size = word_of_nat len, pl_data = payload\<rparr>, msg_checksum = 0\<rparr> q
      })"

text \<open>The inner loop of \<open>qdp_process\<close>: the calls for one message; a call through \<open>NULL\<close> is undefined.\<close>

fun dispatch_message :: "qdp_subscription list \<Rightarrow> qdp_message \<Rightarrow> c_call list option" where
  "dispatch_message [] msg = Some []"
| "dispatch_message (s # subs) msg = do {
     matched \<leftarrow> qdp_topic_matches (csub_topic s) (hdr_topic (msg_header msg));
     call \<leftarrow> (if matched then do { fn \<leftarrow> csub_fn s; Some [Call fn (csub_ctx s) msg] } else Some []);
     calls \<leftarrow> dispatch_message subs msg;
     Some (call @ calls)
   }"

text \<open>A message that was read moves the position forward, so the loop of \<open>qdp_process\<close> ends.\<close>

lemma read_advances:
  assumes "qdp_message_read tab buf msg = Some (ok, buf', msg')"
  shows "buf_size buf' = buf_size buf" and "ok \<Longrightarrow> buf_position buf < buf_position buf'"
  using assms by (auto simp: qdp_message_read_def Let_def bind_eq_Some_conv split: if_splits)

lemma next_advances:
  assumes "qdp_stream_next_message tab rx msg = Some (True, rx', msg')"
  shows "buf_size rx' - buf_position rx' < buf_size rx - buf_position rx"
proof -
  have "buf_position rx < buf_size rx" and r: "qdp_message_read tab rx msg = Some (True, rx', msg')"
    using assms by (auto simp: qdp_stream_next_message_def split: if_splits)
  then show ?thesis
    using read_advances [OF r] by simp
qed

function process_messages ::
    "u32 list \<Rightarrow> qdp_subscription list \<Rightarrow> qdp_buffer \<Rightarrow> qdp_message \<Rightarrow> (qdp_buffer \<times> c_call list) option" where
  "process_messages tab subs rx msg =
     (case qdp_stream_next_message tab rx msg of
        None \<Rightarrow> None
      | Some (False, rx, msg) \<Rightarrow> Some (rx, [])
      | Some (True, rx, msg) \<Rightarrow>
          (case dispatch_message subs msg of
             None \<Rightarrow> None
           | Some calls \<Rightarrow>
               (case process_messages tab subs rx (qdp_message_clear msg) of
                  None \<Rightarrow> None
                | Some (rx, later) \<Rightarrow> Some (rx, calls @ later))))"
  by pat_completeness auto
termination
  by (relation "measure (\<lambda>(tab, subs, rx, msg). buf_size rx - buf_position rx)") (auto dest: next_advances)

declare process_messages.simps [simp del]

definition qdp_process :: "u32 list \<Rightarrow> 't qdp \<Rightarrow> (int \<times> 't qdp \<times> c_call list) option" where
  "qdp_process tab q =
     (case q_transport q of
        None \<Rightarrow> Some (0, q, [])
      | Some tr \<Rightarrow>
          (case tr_recv tr of
             None \<Rightarrow> Some (0, q, [])
           | Some recv \<Rightarrow> do {
               (err, rx, ctx) \<leftarrow> recv (snd (qdp_stream_begin_message (q_rx q))) (tr_ctx tr);
               let q = q\<lparr>q_rx := rx, q_transport := Some (tr\<lparr>tr_ctx := ctx\<rparr>)\<rparr>;
               if err \<noteq> 0 then Some (err, q, [])
               else if buf_size (q_rx q) = 0 then Some (0, q, [])
               else do {
                 subs \<leftarrow> array_read (q_subs q) 0 (unat (q_sub_count q));
                 (rx, calls) \<leftarrow> process_messages tab subs (q_rx q) zero_message;
                 Some (0, q\<lparr>q_rx := rx\<rparr>, calls)
               }
             }))"

section \<open>The subscription table\<close>

definition slot_ok :: "qdp_subscription \<Rightarrow> bool" where
  "slot_ok s \<longleftrightarrow> length (csub_topic s) = QDP_MAX_TOPIC_LENGTH \<and> csub_topic s ! (QDP_MAX_TOPIC_LENGTH - 1) = 0"

definition qdp_ok :: "'t qdp \<Rightarrow> bool" where
  "qdp_ok q \<longleftrightarrow> length (q_subs q) = QDP_MAX_SUBSCRIPTIONS \<and> unat (q_sub_count q) \<le> QDP_MAX_SUBSCRIPTIONS \<and>
     (\<forall>s \<in> set (q_subs q). slot_ok s) \<and>
     buffer_ok (q_rx q) \<and> buf_capacity (q_rx q) = QDP_MAX_BUFFER_CAPACITY \<and>
     buffer_ok (q_tx q) \<and> buf_capacity (q_tx q) = QDP_MAX_BUFFER_CAPACITY"

text \<open>The subscriptions as the application sees them.\<close>

type_synonym c_entry = "string \<times> nat option \<times> nat"

definition entry :: "qdp_subscription \<Rightarrow> c_entry" where
  "entry s = (c_string (csub_topic s), csub_fn s, csub_ctx s)"

definition active :: "'t qdp \<Rightarrow> qdp_subscription list" where
  "active q = take (unat (q_sub_count q)) (q_subs q)"

definition entries :: "'t qdp \<Rightarrow> c_entry list" where
  "entries q = map entry (active q)"

lemma slot_ok_terminated: "slot_ok s \<Longrightarrow> terminated (csub_topic s)"
  unfolding slot_ok_def by (metis diff_less nth_mem zero_less_numeral zero_less_one)

lemma length_entries: "qdp_ok q \<Longrightarrow> length (entries q) = unat (q_sub_count q)"
  by (simp add: entries_def active_def qdp_ok_def)

lemma qdp_ok_new: "qdp_new True tab = (Some q, tab') \<Longrightarrow> qdp_ok q \<and> entries q = [] \<and> tab' = qdp_crc32_init"
  by (auto simp: qdp_new_def qdp_ok_def entries_def active_def slot_ok_def empty_slot_def
      buffer_ok_def qdp_buffer_create_def)

lemma strncpy_slot:
  assumes "slot_ok s" and "terminated pattern"
  shows "\<exists>a. strncpy (csub_topic s) pattern 255 = Some a \<and> length a = 256 \<and> a ! 255 = 0 \<and>
     c_string a = take 255 (c_string pattern)"
proof -
  obtain a where "strncpy (csub_topic s) pattern 255 = Some a" "length a = Suc 255" "a ! 255 = 0"
      "cstr a = take 255 (cstr pattern)"
    using strncpy_last_zero [OF assms(2), of "csub_topic s" 255] assms(1) by (auto simp: slot_ok_def)
  then show ?thesis
    by (simp add: c_string_def bytes_string_def take_map)
qed

lemma subscribe_refines:
  assumes "qdp_ok q" and "terminated pattern"
  shows "\<exists>q'. qdp_subscribe pattern fn ctx q = Some (length (entries q) < 64, q') \<and> qdp_ok q' \<and>
     entries q' = (if length (entries q) < 64 then entries q @ [(take 255 (c_string pattern), fn, ctx)] else entries q)"
proof (cases "unat (q_sub_count q) < 64")
  case True
  let ?i = "unat (q_sub_count q)" and ?s = "q_subs q ! unat (q_sub_count q)"
  have i: "?i < length (q_subs q)" "slot_ok ?s"
    using True assms(1) by (auto simp: qdp_ok_def)
  then obtain a where a: "strncpy (csub_topic ?s) pattern 255 = Some a" "length a = 256" "a ! 255 = 0"
      "c_string a = take 255 (c_string pattern)"
    using strncpy_slot assms(2) by blast
  have "take 1 (drop ?i (q_subs q)) = [?s]"
    using i(1) by (metis Cons_nth_drop_Suc One_nat_def take0 take_Suc_Cons)
  then have rd: "array_read (q_subs q) ?i 1 = Some [?s]"
    using i(1) by (simp add: array_read_def)
  let ?new = "\<lparr>csub_topic = a, csub_fn = fn, csub_ctx = ctx\<rparr>"
  let ?subs = "take ?i (q_subs q) @ ?new # drop (Suc ?i) (q_subs q)"
  have n: "unat (q_sub_count q + 1) = Suc ?i"
    using True by (simp add: unat_word_ariths)
  have "qdp_subscribe pattern fn ctx q = Some (True, q\<lparr>q_subs := ?subs, q_sub_count := q_sub_count q + 1\<rparr>)"
    using True i(1) rd a(1) by (simp add: qdp_subscribe_def array_write_def Let_def)
  moreover have "qdp_ok (q\<lparr>q_subs := ?subs, q_sub_count := q_sub_count q + 1\<rparr>)"
    using assms(1) True i(1) n a by (auto simp: qdp_ok_def slot_ok_def dest: in_set_takeD in_set_dropD)
  ultimately show ?thesis
    using True assms(1) i(1) n a(4)
    by (simp add: length_entries) (simp add: entries_def active_def entry_def min_def)
next
  case False
  then show ?thesis
    using assms(1) by (simp add: length_entries qdp_subscribe_def)
qed

text \<open>Removing slot \<open>i\<close> closes the gap among the first \<open>n\<close> slots.\<close>

lemma remove_slot_take:
  assumes "i < n" and "unat n \<le> length subs"
  shows "\<exists>subs'. remove_slot i n subs = Some subs' \<and> length subs' = length subs \<and> set subs' \<subseteq> set subs \<and>
     take (unat n - 1) subs' = take (unat i) subs @ take (unat n - unat i - 1) (drop (unat i + 1) subs)"
proof (cases "i < n - 1")
  case True
  have u: "unat (i + 1) = unat i + 1" "unat (n - i - 1) = unat n - unat i - 1" "unat i < unat n - 1"
    using assms(1) True u32_Suc [OF assms(1)] u32_pred [OF assms(1)] unat_sub [of i n] unat_minus_one [of "n - i"]
    by (auto simp: word_less_nat_alt word_le_nat_alt)
  let ?k = "unat n - unat i - 1"
  let ?subs = "take (unat i) subs @ take ?k (drop (unat i + 1) subs) @ drop (unat i + ?k) subs"
  have "remove_slot i n subs = Some ?subs"
    using True u assms(2) by (simp add: remove_slot_def memcpy_ok)
  moreover have "length ?subs = length subs" "set ?subs \<subseteq> set subs"
    using u assms(2) by (auto dest: in_set_takeD in_set_dropD)
  moreover have "take (unat n - 1) ?subs = take (unat i) subs @ take ?k (drop (unat i + 1) subs)"
    using u assms(2) by simp
  ultimately show ?thesis
    by blast
next
  case False
  then have "unat n = unat i + 1"
    using assms(1) u32_pred [OF assms(1)] by (simp add: word_less_nat_alt)
  then show ?thesis
    using False by (simp add: remove_slot_def)
qed

text \<open>One turn of the loop of \<open>qdp_unsubscribe\<close>.\<close>

lemma unsubscribe_turn:
  assumes "unat i < length subs" and "terminated pattern" and "terminated (csub_topic (subs ! unat i))" and "i < n"
  shows "unsubscribe_from pattern i n subs =
     (if cstr (csub_topic (subs ! unat i)) = cstr pattern
      then (case remove_slot i n subs of None \<Rightarrow> None | Some subs \<Rightarrow> unsubscribe_from pattern i (n - 1) subs)
      else unsubscribe_from pattern (i + 1) n subs)"
proof -
  have "drop (unat i) subs = subs ! unat i # drop (Suc (unat i)) subs"
    using assms(1) by (simp add: Cons_nth_drop_Suc)
  then have "array_read subs (unat i) 1 = Some [subs ! unat i]"
    using assms(1) by (simp add: array_read_def)
  then show ?thesis
    using assms(4) strcmp_eq_cstr [OF assms(3,2)]
    by (subst unsubscribe_from.simps) (simp split: option.split)
qed

lemma unsubscribe_end: "\<not> i < n \<Longrightarrow> unsubscribe_from pattern i n subs = Some (n, subs)"
  by (subst unsubscribe_from.simps) simp

lemma unsubscribe_from_filter:
  assumes "terminated pattern" and "unat n \<le> length subs" and "\<forall>s \<in> set subs. slot_ok s" and "i \<le> n"
  shows "\<exists>n' subs'. unsubscribe_from pattern i n subs = Some (n', subs') \<and> unat n' \<le> unat n \<and>
     length subs' = length subs \<and> set subs' \<subseteq> set subs \<and>
     take (unat n') subs' = take (unat i) subs @
       filter (\<lambda>s. cstr (csub_topic s) \<noteq> cstr pattern) (take (unat n - unat i) (drop (unat i) subs))"
  using assms(2-4)
proof (induction "unat n - unat i" arbitrary: i n subs rule: less_induct)
  case less
  let ?P = "\<lambda>s. cstr (csub_topic s) \<noteq> cstr pattern"
  show ?case
  proof (cases "i < n")
    case False
    then have "i = n"
      using less.prems(3) by simp
    then show ?thesis
      using unsubscribe_end [of i n] by simp
  next
    case True
    let ?s = "subs ! unat i"
    have i: "unat i < unat n" "unat i < length subs"
      using True less.prems(1) by (simp_all add: word_less_nat_alt)
    have rest: "take (unat n - unat i) (drop (unat i) subs) = ?s # take (unat n - unat i - 1) (drop (unat i + 1) subs)"
      using i by (simp add: Cons_nth_drop_Suc [symmetric] take_Cons')
    have "terminated (csub_topic ?s)"
      using less.prems(2) i(2) slot_ok_terminated by auto
    note turn = unsubscribe_turn [OF i(2) assms(1) this True]
    show ?thesis
    proof (cases "?P ?s")
      case keep: True
      have u: "unat (i + 1) = unat i + 1"
        using u32_Suc [OF True] by simp
      have "take (unat i + 1) subs = take (unat i) subs @ [?s]"
        using i(2) by (simp add: take_Suc_conv_app_nth)
      then show ?thesis
        using less.hyps [of n "i + 1" subs] less.prems i turn keep rest u by (simp add: word_le_nat_alt)
    next
      case False
      obtain subs1 where s1: "remove_slot i n subs = Some subs1" "length subs1 = length subs" "set subs1 \<subseteq> set subs"
         "take (unat n - 1) subs1 = take (unat i) subs @ take (unat n - unat i - 1) (drop (unat i + 1) subs)"
        using remove_slot_take [OF True less.prems(1)] by blast
      have n: "unat (n - 1) = unat n - 1"
        using u32_pred [OF True] .
      have "take (unat i) subs1 = take (unat i) (take (unat n - 1) subs1)"
        "take (unat n - 1 - unat i) (drop (unat i) subs1) = drop (unat i) (take (unat n - 1) subs1)"
        using i by (simp_all add: drop_take)
      then have parts: "take (unat i) subs1 = take (unat i) subs"
        "take (unat n - 1 - unat i) (drop (unat i) subs1) = take (unat n - unat i - 1) (drop (unat i + 1) subs)"
        unfolding s1(4) using i by simp_all
      have "unat (n - 1) - unat i < unat n - unat i" "unat (n - 1) \<le> length subs1" "\<forall>s \<in> set subs1. slot_ok s" "i \<le> n - 1"
        using i less.prems(1,2) s1(2,3) n by (auto simp: word_le_nat_alt)
      from less.hyps [OF this] show ?thesis
        using turn False rest s1(1-3) n parts by fastforce
    qed
  qed
qed

lemma c_string_eq_iff: "c_string a = c_string b \<longleftrightarrow> cstr a = cstr b"
  by (metis c_string_def string_bytes_string)

lemma unsubscribe_refines:
  assumes "qdp_ok q" and "terminated pattern"
  shows "\<exists>q'. qdp_unsubscribe pattern q = Some q' \<and> qdp_ok q' \<and>
     entries q' = filter (\<lambda>(p, fn, ctx). p \<noteq> c_string pattern) (entries q)"
proof -
  obtain n' subs' where u: "unsubscribe_from pattern 0 (q_sub_count q) (q_subs q) = Some (n', subs')"
     "unat n' \<le> unat (q_sub_count q)" "length subs' = length (q_subs q)" "set subs' \<subseteq> set (q_subs q)"
     "take (unat n') subs' = filter (\<lambda>s. cstr (csub_topic s) \<noteq> cstr pattern) (active q)"
    using unsubscribe_from_filter [OF assms(2), of "q_sub_count q" "q_subs q" 0] assms(1)
    by (auto simp: qdp_ok_def active_def)
  have "(\<lambda>(p, fn, ctx). p \<noteq> c_string pattern) \<circ> entry = (\<lambda>s. cstr (csub_topic s) \<noteq> cstr pattern)"
    by (simp add: fun_eq_iff entry_def c_string_eq_iff)
  then have "entries (q\<lparr>q_subs := subs', q_sub_count := n'\<rparr>) = filter (\<lambda>(p, fn, ctx). p \<noteq> c_string pattern) (entries q)"
    using u(5) by (simp add: entries_def active_def filter_map)
  moreover have "qdp_ok (q\<lparr>q_subs := subs', q_sub_count := n'\<rparr>)"
    using assms(1) u(2-4) by (auto simp: qdp_ok_def)
  ultimately show ?thesis
    using u(1) by (simp add: qdp_unsubscribe_def)
qed

text \<open>
  The table as an interface: requests to subscribe and to unsubscribe act on the list of entries, with room
  for \<open>cap\<close> of them, and patterns are cut to \<open>width\<close> characters.
\<close>

datatype c_request = Sub "byte list" "nat option" nat | Unsub "byte list"

fun request_pattern :: "c_request \<Rightarrow> byte list" where
  "request_pattern (Sub p fn ctx) = p"
| "request_pattern (Unsub p) = p"

fun run_requests ::
    "(byte list \<Rightarrow> nat option \<Rightarrow> nat \<Rightarrow> 'q \<Rightarrow> (bool \<times> 'q) option) \<Rightarrow> (byte list \<Rightarrow> 'q \<Rightarrow> 'q option) \<Rightarrow>
     c_request list \<Rightarrow> 'q \<Rightarrow> (bool list \<times> 'q) option" where
  "run_requests sub unsub [] q = Some ([], q)"
| "run_requests sub unsub (Sub p fn ctx # rs) q = do {
     (ok, q) \<leftarrow> sub p fn ctx q;
     (oks, q) \<leftarrow> run_requests sub unsub rs q;
     Some (ok # oks, q)
   }"
| "run_requests sub unsub (Unsub p # rs) q = do { q \<leftarrow> unsub p q; run_requests sub unsub rs q }"

fun requests_spec :: "nat \<Rightarrow> nat \<Rightarrow> c_request list \<Rightarrow> c_entry list \<Rightarrow> bool list \<times> c_entry list" where
  "requests_spec cap width [] es = ([], es)"
| "requests_spec cap width (Sub p fn ctx # rs) es =
     (if length es < cap
      then (case requests_spec cap width rs (es @ [(take width (c_string p), fn, ctx)]) of (oks, es) \<Rightarrow> (True # oks, es))
      else (case requests_spec cap width rs es of (oks, es) \<Rightarrow> (False # oks, es)))"
| "requests_spec cap width (Unsub p # rs) es =
     requests_spec cap width rs (filter (\<lambda>(q, fn, ctx). q \<noteq> c_string p) es)"

locale subscription_table =
  fixes ok :: "'q \<Rightarrow> bool"
    and view :: "'q \<Rightarrow> c_entry list"
    and sub :: "byte list \<Rightarrow> nat option \<Rightarrow> nat \<Rightarrow> 'q \<Rightarrow> (bool \<times> 'q) option"
    and unsub :: "byte list \<Rightarrow> 'q \<Rightarrow> 'q option"
    and cap width :: nat
  assumes sub_refines: "ok q \<Longrightarrow> terminated p \<Longrightarrow> \<exists>q'. sub p fn ctx q = Some (length (view q) < cap, q') \<and> ok q' \<and>
      view q' = (if length (view q) < cap then view q @ [(take width (c_string p), fn, ctx)] else view q)"
    and unsub_refines: "ok q \<Longrightarrow> terminated p \<Longrightarrow> \<exists>q'. unsub p q = Some q' \<and> ok q' \<and>
      view q' = filter (\<lambda>(r, fn, ctx). r \<noteq> c_string p) (view q)"
begin

lemma requests_refine:
  assumes "ok q" and "\<forall>r \<in> set rs. terminated (request_pattern r)"
  shows "\<exists>oks q'. run_requests sub unsub rs q = Some (oks, q') \<and> ok q' \<and>
     (oks, view q') = requests_spec cap width rs (view q)"
  using assms
proof (induction rs arbitrary: q)
  case (Cons r rs)
  show ?case
  proof (cases r)
    case (Sub p fn ctx)
    obtain q1 where q1: "sub p fn ctx q = Some (length (view q) < cap, q1)" "ok q1"
       "view q1 = (if length (view q) < cap then view q @ [(take width (c_string p), fn, ctx)] else view q)"
      using sub_refines [OF Cons.prems(1), of p fn ctx] Cons.prems(2) Sub by auto
    obtain oks q2 where "run_requests sub unsub rs q1 = Some (oks, q2)" "ok q2"
       "requests_spec cap width rs (view q1) = (oks, view q2)"
      using Cons.IH [OF q1(2)] Cons.prems(2) by fastforce
    then show ?thesis
      using Sub q1 by (cases "length (view q) < cap") simp_all
  next
    case (Unsub p)
    obtain q1 where q1: "unsub p q = Some q1" "ok q1" "view q1 = filter (\<lambda>(r, fn, ctx). r \<noteq> c_string p) (view q)"
      using unsub_refines [OF Cons.prems(1), of p] Cons.prems(2) Unsub by auto
    then show ?thesis
      using Cons.IH [OF q1(2)] Cons.prems(2) Unsub by simp
  qed
qed simp

end

interpretation c_table: subscription_table qdp_ok entries qdp_subscribe qdp_unsubscribe 64 255
  by unfold_locales (rule subscribe_refines unsubscribe_refines; assumption)+

end
