(* ===== verification/Qdp_C_Flow.thy ===== *)
theory Qdp_C_Flow
  imports Qdp_C_Api
begin

text \<open>
  How messages pass through the C library: what \<open>qdp_publish_bytes\<close> and \<open>qdp_publish_string\<close> hand to the
  transport, on every branch, and which callbacks \<open>qdp_process\<close> makes for what the transport delivers,
  including incomplete, oversized and stale frames.
\<close>

section \<open>Publishing\<close>

text \<open>The message structure both functions build, for a terminated topic.\<close>

definition topic_array :: "byte list \<Rightarrow> byte list" where
  "topic_array topic = take 255 (cstr topic) @ replicate (256 - length (take 255 (cstr topic))) 0"

lemma strncpy_topic:
  assumes "terminated topic"
  shows "strncpy (hdr_topic (msg_header zero_message)) topic 255 = Some (topic_array topic)"
proof -
  have "replicate (255 - length (cstr topic)) (0 :: byte) @ [0] = replicate (256 - length (take 255 (cstr topic))) 0"
  proof -
    have "256 - length (take 255 (cstr topic)) = (255 - length (cstr topic)) + 1"
      by simp
    then show ?thesis
      by (simp only: replicate_add) simp
  qed
  moreover have "min (length (cstr topic)) 255 + (255 - length (cstr topic)) = 255"
    by simp
  ultimately show ?thesis
    using strncpy_bytes_eq [OF assms, of 255]
    by (simp add: strncpy_def array_write_def zero_message_def topic_array_def drop_replicate)
qed

lemma length_topic_array [simp]: "length (topic_array topic) = 256"
  by (simp add: topic_array_def)

definition outgoing :: "byte list \<Rightarrow> byte list \<Rightarrow> qdp_message" where
  "outgoing topic payload =
     \<lparr>msg_header = \<lparr>hdr_topic_len = word_of_nat (length (cstr topic)), hdr_payload_len = word_of_nat (length payload),
        hdr_topic = topic_array topic\<rparr>,
      msg_payload = \<lparr>pl_size = word_of_nat (length payload), pl_data = payload @ replicate (512 - length payload) 0\<rparr>,
      msg_checksum = 0\<rparr>"

lemma publish_bytes_outgoing:
  assumes "terminated topic" and "len \<le> 512" and "len \<le> length data"
  shows "qdp_publish_bytes tab topic data len q =
     publish_message tab (outgoing topic (take len data)) (q\<lparr>q_tx := qdp_buffer_reset (q_tx q)\<rparr>)"
  using assms strncpy_topic [OF assms(1)]
  by (simp add: qdp_publish_bytes_def qdp_stream_begin_message_def strlen_eq Let_def memcpy_ok outgoing_def
      zero_message_def drop_replicate)

lemma publish_string_outgoing:
  assumes "terminated topic" and "terminated str" and "length (cstr str) \<le> 512"
  shows "qdp_publish_string tab topic str q =
     publish_message tab (outgoing topic (cstr str)) (q\<lparr>q_tx := qdp_buffer_reset (q_tx q)\<rparr>)"
proof -
  obtain r where "str = cstr str @ 0 # r"
    using terminated_split [OF assms(2)] by blast
  then have "take (length (cstr str)) str = cstr str"
    by (metis append_eq_conv_conj)
  then show ?thesis
    using assms strncpy_topic [OF assms(1)] terminated_length [OF assms(2)]
    by (simp add: qdp_publish_string_def qdp_stream_begin_message_def strlen_eq Let_def memcpy_ok outgoing_def
        zero_message_def drop_replicate)
qed

text \<open>The Go message a publication stands for; a topic of 256 bytes loses its last byte.\<close>

definition published :: "byte list \<Rightarrow> byte list \<Rightarrow> message" where
  "published topic payload = \<lparr>Topic = c_string topic, Payload = payload\<rparr>"

lemma c_limits_published:
  "length (cstr topic) < 256 \<Longrightarrow> length payload \<le> 512 \<Longrightarrow> c_limits (published topic payload)"
  by (simp add: c_limits_def published_def c_string_def)

lemma tx_room:
  assumes "qdp_ok q"
  shows "buffer_ok (qdp_buffer_reset (q_tx q))" and "n \<le> 10240 \<Longrightarrow> qdp_buffer_can_write (qdp_buffer_reset (q_tx q)) n"
  using assms by (simp_all add: qdp_ok_def qdp_buffer_can_write_def qdp_buffer_reset_def buffer_ok_def)

lemma publish_frame:
  assumes "qdp_ok q" and "length (cstr topic) < 256" and "length payload \<le> 512"
  shows "publish_message qdp_crc32_init (outgoing topic payload) (q\<lparr>q_tx := qdp_buffer_reset (q_tx q)\<rparr>) =
     send_tx (q\<lparr>q_tx := appended (qdp_buffer_reset (q_tx q)) (wire (published topic payload))\<rparr>)"
proof -
  let ?m = "published topic payload"
  have lim: "c_limits ?m"
    using assms(2,3) by (rule c_limits_published)
  have "topic_array topic = string_bytes (Topic ?m) @ replicate (256 - length (cstr topic)) 0"
    using assms(2) by (simp add: topic_array_def published_def c_string_def)
  moreover have "qdp_buffer_can_write (qdp_buffer_reset (q_tx q)) (length (wire ?m))"
    using lim by (intro tx_room [OF assms(1)]) (simp add: c_limits_def)
  ultimately have "qdp_message_write qdp_crc32_init (qdp_buffer_reset (q_tx q)) (outgoing topic payload) =
      Some (True, appended (qdp_buffer_reset (q_tx q)) (wire ?m))"
    using lim c_limits_fits [OF lim]
    by (intro write_frame_c [where rp = "replicate (512 - length payload) 0"])
      (simp_all add: tx_room [OF assms(1)] outgoing_def, simp_all add: published_def c_string_def c_limits_def)
  then show ?thesis
    by (simp add: publish_message_def)
qed

lemma contents_sent:
  assumes "qdp_ok q" and "length bs \<le> 10240"
  shows "contents (appended (qdp_buffer_reset (q_tx q)) bs) = bs"
  using assms contents_appended [of "qdp_buffer_reset (q_tx q)" bs]
  by (simp add: qdp_ok_def buffer_ok_def qdp_buffer_reset_def contents_def)

text \<open>A topic that does not fit its array: its length goes to the frame all the same.\<close>

lemma publish_long_topic:
  assumes "qdp_ok q" and "256 < length (cstr topic)" and "length payload \<le> 512" and "length (cstr topic) < 2 ^ 32"
  shows "publish_message tab (outgoing topic payload) (q\<lparr>q_tx := qdp_buffer_reset (q_tx q)\<rparr>) =
     (if 12 + length (cstr topic) + length payload \<le> 10240 then None
      else Some (- 1, q\<lparr>q_tx := qdp_buffer_reset (q_tx q)\<rparr>))"
proof (cases "12 + length (cstr topic) + length payload \<le> 10240")
  case True
  then have "qdp_message_write tab (qdp_buffer_reset (q_tx q)) (outgoing topic payload) = None"
    using assms tx_room [OF assms(1)]
    by (intro qdp_message_write_undefined) (simp_all add: outgoing_def)
  then show ?thesis
    using True by (simp add: publish_message_def)
next
  case False
  have "\<not> qdp_buffer_can_write (qdp_buffer_reset (q_tx q)) (12 + length (cstr topic) + length payload)"
    using False assms(1) by (simp add: qdp_buffer_can_write_def qdp_ok_def qdp_buffer_reset_def)
  then have "qdp_message_write tab (qdp_buffer_reset (q_tx q)) (outgoing topic payload) = Some (False, qdp_buffer_reset (q_tx q))"
    using assms tx_room [OF assms(1)]
    by (intro qdp_message_write_full) (simp_all add: outgoing_def)
  then show ?thesis
    using False by (simp add: publish_message_def)
qed

section \<open>Processing\<close>

lemma qdp_message_clear_zero [simp]: "qdp_message_clear msg = zero_message"
  by (simp add: qdp_message_clear_def zero_message_def)

text \<open>The calls for one message: the entries whose pattern matches, in order.\<close>

definition deliveries :: "c_entry list \<Rightarrow> message \<Rightarrow> c_call list" where
  "deliveries es m =
     map (\<lambda>(p, fn, ctx). Call (the fn) ctx (c_message m zero_message)) (filter (\<lambda>(p, fn, ctx). c_match p (Topic m)) es)"

definition c_deliverable :: "message \<Rightarrow> bool" where
  "c_deliverable m \<longleftrightarrow> c_limits m \<and> CHR 0x00 \<notin> set (Topic m)"

definition callable :: "qdp_subscription list \<Rightarrow> bool" where
  "callable subs \<longleftrightarrow> (\<forall>s \<in> set subs. slot_ok s \<and> csub_fn s \<noteq> None)"

lemma c_message_topic:
  assumes "c_deliverable m"
  shows "terminated (hdr_topic (msg_header (c_message m msg)))"
    and "c_string (hdr_topic (msg_header (c_message m msg))) = Topic m"
  using assms cstr_append_zero [of "string_bytes (Topic m)"]
  by (simp_all add: c_message_def read_fields_def c_string_def c_deliverable_def zero_in_string_bytes)

lemma dispatch_deliveries:
  assumes "callable subs" and "c_deliverable m"
  shows "dispatch_message subs (c_message m zero_message) = Some (deliveries (map entry subs) m)"
  using assms(1)
proof (induction subs)
  case (Cons s subs)
  have "terminated (csub_topic s)"
    using Cons.prems slot_ok_terminated by (simp add: callable_def)
  then have "qdp_topic_matches (csub_topic s) (hdr_topic (msg_header (c_message m zero_message))) =
      Some (c_match (c_string (csub_topic s)) (Topic m))"
    using c_message_topic [OF assms(2)] qdp_topic_matches_c_match by simp
  moreover have "dispatch_message subs (c_message m zero_message) = Some (deliveries (map entry subs) m)"
    using Cons by (simp add: callable_def)
  ultimately show ?case
    using Cons.prems by (auto simp: callable_def deliveries_def entry_def [of s])
qed (simp add: deliveries_def)

lemma process_end:
  "buf_size rx \<le> buf_position rx \<Longrightarrow> process_messages tab subs rx msg = Some (rx, [])"
  by (subst process_messages.simps) (simp add: qdp_stream_next_message_def)

lemma process_rejected:
  assumes "buf_position rx < buf_size rx" and "qdp_message_read tab rx msg = Some (False, rx', msg')"
  shows "process_messages tab subs rx msg = Some (rx', [])"
  using assms by (subst process_messages.simps) (simp add: qdp_stream_next_message_def)

text \<open>A frame at the position is dispatched, and the loop goes on behind it.\<close>

lemma process_frame:
  assumes "callable subs" and "c_deliverable m"
    and "drop (buf_position rx) (buf_data rx) = wire m @ rest"
    and "buf_position rx + 8 \<le> buf_size rx" and "length (wire m) \<le> buf_size rx"
  shows "process_messages qdp_crc32_init subs rx zero_message =
     map_option (map_prod (\<lambda>rx. rx) (append (deliveries (map entry subs) m)))
       (process_messages qdp_crc32_init subs (rx\<lparr>buf_position := buf_position rx + length (wire m)\<rparr>) zero_message)"
proof -
  have "c_limits m"
    using assms(2) by (simp add: c_deliverable_def)
  then have "qdp_stream_next_message qdp_crc32_init rx zero_message =
      Some (True, rx\<lparr>buf_position := buf_position rx + length (wire m)\<rparr>, c_message m zero_message)"
    using read_frame [OF message_ok_zero _ assms(3-5)] assms(4) by (simp add: qdp_stream_next_message_def)
  then show ?thesis
    using dispatch_deliveries [OF assms(1,2)]
    by (subst process_messages.simps) (auto split: option.split)
qed

lemma drop_after_prefix: "drop p d = xs @ ys \<Longrightarrow> drop (p + length xs) d = ys"
  by (metis add.commute append_eq_conv_conj drop_drop)

lemma process_frames:
  assumes "callable subs" and "\<forall>m \<in> set ms. c_deliverable m"
    and "drop (buf_position rx) (buf_data rx) = concat (map wire ms) @ rest"
    and "buf_position rx + length (concat (map wire ms)) \<le> buf_size rx"
  shows "process_messages qdp_crc32_init subs rx zero_message =
     map_option (map_prod (\<lambda>rx. rx) (append (concat (map (deliveries (map entry subs)) ms))))
       (process_messages qdp_crc32_init subs
         (rx\<lparr>buf_position := buf_position rx + length (concat (map wire ms))\<rparr>) zero_message)"
  using assms(2-4)
proof (induction ms arbitrary: rx)
  case Nil
  have "map_prod (\<lambda>rx. rx) (append []) = (\<lambda>x. x)"
    by (simp add: fun_eq_iff map_prod_def split_beta)
  then show ?case
    by (simp add: option.map_ident)
next
  case (Cons m ms)
  let ?rx = "rx\<lparr>buf_position := buf_position rx + length (wire m)\<rparr>"
  have "drop (buf_position rx) (buf_data rx) = wire m @ (concat (map wire ms) @ rest)"
    using Cons.prems(2) by simp
  moreover from this have "drop (buf_position ?rx) (buf_data ?rx) = concat (map wire ms) @ rest"
    by (simp add: drop_after_prefix del: length_wire)
  ultimately show ?case
    using Cons.IH [of ?rx] Cons.prems process_frame [OF assms(1), of m rx]
    by (simp add: add.assoc option.map_comp comp_def prod.map_comp)
qed

text \<open>The transport delivers the buffer \<open>rx\<close>: \<open>recv\<close> returns 0 and leaves a well-formed buffer, to be read
  from its start.\<close>

definition receives :: "'t qdp \<Rightarrow> qdp_buffer \<Rightarrow> bool" where
  "receives q rx \<longleftrightarrow>
     (\<exists>tr recv ctx. q_transport q = Some tr \<and> tr_recv tr = Some recv \<and>
        recv (qdp_buffer_reset (q_rx q)) (tr_ctx tr) = Some (0, rx, ctx)) \<and>
     buffer_ok rx \<and> buf_capacity rx = QDP_MAX_BUFFER_CAPACITY \<and> buf_position rx = 0"

lemma process_received:
  assumes "qdp_ok q" and "receives q rx"
  shows "\<exists>tr. \<forall>tab. qdp_process tab q =
     map_option (\<lambda>(rx', calls). (0, q\<lparr>q_rx := rx', q_transport := Some tr\<rparr>, calls))
       (process_messages tab (active q) rx zero_message)"
proof -
  obtain tr recv ctx where tr: "q_transport q = Some tr" "tr_recv tr = Some recv"
      "recv (qdp_buffer_reset (q_rx q)) (tr_ctx tr) = Some (0, rx, ctx)"
    using assms(2) by (auto simp: receives_def)
  have subs: "array_read (q_subs q) 0 (unat (q_sub_count q)) = Some (active q)"
    using assms(1) by (simp add: array_read_def qdp_ok_def active_def)
  have "qdp_process tab q = map_option (\<lambda>(rx', calls). (0, q\<lparr>q_rx := rx', q_transport := Some (tr\<lparr>tr_ctx := ctx\<rparr>)\<rparr>, calls))
       (process_messages tab (active q) rx zero_message)" for tab
  proof (cases "buf_size rx = 0")
    case True
    then show ?thesis
      using tr process_end [of rx] by (simp add: qdp_process_def qdp_stream_begin_message_def Let_def)
  next
    case False
    then show ?thesis
      using tr subs
      by (cases "process_messages tab (active q) rx zero_message")
        (auto simp: qdp_process_def qdp_stream_begin_message_def Let_def)
  qed
  then show ?thesis
    by blast
qed

lemma received_start:
  assumes "receives q rx" and "contents rx = bs @ tail"
  shows "\<exists>rest. drop (buf_position rx) (buf_data rx) = bs @ tail @ rest" and "buf_size rx = length bs + length tail"
proof -
  have "buf_data rx = contents rx @ drop (buf_size rx) (buf_data rx)"
    by (simp add: contents_def)
  then show "\<exists>rest. drop (buf_position rx) (buf_data rx) = bs @ tail @ rest"
    using assms by (metis append_assoc drop0 receives_def)
  show "buf_size rx = length bs + length tail"
  proof -
    have "length (contents rx) = buf_size rx"
      using assms(1) by (simp add: contents_def receives_def buffer_ok_def)
    then show ?thesis
      by (simp add: assms(2))
  qed
qed

text \<open>The context after a successful receive.\<close>

lemma received_ok:
  assumes "qdp_ok q" and "receives q rx"
  shows "qdp_ok (q\<lparr>q_rx := rx\<lparr>buf_position := n\<rparr>, q_transport := tr\<rparr>)"
    and "entries (q\<lparr>q_rx := rx', q_transport := tr\<rparr>) = entries q"
  using assms by (simp_all add: qdp_ok_def receives_def buffer_ok_def entries_def active_def)

lemma process_prefix:
  assumes "qdp_ok q" and "callable (active q)" and "receives q rx" and "contents rx = concat (map wire ms) @ tail"
    and "\<forall>m \<in> set ms. c_deliverable m"
    and "\<And>rest. drop (length (concat (map wire ms))) (buf_data rx) = tail @ rest \<Longrightarrow>
       process_messages qdp_crc32_init (active q) (rx\<lparr>buf_position := length (concat (map wire ms))\<rparr>) zero_message =
         Some (rx\<lparr>buf_position := n\<rparr>, calls)"
  shows "\<exists>q'. qdp_process qdp_crc32_init q = Some (0, q', concat (map (deliveries (entries q)) ms) @ calls) \<and>
     qdp_ok q' \<and> entries q' = entries q"
proof -
  obtain rest where d: "drop (buf_position rx) (buf_data rx) = concat (map wire ms) @ tail @ rest"
    using received_start(1) [OF assms(3,4)] by blast
  have p: "buf_position rx = 0"
    using assms(3) by (simp add: receives_def)
  have "drop (length (concat (map wire ms))) (buf_data rx) = tail @ rest"
    using drop_after_prefix [OF d] p by simp
  then have "process_messages qdp_crc32_init (active q) rx zero_message =
      Some (rx\<lparr>buf_position := n\<rparr>, concat (map (deliveries (entries q)) ms) @ calls)"
    using process_frames [OF assms(2,5) d] assms(6) received_start(2) [OF assms(3,4)] p by (simp add: entries_def)
  moreover obtain tr where "\<forall>tab. qdp_process tab q =
     map_option (\<lambda>(rx', calls). (0, q\<lparr>q_rx := rx', q_transport := Some tr\<rparr>, calls))
       (process_messages tab (active q) rx zero_message)"
    using process_received [OF assms(1,3)] by blast
  ultimately show ?thesis
    using received_ok [OF assms(1,3)] by simp
qed

section \<open>A transport for concrete runs\<close>

text \<open>The test's loop-back transport with a queue of buffers: \<open>send\<close> adds one, \<open>recv\<close> takes the first.\<close>

definition line_send :: "byte list list c_transfer" where
  "line_send buf ctx = Some (0, buf, ctx @ [contents buf])"

definition line_recv :: "byte list list c_transfer" where
  "line_recv buf ctx = (case ctx of [] \<Rightarrow> Some (0, buf, []) | s # ss \<Rightarrow> Some (0, appended buf s, ss))"

definition line_transport :: "byte list list \<Rightarrow> byte list list qdp_transport" where
  "line_transport ss = \<lparr>tr_send = Some line_send, tr_recv = Some line_recv, tr_ctx = ss\<rparr>"

definition line_context :: "qdp_subscription list \<Rightarrow> byte list list \<Rightarrow> byte list list qdp" where
  "line_context subs ss =
     \<lparr>q_transport = Some (line_transport ss),
      q_subs = subs @ replicate (QDP_MAX_SUBSCRIPTIONS - length subs) empty_slot,
      q_sub_count = word_of_nat (length subs),
      q_rx = qdp_buffer_create (replicate QDP_MAX_BUFFER_CAPACITY 0) QDP_MAX_BUFFER_CAPACITY,
      q_tx = qdp_buffer_create (replicate QDP_MAX_BUFFER_CAPACITY 0) QDP_MAX_BUFFER_CAPACITY\<rparr>"

text \<open>One subscription, as \<open>qdp_subscribe\<close> stores it.\<close>

definition demo_slot :: qdp_subscription where
  "demo_slot = \<lparr>csub_topic = string_bytes ''a/+'' @ replicate 253 0, csub_fn = Some 1, csub_ctx = 2\<rparr>"

lemma line_context_ok:
  "length subs \<le> 64 \<Longrightarrow> \<forall>s \<in> set subs. slot_ok s \<Longrightarrow> qdp_ok (line_context subs ss)"
  "length subs \<le> 64 \<Longrightarrow> active (line_context subs ss) = subs"
  by (auto simp: line_context_def qdp_ok_def active_def slot_ok_def empty_slot_def buffer_ok_def qdp_buffer_create_def)

lemma demo_slot_ok: "callable [demo_slot]" "slot_ok demo_slot" "entry demo_slot = (''a/+'', Some 1, 2)"
proof -
  have "cstr (string_bytes ''a/+'' @ replicate 253 0) = string_bytes ''a/+''"
    by (subst cstr_append) (simp_all add: zero_in_string_bytes cstr_replicate_zero [of 253 "[]", simplified])
  then show "entry demo_slot = (''a/+'', Some 1, 2)"
    by (simp add: demo_slot_def entry_def c_string_def del: cstr_simps)
  show "slot_ok demo_slot"
    by (simp add: slot_ok_def demo_slot_def nth_append)
  then show "callable [demo_slot]"
    by (simp add: callable_def demo_slot_def)
qed

lemma line_receives:
  assumes "qdp_ok q" and "q_transport q = Some (line_transport (s # ss))" and "length s \<le> 10240"
  shows "receives q (appended (qdp_buffer_reset (q_rx q)) s)"
    and "contents (appended (qdp_buffer_reset (q_rx q)) s) = s"
    and "buf_data (appended (qdp_buffer_reset (q_rx q)) s) = s @ drop (length s) (buf_data (q_rx q))"
    and "buf_size (appended (qdp_buffer_reset (q_rx q)) s) = length s"
proof -
  have rx: "length (buf_data (q_rx q)) = 10240" "buf_capacity (q_rx q) = 10240"
    using assms(1) by (simp_all add: qdp_ok_def buffer_ok_def)
  show "receives q (appended (qdp_buffer_reset (q_rx q)) s)"
    using assms(2,3) rx
    by (simp add: receives_def line_transport_def line_recv_def buffer_ok_def appended_def qdp_buffer_reset_def)
  show "contents (appended (qdp_buffer_reset (q_rx q)) s) = s"
    and "buf_data (appended (qdp_buffer_reset (q_rx q)) s) = s @ drop (length s) (buf_data (q_rx q))"
    and "buf_size (appended (qdp_buffer_reset (q_rx q)) s) = length s"
    by (simp_all add: contents_def appended_def qdp_buffer_reset_def)
qed

lemma line_process:
  assumes "qdp_ok q" and "q_transport q = Some (line_transport (s # ss))"
    and "process_messages tab (active q) (appended (qdp_buffer_reset (q_rx q)) s) zero_message = Some (rx, calls)"
  shows "qdp_process tab q = Some (0, q\<lparr>q_rx := rx, q_transport := Some (line_transport ss)\<rparr>, calls)"
proof -
  have "array_read (q_subs q) 0 (unat (q_sub_count q)) = Some (active q)"
    using assms(1) by (simp add: array_read_def qdp_ok_def active_def)
  moreover have "rx = appended (qdp_buffer_reset (q_rx q)) s \<and> calls = []"
    if "buf_size (appended (qdp_buffer_reset (q_rx q)) s) = 0"
    using that assms(3) process_end [of "appended (qdp_buffer_reset (q_rx q)) s"] by simp
  ultimately show ?thesis
    using assms(2,3)
    by (simp add: qdp_process_def qdp_stream_begin_message_def Let_def line_transport_def line_recv_def)
qed

definition a_msg :: message where
  "a_msg = \<lparr>Topic = ''a/b'', Payload = [1, 2]\<rparr>"

definition big_msg :: message where
  "big_msg = \<lparr>Topic = ''a/c'', Payload = replicate 600 7\<rparr>"

lemma demo_messages: "c_deliverable a_msg" "length (wire a_msg) = 17" "wire_fits big_msg" "length (wire big_msg) = 615"
  by (simp_all add: c_deliverable_def c_limits_def a_msg_def big_msg_def wire_fits_def)

lemma demo_deliveries: "deliveries [entry demo_slot] a_msg = [Call 1 2 (c_message a_msg zero_message)]"
  by (simp add: deliveries_def demo_slot_ok(3) a_msg_def)

section \<open>Properties\<close>

text \<open>C12. The subscription table refines a list: after any sequence of \<open>qdp_subscribe\<close> and
  \<open>qdp_unsubscribe\<close> the active slots are the list of entries that the requests describe (append while there
  are fewer than 64, drop every entry with the pattern, patterns cut to 255 characters), the results of
  the calls are those of the list, every string stays terminated, and no access leaves an array.\<close>

theorem qdp_subscriptions_refine:
  assumes "qdp_ok q" and "\<forall>r \<in> set rs. terminated (request_pattern r)"
  shows "\<exists>oks q'. run_requests qdp_subscribe qdp_unsubscribe rs q = Some (oks, q') \<and> qdp_ok q' \<and>
     (oks, entries q') = requests_spec 64 255 rs (entries q)"
  using assms by (rule c_table.requests_refine)

theorem qdp_subscriptions_refine_witness:
  "\<exists>q'. run_requests qdp_subscribe qdp_unsubscribe
       [Sub (c_literal ''a'') (Some 1) 0, Sub (c_literal ''b'') (Some 2) 0, Sub (c_literal ''a'') (Some 3) 0,
        Unsub (c_literal ''a'')] (line_context [] []) = Some ([True, True, True], q') \<and>
     entries q' = [(''b'', Some 2, 0)]"
proof -
  have "qdp_ok (line_context [] [])" "entries (line_context [] []) = []"
    using line_context_ok [of "[]" "[]"] by (simp_all add: entries_def)
  then show ?thesis
    using qdp_subscriptions_refine [of "line_context [] []" "[Sub (c_literal ''a'') (Some 1) 0,
       Sub (c_literal ''b'') (Some 2) 0, Sub (c_literal ''a'') (Some 3) 0, Unsub (c_literal ''a'')]"]
    by auto
qed

text \<open>C13. What is published is what a Go peer decodes: for a topic that fits its array and a payload of at
  most 512 bytes, both publishing functions put exactly the frame of the message into the transmit buffer
  and hand it to the transport, whose result they return; the Go library's \<open>Decode\<close> of these bytes
  gives topic and payload back.\<close>

theorem qdp_publish_frame:
  assumes "qdp_ok q" and "terminated topic" and "length (cstr topic) < 256"
    and "len \<le> 512" "len \<le> length data" and "terminated str" "length (cstr str) \<le> 512"
  shows "(\<exists>tx. qdp_publish_bytes qdp_crc32_init topic data len q = send_tx (q\<lparr>q_tx := tx\<rparr>) \<and>
       Decode (contents tx) = Ret (Inr \<lparr>Topic = c_string topic, Payload = take len data\<rparr>)) \<and>
     (\<exists>tx. qdp_publish_string qdp_crc32_init topic str q = send_tx (q\<lparr>q_tx := tx\<rparr>) \<and>
       Decode (contents tx) = Ret (Inr \<lparr>Topic = c_string topic, Payload = cstr str\<rparr>))"
proof -
  have sent: "\<exists>tx. publish_message qdp_crc32_init (outgoing topic pl) (q\<lparr>q_tx := qdp_buffer_reset (q_tx q)\<rparr>) =
        send_tx (q\<lparr>q_tx := tx\<rparr>) \<and> Decode (contents tx) = Ret (Inr \<lparr>Topic = c_string topic, Payload = pl\<rparr>)"
    if "length pl \<le> 512" for pl
  proof -
    have lim: "c_limits (published topic pl)"
      using c_limits_published [OF assms(3) that] .
    then have "contents (appended (qdp_buffer_reset (q_tx q)) (wire (published topic pl))) = wire (published topic pl)"
      by (intro contents_sent [OF assms(1)]) (simp add: c_limits_def)
    then show ?thesis
      using publish_frame [OF assms(1,3) that] Decode_wire [OF c_limits_fits [OF lim]] by (auto simp: published_def)
  qed
  have "length (take len data) \<le> 512"
    using assms(4) by simp
  then show ?thesis
    unfolding publish_bytes_outgoing [OF assms(2,4,5)] publish_string_outgoing [OF assms(2,6,7)]
    using sent [OF assms(7)] sent by blast
qed

theorem qdp_publish_frame_witness:
  "\<exists>q'. qdp_publish_string qdp_crc32_init (c_literal ''a/b'') (c_literal ''hi'') (line_context [] []) = Some (0, q') \<and>
     q_transport q' = Some (line_transport [wire \<lparr>Topic = ''a/b'', Payload = string_bytes ''hi''\<rparr>])"
proof -
  have ok: "qdp_ok (line_context [] [])"
    using line_context_ok [of "[]" "[]"] by simp
  have s: "cstr (c_literal ''a/b'') = string_bytes ''a/b''" "cstr (c_literal ''hi'') = string_bytes ''hi''"
    by (simp_all add: c_literal_def cstr_append_zero zero_in_string_bytes del: cstr_simps)
  obtain tx where tx: "qdp_publish_string qdp_crc32_init (c_literal ''a/b'') (c_literal ''hi'') (line_context [] []) =
       send_tx ((line_context [] [])\<lparr>q_tx := tx\<rparr>)"
     "Decode (contents tx) = Ret (Inr \<lparr>Topic = ''a/b'', Payload = string_bytes ''hi''\<rparr>)"
    using qdp_publish_frame [OF ok, of "c_literal ''a/b''" 0 "[]" "c_literal ''hi''"] by (auto simp: s)
  have "publish_message qdp_crc32_init (outgoing (c_literal ''a/b'') (string_bytes ''hi''))
      ((line_context [] [])\<lparr>q_tx := qdp_buffer_reset (q_tx (line_context [] []))\<rparr>) =
      send_tx ((line_context [] [])\<lparr>q_tx := appended (qdp_buffer_reset (q_tx (line_context [] [])))
        (wire (published (c_literal ''a/b'') (string_bytes ''hi'')))\<rparr>)"
    by (rule publish_frame [OF ok]) (simp_all add: s)
  then show ?thesis
    using tx contents_sent [OF ok, of "wire (published (c_literal ''a/b'') (string_bytes ''hi''))"]
      publish_string_outgoing [of "c_literal ''a/b''" "c_literal ''hi''" qdp_crc32_init "line_context [] []"]
    by (simp add: s send_tx_def line_context_def line_transport_def line_send_def published_def)
qed

text \<open>A topic that is too long: with 257 bytes or more (and a frame that fits the buffer) both functions
  read behind the topic array; when the frame does not fit they return -1 and send nothing. A payload of
  more than 512 bytes is refused with -1 in any case.\<close>

theorem qdp_publish_long_topic:
  assumes "qdp_ok q" and "terminated topic" and "256 < length (cstr topic)" and "length (cstr topic) < 2 ^ 32"
    and "len \<le> length data"
  shows "qdp_publish_bytes tab topic data len q =
     (if 512 < len then Some (- 1, q)
      else if 12 + length (cstr topic) + len \<le> 10240 then None
      else Some (- 1, q\<lparr>q_tx := qdp_buffer_reset (q_tx q)\<rparr>))"
proof (cases "512 < len")
  case True
  then show ?thesis
    by (simp add: qdp_publish_bytes_def)
next
  case False
  then show ?thesis
    using publish_long_topic [OF assms(1,3) _ assms(4), of "take len data" tab] publish_bytes_outgoing [OF assms(2) _ assms(5), of tab q]
      assms(5) by simp
qed

theorem qdp_publish_long_topic_witness:
  "qdp_publish_bytes qdp_crc32_init (replicate 300 97 @ [0]) [] 0 (line_context [] []) = None"
proof -
  have "cstr (replicate 300 97 @ [0 :: byte]) = replicate 300 97"
    by (rule cstr_append_zero) simp
  then show ?thesis
    using qdp_publish_long_topic [of "line_context [] []" "replicate 300 97 @ [0]" 0 "[]" qdp_crc32_init]
      line_context_ok [of "[]" "[]"] by simp
qed

text \<open>C14. Dispatch: when the transport delivers a sequence of whole frames that fit the arrays,
  \<open>qdp_process\<close> returns 0 and calls, for the messages in their order, exactly the callbacks whose pattern
  matches, in the order of the table, each with the fields of the frame; the table is unchanged.\<close>

theorem qdp_process_dispatches:
  assumes "qdp_ok q" and "callable (active q)" and "receives q rx" and "contents rx = concat (map wire ms)"
    and "\<forall>m \<in> set ms. c_deliverable m"
  shows "\<exists>q'. qdp_process qdp_crc32_init q = Some (0, q', concat (map (deliveries (entries q)) ms)) \<and>
     qdp_ok q' \<and> entries q' = entries q"
proof -
  have c: "contents rx = concat (map wire ms) @ []"
    using assms(4) by simp
  have "\<exists>q'. qdp_process qdp_crc32_init q = Some (0, q', concat (map (deliveries (entries q)) ms) @ []) \<and>
     qdp_ok q' \<and> entries q' = entries q"
    using received_start(2) [OF assms(3) c]
    by (intro process_prefix [OF assms(1-3) c assms(5), where n = "length (concat (map wire ms))"])
      (simp add: process_end)
  then show ?thesis
    by simp
qed

theorem qdp_process_dispatches_witness:
  "\<exists>q'. qdp_process qdp_crc32_init (line_context [demo_slot] [wire a_msg @ wire a_msg]) =
     Some (0, q', [Call 1 2 (c_message a_msg zero_message), Call 1 2 (c_message a_msg zero_message)])"
proof -
  let ?q = "line_context [demo_slot] [wire a_msg @ wire a_msg]"
  have q: "qdp_ok ?q" "active ?q = [demo_slot]" "entries ?q = [entry demo_slot]"
    using line_context_ok [of "[demo_slot]"] demo_slot_ok by (simp_all add: entries_def)
  have tr: "q_transport ?q = Some (line_transport [wire a_msg @ wire a_msg])"
    by (simp add: line_context_def)
  note r = line_receives [OF q(1) tr]
  have "contents (appended (qdp_buffer_reset (q_rx ?q)) (wire a_msg @ wire a_msg)) = concat (map wire [a_msg, a_msg])"
    using r(2) demo_messages by simp
  from qdp_process_dispatches [OF q(1) _ r(1) this] show ?thesis
    using q demo_slot_ok demo_messages demo_deliveries by auto
qed

text \<open>A message the C arrays cannot hold is refused right after its header.\<close>

lemma read_oversized:
  assumes "wire_fits m" and "256 < length (Topic m) \<or> 512 < length (Payload m)"
    and "drop (buf_position buf) (buf_data buf) = wire m @ rest" and "buf_position buf + 8 \<le> buf_size buf"
  shows "\<exists>msg'. qdp_message_read tab buf msg = Some (False, buf\<lparr>buf_position := buf_position buf + 8\<rparr>, msg')"
proof -
  have "unat (word_of_nat (length (Topic m)) :: u32) = length (Topic m)"
    "unat (word_of_nat (length (Payload m)) :: u32) = length (Payload m)"
    using assms(1) by (simp_all add: wire_fits_def)
  then show ?thesis
    using read_refused [OF assms(4) wire_parts(1) [OF assms(3)]] assms(2) by auto
qed

text \<open>One frame too large for the C arrays (a Go peer may send payloads of up to 1024 bytes) ends the
  processing: the messages before it are dispatched, the frame and everything received behind it are
  discarded, and \<open>qdp_process\<close> still returns 0.\<close>

theorem oversized_frame_discards_rest:
  assumes "qdp_ok q" and "callable (active q)" and "receives q rx"
    and "contents rx = concat (map wire ms) @ wire big @ concat (map wire lost)"
    and "\<forall>m \<in> set ms. c_deliverable m" and "wire_fits big" and "256 < length (Topic big) \<or> 512 < length (Payload big)"
  shows "\<exists>q'. qdp_process qdp_crc32_init q = Some (0, q', concat (map (deliveries (entries q)) ms)) \<and> qdp_ok q'"
proof -
  let ?n = "length (concat (map wire ms))"
  have "\<exists>q'. qdp_process qdp_crc32_init q = Some (0, q', concat (map (deliveries (entries q)) ms) @ []) \<and>
     qdp_ok q' \<and> entries q' = entries q"
  proof (rule process_prefix [OF assms(1-5), where n = "?n + 8"])
    fix rest
    assume "drop ?n (buf_data rx) = (wire big @ concat (map wire lost)) @ rest"
    then have "\<exists>msg'. qdp_message_read qdp_crc32_init (rx\<lparr>buf_position := ?n\<rparr>) zero_message =
        Some (False, rx\<lparr>buf_position := ?n + 8\<rparr>, msg')"
      using read_oversized [OF assms(6,7), of "rx\<lparr>buf_position := ?n\<rparr>"] received_start(2) [OF assms(3,4)] by auto
    then show "process_messages qdp_crc32_init (active q) (rx\<lparr>buf_position := ?n\<rparr>) zero_message =
        Some (rx\<lparr>buf_position := ?n + 8\<rparr>, [])"
      using process_rejected [of "rx\<lparr>buf_position := ?n\<rparr>"] received_start(2) [OF assms(3,4)] by auto
  qed
  then show ?thesis
    by auto
qed

theorem oversized_frame_discards_rest_witness:
  "\<exists>q'. qdp_process qdp_crc32_init (line_context [demo_slot] [wire a_msg @ wire big_msg @ wire a_msg]) =
     Some (0, q', [Call 1 2 (c_message a_msg zero_message)])"
proof -
  let ?s = "wire a_msg @ wire big_msg @ wire a_msg"
  let ?q = "line_context [demo_slot] [?s]"
  have q: "qdp_ok ?q" "active ?q = [demo_slot]" "entries ?q = [entry demo_slot]"
    using line_context_ok [of "[demo_slot]"] demo_slot_ok by (simp_all add: entries_def)
  have tr: "q_transport ?q = Some (line_transport [?s])"
    by (simp add: line_context_def)
  note r = line_receives [OF q(1) tr]
  have "contents (appended (qdp_buffer_reset (q_rx ?q)) ?s) =
      concat (map wire [a_msg]) @ wire big_msg @ concat (map wire [a_msg])"
    using r(2) demo_messages by simp
  from oversized_frame_discards_rest [OF q(1) _ r(1) this] show ?thesis
    using q demo_slot_ok demo_messages demo_deliveries by (auto simp: big_msg_def)
qed

text \<open>A frame that has not arrived completely is dropped with the buffer: no callback is made, and the next
  call begins with an empty buffer.\<close>

lemma qdp_process_drops_partial:
  assumes "qdp_ok q" and "callable (active q)" and "receives q rx" and "wire_fits m"
    and "wire m = contents rx @ missing" and "missing \<noteq> []"
  shows "\<exists>q'. qdp_process qdp_crc32_init q = Some (0, q', []) \<and> qdp_ok q'"
proof -
  have c: "contents rx = concat (map wire []) @ contents rx"
    by simp
  have size: "buf_size rx = length (contents rx)" and p: "buf_position rx = 0"
    using received_start(2) [OF assms(3) c] assms(3) by (simp_all add: receives_def)
  have len: "buf_size rx < 12 + length (Topic m) + length (Payload m)"
    using arg_cong [OF assms(5), of length] assms(6) size by simp
  have "\<exists>n. process_messages qdp_crc32_init (active q) rx zero_message = Some (rx\<lparr>buf_position := n\<rparr>, [])"
  proof (cases "buf_size rx < 8")
    case True
    have "rx\<lparr>buf_position := 0\<rparr> = rx"
      using p by simp
    moreover have "process_messages qdp_crc32_init (active q) rx zero_message = Some (rx, [])"
      using process_end [of rx] process_rejected [of rx] read_short [of rx] True p
      by (cases "buf_size rx = 0") auto
    ultimately show ?thesis
      by metis
  next
    case False
    have "take 8 (contents rx) = take 8 (buf_data rx)"
      using False by (simp add: contents_def min_def)
    moreover have "take 8 (wire m) = take 8 (contents rx)"
      using False size unfolding assms(5) by simp
    ultimately have "take 8 (drop (buf_position rx) (buf_data rx)) = take 8 (wire m)"
      using p by simp
    also have "\<dots> = le_bytes (word_of_nat (length (Topic m))) @ le_bytes (word_of_nat (length (Payload m)))"
      using wire_parts(1) [of 0 "wire m" m "[]"] by simp
    finally have "qdp_message_read qdp_crc32_init rx zero_message =
        Some (False, rx\<lparr>buf_position := 8\<rparr>, read_header (word_of_nat (length (Topic m))) (word_of_nat (length (Payload m))) zero_message)"
      using read_refused [of rx "word_of_nat (length (Topic m))" "word_of_nat (length (Payload m))"] False len p assms(4)
      by (simp add: wire_fits_def)
    then show ?thesis
      using process_rejected [of rx] False p by auto
  qed
  then obtain n where "process_messages qdp_crc32_init (active q) rx zero_message = Some (rx\<lparr>buf_position := n\<rparr>, [])"
    by blast
  moreover have "rx\<lparr>buf_position := 0\<rparr> = rx"
    using p by simp
  ultimately show ?thesis
    using process_prefix [OF assms(1-3) c, of n "[]"] by auto
qed

text \<open>The check against \<open>size\<close> alone lets a frame pass of which only the header has arrived, when
  enough other bytes arrived before it.\<close>

lemma process_stale:
  assumes "callable subs" and "c_deliverable a" "c_deliverable b" and "buf_position rx = 0"
    and "buf_data rx = wire a @ wire b @ rest"
    and "length (wire a) + 8 \<le> buf_size rx" "buf_size rx < length (wire a) + length (wire b)"
    and "length (wire b) \<le> buf_size rx"
  shows "process_messages qdp_crc32_init subs rx zero_message =
     Some (rx\<lparr>buf_position := length (wire a) + length (wire b)\<rparr>,
       deliveries (map entry subs) a @ deliveries (map entry subs) b)"
proof -
  let ?rx1 = "rx\<lparr>buf_position := length (wire a)\<rparr>"
  let ?rx2 = "rx\<lparr>buf_position := length (wire a) + length (wire b)\<rparr>"
  have 0: "drop (buf_position rx) (buf_data rx) = wire a @ (wire b @ rest)"
    using assms(4,5) by simp
  have 1: "drop (buf_position ?rx1) (buf_data ?rx1) = wire b @ rest"
    using assms(5) by simp
  have "process_messages qdp_crc32_init subs ?rx2 zero_message = Some (?rx2, [])"
    using assms(7) by (intro process_end) simp
  then have "process_messages qdp_crc32_init subs ?rx1 zero_message = Some (?rx2, deliveries (map entry subs) b)"
    using process_frame [OF assms(1,3) 1] assms(6,8) by simp
  then show ?thesis
    using process_frame [OF assms(1,2) 0] assms(4,6) by simp
qed

text \<open>Stale data is delivered: when a receive ends inside the second frame, after its header, and the
  buffer still holds the rest of an earlier copy of that frame from a previous receive, \<open>qdp_process\<close>
  accepts the frame and calls its callbacks, although the bytes were not received again.\<close>

theorem stale_frame_is_delivered:
  assumes "qdp_ok q" and "callable (active q)" and "c_deliverable a" "c_deliverable b"
    and "q_transport q = Some (line_transport [wire a @ wire b, wire a @ take k (wire b)])"
    and "8 \<le> k" "k < length (wire b)" "length (wire b) \<le> length (wire a) + k"
  shows "\<exists>q1 q2. qdp_process qdp_crc32_init q = Some (0, q1, deliveries (entries q) a @ deliveries (entries q) b) \<and>
     qdp_process qdp_crc32_init q1 = Some (0, q2, deliveries (entries q) a @ deliveries (entries q) b)"
proof -
  let ?s = "wire a @ wire b" and ?s' = "wire a @ take k (wire b)"
  have len: "length ?s \<le> 10240" "length ?s' \<le> length ?s"
    using assms(3,4,7) by (simp_all add: c_deliverable_def c_limits_def)
  let ?rx = "appended (qdp_buffer_reset (q_rx q)) ?s"
  let ?q1 = "q\<lparr>q_rx := ?rx\<lparr>buf_position := length ?s\<rparr>, q_transport := Some (line_transport [?s'])\<rparr>"
  let ?calls = "deliveries (entries q) a @ deliveries (entries q) b"
  note r = line_receives [OF assms(1,5) len(1)]
  have "process_messages qdp_crc32_init (active q) ?rx zero_message = Some (?rx\<lparr>buf_position := length ?s\<rparr>, ?calls)"
    using process_frames [OF assms(2), of "[a, b]" ?rx "drop (length ?s) (buf_data (q_rx q))"] r(3,4) assms(3,4)
    by (simp add: process_end entries_def qdp_buffer_reset_def)
  then have 1: "qdp_process qdp_crc32_init q = Some (0, ?q1, ?calls)"
    by (rule line_process [OF assms(1,5)])
  have q1: "qdp_ok ?q1" "q_transport ?q1 = Some (line_transport [?s'])" "active ?q1 = active q"
    using received_ok(1) [OF assms(1) r(1)] by (simp_all add: active_def)
  let ?rx' = "appended (qdp_buffer_reset (q_rx ?q1)) ?s'"
  have "length ?s' \<le> 10240"
    using len by linarith
  note r' = line_receives [OF q1(1,2) this]
  have "take k (wire b) @ drop k (wire b) = wire b" "length (take k (wire b)) = k"
    using assms(7) by simp_all
  then have data: "buf_data ?rx' = wire a @ wire b @ drop (length ?s) (buf_data (q_rx q))"
    using r'(3) r(3) by simp
  have size: "buf_size ?rx' = length (wire a) + k"
    using r'(4) assms(7) by simp
  have "process_messages qdp_crc32_init (active q) ?rx' zero_message =
      Some (?rx'\<lparr>buf_position := length (wire a) + length (wire b)\<rparr>, ?calls)"
    unfolding entries_def using size assms(6-8)
    by (intro process_stale [OF assms(2-4) _ data]) (simp_all add: qdp_buffer_reset_def)
  then have "\<exists>q2. qdp_process qdp_crc32_init ?q1 = Some (0, q2, ?calls)"
    using line_process [OF q1(1,2), of qdp_crc32_init] unfolding q1(3) by blast
  then show ?thesis
    using 1 by blast
qed

theorem stale_frame_is_delivered_witness:
  "\<exists>q1 q2. qdp_process qdp_crc32_init (line_context [demo_slot] [wire a_msg @ wire a_msg, wire a_msg @ take 8 (wire a_msg)]) =
       Some (0, q1, replicate 2 (Call 1 2 (c_message a_msg zero_message))) \<and>
     qdp_process qdp_crc32_init q1 = Some (0, q2, replicate 2 (Call 1 2 (c_message a_msg zero_message)))"
proof -
  let ?q = "line_context [demo_slot] [wire a_msg @ wire a_msg, wire a_msg @ take 8 (wire a_msg)]"
  have q: "qdp_ok ?q" "active ?q = [demo_slot]" "entries ?q = [entry demo_slot]"
    using line_context_ok [of "[demo_slot]"] demo_slot_ok by (simp_all add: entries_def)
  have tr: "q_transport ?q = Some (line_transport [wire a_msg @ wire a_msg, wire a_msg @ take 8 (wire a_msg)])"
    by (simp add: line_context_def)
  have c: "callable (active ?q)"
    using q(2) demo_slot_ok(1) by simp
  show ?thesis
    using stale_frame_is_delivered [OF q(1) c demo_messages(1) demo_messages(1) tr] demo_messages(2)
    unfolding q(3) demo_deliveries by (simp add: numeral_2_eq_2 del: length_wire)
qed

text \<open>\<open>qdp_get_string\<close> returns a terminated string unless the payload fills its array.\<close>

lemma get_string_terminated:
  assumes "c_limits m" and "qdp_get_string (c_message m zero_message) = Some s"
  shows "terminated s \<longleftrightarrow> length (Payload m) < 512 \<or> 0 \<in> set (Payload m)"
  using assms
  by (auto simp: qdp_get_string_def c_message_def read_fields_def zero_message_def c_limits_def drop_replicate split: if_splits)

text \<open>\<open>qdp_message_calc_size\<close> is not the size of the frame: it counts the whole header structure.\<close>

lemma calc_size_not_frame:
  "c_limits m \<Longrightarrow> unat (qdp_message_calc_size (c_message m msg)) = 268 + length (Payload m)"
  using c_limits_unat(2) [of m]
  by (simp add: qdp_message_calc_size_def c_message_def read_fields_def c_limits_def unat_word_ariths)

end
