(* ===== verification/Qdp_C_Safety.thy ===== *)
theory Qdp_C_Safety
  imports Qdp_C_Flow
begin

text \<open>
  Any sequence of calls of the C library's public functions, as a step relation on the context: as long as
  no call is undefined and the transport functions respect the buffer they are given, the context stays
  well-formed, whatever is published, subscribed and received.
\<close>

section \<open>Steps\<close>

text \<open>What the library expects of a transport function: the buffer keeps its array and its capacity, and
  its size stays within it.\<close>

definition transfer_ok :: "'t c_transfer \<Rightarrow> bool" where
  "transfer_ok f \<longleftrightarrow> (\<forall>buf ctx err buf' ctx'. buffer_ok buf \<longrightarrow> f buf ctx = Some (err, buf', ctx') \<longrightarrow>
     buffer_ok buf' \<and> buf_capacity buf' = buf_capacity buf)"

definition transport_ok :: "'t qdp \<Rightarrow> bool" where
  "transport_ok q \<longleftrightarrow> (\<forall>tr. q_transport q = Some tr \<longrightarrow>
     (\<forall>f. tr_send tr = Some f \<or> tr_recv tr = Some f \<longrightarrow> transfer_ok f))"

inductive c_step :: "u32 list \<Rightarrow> 't qdp \<Rightarrow> 't qdp \<Rightarrow> bool" for tab where
  set_transport: "\<forall>f. send = Some f \<or> recv = Some f \<longrightarrow> transfer_ok f \<Longrightarrow>
    c_step tab q (qdp_set_transport send recv ctx q)"
| subscribe: "qdp_subscribe pattern fn ctx q = Some (ok, q') \<Longrightarrow> c_step tab q q'"
| unsubscribe: "qdp_unsubscribe pattern q = Some q' \<Longrightarrow> c_step tab q q'"
| publish_string: "qdp_publish_string tab topic str q = Some (res, q') \<Longrightarrow> c_step tab q q'"
| publish_bytes: "qdp_publish_bytes tab topic data len q = Some (res, q') \<Longrightarrow> c_step tab q q'"
| process: "qdp_process tab q = Some (res, q', calls) \<Longrightarrow> c_step tab q q'"

section \<open>What the calls keep\<close>

lemma strncpy_slot_ok:
  assumes "slot_ok s" and "strncpy (csub_topic s) pattern 255 = Some a"
  shows "length a = 256 \<and> a ! 255 = 0"
proof -
  obtain bs where bs: "strncpy_bytes pattern 255 = Some bs" "array_write (csub_topic s) 0 bs = Some a"
    using assms(2) by (auto simp: strncpy_def bind_eq_Some_conv)
  have "length bs = 255"
    using length_strncpy_bytes [OF bs(1)] .
  then have "a = bs @ drop 255 (csub_topic s)"
    using bs(2) by (simp add: array_write_def split: if_splits)
  moreover have "drop 255 (csub_topic s) = [0]"
    using assms(1) Cons_nth_drop_Suc [of 255 "csub_topic s"] by (simp add: slot_ok_def)
  ultimately show ?thesis
    using \<open>length bs = 255\<close> by (simp add: nth_append)
qed

lemma subscribe_keeps:
  assumes "qdp_ok q" and "qdp_subscribe pattern fn ctx q = Some (ok, q')"
  shows "qdp_ok q' \<and> q_transport q' = q_transport q"
proof (cases "64 \<le> unat (q_sub_count q)")
  case True
  then show ?thesis
    using assms by (simp add: qdp_subscribe_def)
next
  case False
  let ?i = "unat (q_sub_count q)"
  obtain slot a subs where s: "array_read (q_subs q) ?i 1 = Some slot" "strncpy (csub_topic (hd slot)) pattern 255 = Some a"
      "array_write (q_subs q) ?i [\<lparr>csub_topic = a, csub_fn = fn, csub_ctx = ctx\<rparr>] = Some subs"
      "q' = q\<lparr>q_subs := subs, q_sub_count := q_sub_count q + 1\<rparr>"
    using assms(2) False by (auto simp: qdp_subscribe_def Let_def bind_eq_Some_conv)
  have i: "?i < length (q_subs q)"
    using False assms(1) by (simp add: qdp_ok_def)
  then have "hd slot = q_subs q ! ?i"
    using s(1) by (auto simp: array_read_def hd_drop_conv_nth split: if_splits)
  then have "slot_ok (hd slot)"
    using assms(1) i by (simp add: qdp_ok_def)
  then have "length a = 256 \<and> a ! 255 = 0"
    using s(2) by (rule strncpy_slot_ok)
  then have "slot_ok \<lparr>csub_topic = a, csub_fn = fn, csub_ctx = ctx\<rparr>"
    by (simp add: slot_ok_def)
  moreover have "unat (q_sub_count q + 1) = Suc ?i"
    using False by (simp add: unat_word_ariths)
  moreover have "subs = (q_subs q)[?i := \<lparr>csub_topic = a, csub_fn = fn, csub_ctx = ctx\<rparr>]"
    using s(3) i by (simp add: array_write_def upd_conv_take_nth_drop split: if_splits)
  ultimately show ?thesis
    using assms(1) s(4) False i by (auto simp: qdp_ok_def dest!: set_update_subset_insert [THEN subsetD])
qed

lemma unsubscribe_from_keeps:
  assumes "unsubscribe_from pattern i n subs = Some (n', subs')" and "unat n \<le> length subs"
  shows "unat n' \<le> unat n \<and> length subs' = length subs \<and> set subs' \<subseteq> set subs"
  using assms
proof (induction "unat n - unat i" arbitrary: i n subs rule: less_induct)
  case less
  show ?case
  proof (cases "i < n")
    case True
    then have i: "unat i < unat n" "unat (i + 1) = Suc (unat i)" "unat (n - 1) = unat n - 1"
      using u32_Suc u32_pred by (simp_all add: word_less_nat_alt)
    obtain slot eq where r: "array_read subs (unat i) 1 = Some slot" "strcmp_eq (csub_topic (hd slot)) pattern = Some eq"
      using less.prems(1) True by (subst (asm) unsubscribe_from.simps) (auto split: option.splits)
    show ?thesis
    proof (cases eq)
      case False
      then have "unsubscribe_from pattern (i + 1) n subs = Some (n', subs')"
        using less.prems(1) True r by (subst (asm) unsubscribe_from.simps) simp
      then show ?thesis
        using less.hyps [of n "i + 1"] less.prems(2) i by simp
    next
      case eq: True
      obtain subs1 where s1: "remove_slot i n subs = Some subs1" "length subs1 = length subs" "set subs1 \<subseteq> set subs"
        using remove_slot_take [OF True less.prems(2)] by blast
      have "unsubscribe_from pattern i (n - 1) subs1 = Some (n', subs')"
        using less.prems(1) True r eq s1(1) by (subst (asm) unsubscribe_from.simps) simp
      then have "unat n' \<le> unat (n - 1) \<and> length subs' = length subs1 \<and> set subs' \<subseteq> set subs1"
        using less.hyps [of "n - 1" i] less.prems(2) i s1(2) by simp
      then show ?thesis
        using s1(2,3) i(3) by auto
    qed
  qed (use less.prems unsubscribe_end in auto)
qed

lemma unsubscribe_keeps:
  assumes "qdp_ok q" and "qdp_unsubscribe pattern q = Some q'"
  shows "qdp_ok q' \<and> q_transport q' = q_transport q"
proof -
  obtain n subs where u: "unsubscribe_from pattern 0 (q_sub_count q) (q_subs q) = Some (n, subs)"
      "q' = q\<lparr>q_subs := subs, q_sub_count := n\<rparr>"
    using assms(2) by (auto simp: qdp_unsubscribe_def bind_eq_Some_conv)
  have "unat n \<le> unat (q_sub_count q) \<and> length subs = length (q_subs q) \<and> set subs \<subseteq> set (q_subs q)"
    using unsubscribe_from_keeps [OF u(1)] assms(1) by (simp add: qdp_ok_def)
  then show ?thesis
    using assms(1) u(2) by (auto simp: qdp_ok_def)
qed

lemma append_keeps:
  assumes "buffer_ok buf" and "buffer_append buf bs = Some buf'"
  shows "buffer_ok buf' \<and> buf_capacity buf' = buf_capacity buf"
  using assms by (auto simp: buffer_append_def buffer_ok_def array_write_def bind_eq_Some_conv split: if_splits)

lemma c_write_keeps:
  assumes "buffer_ok buf" and "qdp_message_write tab buf msg = Some (ok, buf')"
  shows "buffer_ok buf' \<and> buf_capacity buf' = buf_capacity buf"
proof (cases "buf' = buf")
  case False
  then obtain b1 b2 b3 b4 x1 x2 x3 x4 x5 where
      b: "buffer_append buf x1 = Some b1" "buffer_append b1 x2 = Some b2" "buffer_append b2 x3 = Some b3"
        "buffer_append b3 x4 = Some b4" "buffer_append b4 x5 = Some buf'"
    using assms(2) unfolding qdp_message_write_def Let_def buffer_append_uint32_bytes
    by (auto simp only: bind_eq_Some_conv split: if_splits)
  note 1 = append_keeps [OF assms(1) b(1)]
  note 2 = append_keeps [OF 1 [THEN conjunct1] b(2)]
  note 3 = append_keeps [OF 2 [THEN conjunct1] b(3)]
  note 4 = append_keeps [OF 3 [THEN conjunct1] b(4)]
  note 5 = append_keeps [OF 4 [THEN conjunct1] b(5)]
  show ?thesis
    using 1 2 3 4 5 by simp
qed (use assms(1) in simp)

lemma send_keeps:
  assumes "qdp_ok q" and "transport_ok q" and "send_tx q = Some (res, q')"
  shows "qdp_ok q' \<and> transport_ok q'"
proof (cases "\<exists>tr f. q_transport q = Some tr \<and> tr_send tr = Some f")
  case True
  then obtain tr f where tr: "q_transport q = Some tr" "tr_send tr = Some f"
    by blast
  obtain err tx ctx where s: "f (q_tx q) (tr_ctx tr) = Some (err, tx, ctx)"
      "q' = q\<lparr>q_tx := tx, q_transport := Some (tr\<lparr>tr_ctx := ctx\<rparr>)\<rparr>"
    using assms(3) tr by (auto simp: send_tx_def bind_eq_Some_conv)
  have "transfer_ok f"
    using assms(2) tr by (simp add: transport_ok_def)
  then have "buffer_ok tx \<and> buf_capacity tx = buf_capacity (q_tx q)"
    using s(1) assms(1) unfolding transfer_ok_def qdp_ok_def by blast
  then show ?thesis
    using assms(1,2) s(2) tr by (auto simp: qdp_ok_def transport_ok_def)
next
  case False
  then have "q' = q"
    using assms(3) by (auto simp: send_tx_def split: option.splits)
  then show ?thesis
    using assms(1,2) by simp
qed

lemma publish_keeps:
  assumes "qdp_ok q" and "transport_ok q"
    and "publish_message tab msg (q\<lparr>q_tx := qdp_buffer_reset (q_tx q)\<rparr>) = Some (res, q')"
  shows "qdp_ok q' \<and> transport_ok q'"
proof -
  obtain ok tx where w: "qdp_message_write tab (qdp_buffer_reset (q_tx q)) msg = Some (ok, tx)"
      "q' = q\<lparr>q_tx := tx\<rparr> \<or> send_tx (q\<lparr>q_tx := tx\<rparr>) = Some (res, q')"
    using assms(3) by (auto simp: publish_message_def bind_eq_Some_conv split: if_splits)
  have "buffer_ok tx \<and> buf_capacity tx = buf_capacity (q_tx q)"
    using c_write_keeps [OF tx_room(1) [OF assms(1)] w(1)] by (simp add: qdp_buffer_reset_def)
  then have "qdp_ok (q\<lparr>q_tx := tx\<rparr>)" "transport_ok (q\<lparr>q_tx := tx\<rparr>)"
    using assms(1,2) by (simp_all add: qdp_ok_def transport_ok_def)
  then show ?thesis
    using w(2) send_keeps by blast
qed

lemma process_messages_keeps:
  assumes "process_messages tab subs rx msg = Some (rx', calls)" and "buffer_ok rx" and "message_ok msg"
  shows "buffer_ok rx' \<and> buf_capacity rx' = buf_capacity rx"
  using assms
proof (induction "buf_size rx - buf_position rx" arbitrary: rx msg calls rule: less_induct)
  case less
  obtain ok rx1 msg1 where n: "qdp_stream_next_message tab rx msg = Some (ok, rx1, msg1)"
    using less.prems(1) by (subst (asm) process_messages.simps) (auto split: option.splits)
  have rx1: "buffer_ok rx1 \<and> buf_capacity rx1 = buf_capacity rx"
  proof (cases "buf_size rx \<le> buf_position rx")
    case False
    then have "qdp_message_read tab rx msg = Some (ok, rx1, msg1)"
      using n by (simp add: qdp_stream_next_message_def)
    then have "rx1 = rx\<lparr>buf_position := buf_position rx1\<rparr>"
      using read_position(1) less.prems(2,3) by blast
    then show ?thesis
      using less.prems(2) by (metis buffer_ok_def qdp_buffer.select_convs(1-3) qdp_buffer.surjective qdp_buffer.update_convs(4))
  qed (use n less.prems in \<open>simp add: qdp_stream_next_message_def\<close>)
  show ?case
  proof (cases ok)
    case True
    then obtain calls1 where "process_messages tab subs rx1 (qdp_message_clear msg1) = Some (rx', calls1)"
      using less.prems(1) n
      by (subst (asm) process_messages.simps) (auto split: option.splits)
    then show ?thesis
      using less.hyps [of rx1 "qdp_message_clear msg1"] next_advances n True rx1 by simp
  next
    case False
    then have "rx' = rx1"
      using less.prems(1) n by (subst (asm) process_messages.simps) simp
    then show ?thesis
      using rx1 by simp
  qed
qed

lemma process_keeps:
  assumes "qdp_ok q" and "transport_ok q" and "qdp_process tab q = Some (res, q', calls)"
  shows "qdp_ok q' \<and> transport_ok q'"
proof (cases "\<exists>tr f. q_transport q = Some tr \<and> tr_recv tr = Some f")
  case True
  then obtain tr f where tr: "q_transport q = Some tr" "tr_recv tr = Some f"
    by blast
  obtain err rx ctx where r: "f (qdp_buffer_reset (q_rx q)) (tr_ctx tr) = Some (err, rx, ctx)"
    using assms(3) tr by (auto simp: qdp_process_def qdp_stream_begin_message_def bind_eq_Some_conv)
  let ?q = "q\<lparr>q_rx := rx, q_transport := Some (tr\<lparr>tr_ctx := ctx\<rparr>)\<rparr>"
  have "transfer_ok f"
    using assms(2) tr by (simp add: transport_ok_def)
  moreover have "buffer_ok (qdp_buffer_reset (q_rx q))" "buf_capacity (qdp_buffer_reset (q_rx q)) = 10240"
    using assms(1) by (simp_all add: qdp_ok_def qdp_buffer_reset_def buffer_ok_def)
  ultimately have rx: "buffer_ok rx" "buf_capacity rx = 10240"
    using r unfolding transfer_ok_def by (blast, metis)
  have q: "qdp_ok ?q" "transport_ok ?q"
    using assms(1,2) rx tr by (auto simp: qdp_ok_def transport_ok_def)
  have "q' = ?q \<or> (\<exists>subs rx'. process_messages tab subs rx zero_message = Some (rx', calls) \<and> q' = ?q\<lparr>q_rx := rx'\<rparr>)"
    using assms(3) tr r
    by (auto simp: qdp_process_def qdp_stream_begin_message_def bind_eq_Some_conv Let_def split: if_splits)
  then show ?thesis
    using q process_messages_keeps [OF _ rx(1) message_ok_zero] rx(2) by (auto simp: qdp_ok_def transport_ok_def)
next
  case False
  then have "q' = q"
    using assms(3) by (auto simp: qdp_process_def split: option.splits)
  then show ?thesis
    using assms(1,2) by simp
qed

lemma publish_string_cases:
  assumes "qdp_publish_string tab topic str q = Some (res, q')"
  shows "q' = q\<lparr>q_tx := qdp_buffer_reset (q_tx q)\<rparr> \<or>
     (\<exists>msg. publish_message tab msg (q\<lparr>q_tx := qdp_buffer_reset (q_tx q)\<rparr>) = Some (res, q'))"
  using assms
  by (auto simp: qdp_publish_string_def qdp_stream_begin_message_def Let_def bind_eq_Some_conv split: if_splits)

lemma publish_bytes_cases:
  assumes "qdp_publish_bytes tab topic data len q = Some (res, q')"
  shows "q' = q \<or> (\<exists>msg. publish_message tab msg (q\<lparr>q_tx := qdp_buffer_reset (q_tx q)\<rparr>) = Some (res, q'))"
  using assms
  by (auto simp: qdp_publish_bytes_def qdp_stream_begin_message_def Let_def bind_eq_Some_conv split: if_splits)

lemma reset_tx_keeps:
  "qdp_ok q \<Longrightarrow> transport_ok q \<Longrightarrow> qdp_ok (q\<lparr>q_tx := qdp_buffer_reset (q_tx q)\<rparr>) \<and> transport_ok (q\<lparr>q_tx := qdp_buffer_reset (q_tx q)\<rparr>)"
  by (simp add: qdp_ok_def transport_ok_def qdp_buffer_reset_def buffer_ok_def)

lemma c_step_keeps:
  assumes "c_step tab q q'" and "qdp_ok q" and "transport_ok q"
  shows "qdp_ok q' \<and> transport_ok q'"
  using assms
proof (induction rule: c_step.induct)
  case (set_transport send recv q ctx)
  then show ?case
    by (auto simp: qdp_set_transport_def qdp_ok_def transport_ok_def)
next
  case (subscribe pattern fn ctx q ok q')
  then show ?case
    using subscribe_keeps by (metis transport_ok_def)
next
  case (unsubscribe pattern q q')
  then show ?case
    using unsubscribe_keeps by (metis transport_ok_def)
next
  case (publish_string topic str q res q')
  then show ?case
    using publish_string_cases [OF publish_string.hyps] publish_keeps reset_tx_keeps by blast
next
  case (publish_bytes topic data len q res q')
  then show ?case
    using publish_bytes_cases [OF publish_bytes.hyps] publish_keeps by blast
next
  case (process q res q' calls)
  then show ?case
    using process_keeps by blast
qed

section \<open>Properties\<close>



end
