(* ===== verification/Qdp_C_Tcp.thy ===== *)
theory Qdp_C_Tcp
  imports Qdp_C_Flow
begin

text \<open>
  The TCP transport of the example clients (\<open>examples/client/tcp_transport.h\<close>) and the loop of
  \<open>consumer.c\<close> that polls it. The socket belongs to the operating system: \<open>send\<close> and \<open>recv\<close> with
  \<open>MSG_DONTWAIT\<close> are parameters. The transport keeps what it has received in \<open>partial_buf\<close>.
\<close>

section \<open>Definitions\<close>

datatype errno = EAGAIN | EWOULDBLOCK | EINTR | Errno nat

text \<open>The result of \<open>recv\<close>: a positive count with the bytes it stored, 0, or -1 with \<open>errno\<close>.\<close>

datatype received = Received "byte list" | Shutdown | RecvError errno

record 's sockets =
  sock_send :: "'s \<Rightarrow> byte list \<Rightarrow> int \<times> 's"
  sock_recv :: "'s \<Rightarrow> nat \<Rightarrow> received \<times> 's"

record 's tcp_context =
  tcp_sock :: 's
  partial_buf :: "byte list"
  partial_size :: nat

definition tcp_send :: "'s sockets \<Rightarrow> 's tcp_context c_transfer" where
  "tcp_send net buf tcp = do {
     bs \<leftarrow> array_read (buf_data buf) 0 (buf_size buf);
     let (sent, s) = sock_send net (tcp_sock tcp) bs;
     Some (if 0 \<le> sent \<and> nat sent = buf_size buf then 0 else - 1, buf, tcp\<lparr>tcp_sock := s\<rparr>)
   }"

text \<open>Copying the kept bytes to the buffer, and keeping the buffer for the next call.\<close>

definition restore_partial :: "qdp_buffer \<Rightarrow> 's tcp_context \<Rightarrow> qdp_buffer option" where
  "restore_partial buf tcp =
     (if 0 < partial_size tcp then do {
        d \<leftarrow> memcpy (buf_data buf) 0 (partial_buf tcp) 0 (partial_size tcp);
        Some (buf\<lparr>buf_data := d, buf_size := partial_size tcp\<rparr>)
      }
      else Some buf)"

definition tcp_recv :: "'s sockets \<Rightarrow> 's tcp_context c_transfer" where
  "tcp_recv net buf tcp = do {
     buf \<leftarrow> restore_partial buf tcp;
     let (received, s) = sock_recv net (tcp_sock tcp) (buf_capacity buf - buf_size buf);
     let tcp = tcp\<lparr>tcp_sock := s\<rparr>;
     (case received of
        Received bs \<Rightarrow> do {
          buf \<leftarrow> buffer_append buf bs;
          kept \<leftarrow> memcpy (partial_buf tcp) 0 (buf_data buf) 0 (buf_size buf);
          Some (0, buf, tcp\<lparr>partial_size := buf_size buf, partial_buf := kept\<rparr>)
        }
      | Shutdown \<Rightarrow> Some (- 1, buf, tcp\<lparr>partial_size := 0\<rparr>)
      | RecvError e \<Rightarrow>
          if e = EAGAIN \<or> e = EWOULDBLOCK then Some (0, buf, tcp)
          else Some (if e = EINTR then 0 else - 1, buf, tcp\<lparr>partial_size := 0\<rparr>))
   }"

text \<open>The message loop of \<open>consumer.c\<close>, for \<open>n\<close> turns; it leaves on a negative result.\<close>

fun message_loop :: "u32 list \<Rightarrow> nat \<Rightarrow> 't qdp \<Rightarrow> (int \<times> 't qdp \<times> c_call list) option" where
  "message_loop tab 0 q = Some (0, q, [])"
| "message_loop tab (Suc n) q = do {
     (res, q, calls) \<leftarrow> qdp_process tab q;
     if res < 0 then Some (res, q, calls)
     else do {
       (res, q, later) \<leftarrow> message_loop tab n q;
       Some (res, q, calls @ later)
     }
   }"

section \<open>Receiving\<close>

definition tcp_ok :: "'s tcp_context \<Rightarrow> bool" where
  "tcp_ok tcp \<longleftrightarrow> length (partial_buf tcp) = QDP_MAX_BUFFER_CAPACITY \<and> partial_size tcp \<le> QDP_MAX_BUFFER_CAPACITY"

definition kept_bytes :: "'s tcp_context \<Rightarrow> byte list" where
  "kept_bytes tcp = take (partial_size tcp) (partial_buf tcp)"

definition rx_ok :: "qdp_buffer \<Rightarrow> bool" where
  "rx_ok buf \<longleftrightarrow> buffer_ok buf \<and> buf_capacity buf = QDP_MAX_BUFFER_CAPACITY \<and> buf_position buf = 0"

lemma restore_partial_ok:
  assumes "tcp_ok tcp" and "rx_ok buf" and "buf_size buf = 0"
  shows "\<exists>buf'. restore_partial buf tcp = Some buf' \<and> rx_ok buf' \<and> contents buf' = kept_bytes tcp \<and> buf_size buf' = partial_size tcp"
  using assms
  by (auto simp: restore_partial_def tcp_ok_def rx_ok_def buffer_ok_def memcpy_ok contents_def kept_bytes_def)

lemma tcp_recv_idle:
  assumes "tcp_ok tcp" and "rx_ok buf" and "buf_size buf = 0"
    and "sock_recv net (tcp_sock tcp) (10240 - partial_size tcp) = (RecvError EAGAIN, s)"
  shows "\<exists>buf'. tcp_recv net buf tcp = Some (0, buf', tcp\<lparr>tcp_sock := s\<rparr>) \<and> rx_ok buf' \<and> contents buf' = kept_bytes tcp"
proof -
  obtain buf' where b: "restore_partial buf tcp = Some buf'" "rx_ok buf'" "contents buf' = kept_bytes tcp"
      "buf_size buf' = partial_size tcp"
    using restore_partial_ok [OF assms(1-3)] by blast
  have "buf_capacity buf' = 10240"
    using b(2) by (simp add: rx_ok_def)
  then show ?thesis
    using b assms(4) by (simp add: tcp_recv_def)
qed

lemma tcp_recv_data:
  assumes "tcp_ok tcp" and "rx_ok buf" and "buf_size buf = 0"
    and "sock_recv net (tcp_sock tcp) (10240 - partial_size tcp) = (Received bs, s)"
    and "length bs \<le> 10240 - partial_size tcp"
  shows "\<exists>buf' tcp'. tcp_recv net buf tcp = Some (0, buf', tcp') \<and> rx_ok buf' \<and> contents buf' = kept_bytes tcp @ bs \<and>
     tcp_ok tcp' \<and> kept_bytes tcp' = kept_bytes tcp @ bs \<and> tcp_sock tcp' = s"
proof -
  obtain buf1 where b: "restore_partial buf tcp = Some buf1" "rx_ok buf1" "contents buf1 = kept_bytes tcp"
      "buf_size buf1 = partial_size tcp"
    using restore_partial_ok [OF assms(1-3)] by blast
  let ?b = "appended buf1 bs"
  have cap: "buf_capacity buf1 = 10240" "length (buf_data buf1) = 10240"
    using b(2) by (simp_all add: rx_ok_def buffer_ok_def)
  have fits: "buf_size buf1 + length bs \<le> length (buf_data buf1)"
    using assms(1,5) b(4) cap unfolding tcp_ok_def by linarith
  have ok: "rx_ok ?b" "contents ?b = kept_bytes tcp @ bs" "length (buf_data ?b) = 10240"
    using fits cap b(2,3) contents_appended [OF fits] by (simp_all add: rx_ok_def buffer_ok_def)
  have "memcpy (partial_buf tcp) 0 (buf_data ?b) 0 (buf_size ?b) = Some (contents ?b @ drop (buf_size ?b) (partial_buf tcp))"
    using assms(1) fits cap ok(3) by (simp add: memcpy_ok tcp_ok_def contents_def)
  then have "tcp_recv net buf tcp = Some (0, ?b,
      tcp\<lparr>tcp_sock := s, partial_size := buf_size ?b, partial_buf := contents ?b @ drop (buf_size ?b) (partial_buf tcp)\<rparr>)"
    using b(1,4) cap(1) assms(4) fits by (simp add: tcp_recv_def buffer_append_appended)
  moreover have "length (contents ?b) = buf_size ?b"
    using fits ok(3) cap by (simp add: contents_def)
  ultimately show ?thesis
    using ok assms(1) fits cap by (simp add: tcp_ok_def kept_bytes_def)
qed

section \<open>Polling\<close>

text \<open>A context on the TCP transport.\<close>

definition on_tcp :: "'s sockets \<Rightarrow> 's tcp_context \<Rightarrow> 's tcp_context qdp \<Rightarrow> bool" where
  "on_tcp net tcp q \<longleftrightarrow> qdp_ok q \<and> tcp_ok tcp \<and>
     q_transport q = Some \<lparr>tr_send = Some (tcp_send net), tr_recv = Some (tcp_recv net), tr_ctx = tcp\<rparr>"

lemma on_tcp_rx: "on_tcp net tcp q \<Longrightarrow> rx_ok (qdp_buffer_reset (q_rx q)) \<and> buf_size (qdp_buffer_reset (q_rx q)) = 0"
  by (simp add: on_tcp_def qdp_ok_def rx_ok_def buffer_ok_def qdp_buffer_reset_def)

text \<open>One turn that receives frames: they are dispatched, and the transport keeps them.\<close>

lemma process_on_tcp:
  assumes "on_tcp net tcp q" and "callable (active q)"
    and r: "tcp_recv net (qdp_buffer_reset (q_rx q)) tcp = Some (0, rx, tcp')"
    and "rx_ok rx" and "tcp_ok tcp'" and "contents rx = concat (map wire ms)" and "\<forall>m \<in> set ms. c_deliverable m"
  shows "\<exists>q'. qdp_process qdp_crc32_init q = Some (0, q', concat (map (deliveries (entries q)) ms)) \<and>
     on_tcp net tcp' q' \<and> active q' = active q"
proof -
  have q: "qdp_ok q" "q_transport q = Some \<lparr>tr_send = Some (tcp_send net), tr_recv = Some (tcp_recv net), tr_ctx = tcp\<rparr>"
    using assms(1) by (simp_all add: on_tcp_def)
  have "receives q rx"
    using q(2) r assms(4) by (simp add: receives_def rx_ok_def)
  note start = received_start [OF this, of "concat (map wire ms)" "[]"]
  obtain rest where d: "drop (buf_position rx) (buf_data rx) = concat (map wire ms) @ rest"
    using start(1) assms(6) by auto
  have "buf_position rx = 0" "buf_size rx = length (concat (map wire ms))"
    using assms(4,6) start(2) by (simp_all add: rx_ok_def)
  then have p: "process_messages qdp_crc32_init (active q) rx zero_message =
      Some (rx\<lparr>buf_position := buf_size rx\<rparr>, concat (map (deliveries (entries q)) ms))"
    using process_frames [OF assms(2,7) d] by (simp add: process_end entries_def)
  have subs: "array_read (q_subs q) 0 (unat (q_sub_count q)) = Some (active q)"
    using q(1) by (simp add: array_read_def qdp_ok_def active_def)
  have zero: "rx\<lparr>buf_position := buf_size rx\<rparr> = rx \<and> concat (map (deliveries (entries q)) ms) = []" if "buf_size rx = 0"
    using that process_end [of rx] p by simp
  let ?q = "q\<lparr>q_rx := rx\<lparr>buf_position := buf_size rx\<rparr>, q_transport := Some \<lparr>tr_send = Some (tcp_send net),
      tr_recv = Some (tcp_recv net), tr_ctx = tcp'\<rparr>\<rparr>"
  have "qdp_process qdp_crc32_init q = Some (0, ?q, concat (map (deliveries (entries q)) ms))"
    using q(2) r p subs zero by (simp add: qdp_process_def qdp_stream_begin_message_def Let_def)
  moreover have "on_tcp net tcp' ?q" "active ?q = active q"
    using q(1) assms(4,5) by (simp_all add: on_tcp_def qdp_ok_def rx_ok_def buffer_ok_def active_def)
  ultimately show ?thesis
    by blast
qed

text \<open>A socket with nothing to deliver: the kept frames are dispatched again on every turn.\<close>

lemma idle_loop:
  assumes "on_tcp net tcp q" and "callable (active q)" and "kept_bytes tcp = concat (map wire ms)"
    and "\<forall>m \<in> set ms. c_deliverable m" and "\<forall>n. sock_recv net (tcp_sock tcp) n = (RecvError EAGAIN, tcp_sock tcp)"
  shows "\<exists>q'. message_loop qdp_crc32_init n q =
     Some (0, q', concat (replicate n (concat (map (deliveries (entries q)) ms))))"
  using assms(1,2)
proof (induction n arbitrary: q)
  case (Suc n)
  have tcp: "tcp_ok tcp" "tcp\<lparr>tcp_sock := tcp_sock tcp\<rparr> = tcp"
    using Suc.prems(1) by (simp_all add: on_tcp_def)
  obtain rx where rx: "tcp_recv net (qdp_buffer_reset (q_rx q)) tcp = Some (0, rx, tcp)" "rx_ok rx" "contents rx = kept_bytes tcp"
    using tcp_recv_idle [OF tcp(1)] on_tcp_rx [OF Suc.prems(1)] assms(5) tcp(2) by metis
  obtain q1 where q1: "qdp_process qdp_crc32_init q = Some (0, q1, concat (map (deliveries (entries q)) ms))"
      "on_tcp net tcp q1" "active q1 = active q"
    using process_on_tcp [OF Suc.prems rx(1,2) tcp(1)] rx(3) assms(3,4) by auto
  have "entries q1 = entries q"
    using q1(3) by (simp add: entries_def)
  then show ?case
    using Suc.IH [OF q1(2)] Suc.prems(2) q1 by auto
qed simp

section \<open>Properties\<close>

text \<open>The example transport delivers again what it has delivered: after one receive of whole frames
  from a socket that then stays idle, every further turn of the consumer's loop dispatches all these
  messages once more, because \<open>tcp_recv\<close> keeps the received bytes and nothing takes the processed ones
  out.\<close>

theorem consumer_repeats_messages:
  assumes "on_tcp net tcp q" and "callable (active q)" and "partial_size tcp = 0"
    and "sock_recv net (tcp_sock tcp) 10240 = (Received (concat (map wire ms)), s)"
    and "length (concat (map wire ms)) \<le> 10240" and "\<forall>m \<in> set ms. c_deliverable m"
    and "\<forall>n. sock_recv net s n = (RecvError EAGAIN, s)"
  shows "\<exists>q'. message_loop qdp_crc32_init (Suc n) q =
     Some (0, q', concat (replicate (Suc n) (concat (map (deliveries (entries q)) ms))))"
proof -
  have "tcp_ok tcp"
    using assms(1) by (simp add: on_tcp_def)
  then obtain rx tcp' where rx: "tcp_recv net (qdp_buffer_reset (q_rx q)) tcp = Some (0, rx, tcp')" "rx_ok rx"
     "contents rx = kept_bytes tcp @ concat (map wire ms)" "tcp_ok tcp'" "kept_bytes tcp' = kept_bytes tcp @ concat (map wire ms)" "tcp_sock tcp' = s"
    using tcp_recv_data [of tcp "qdp_buffer_reset (q_rx q)" net "concat (map wire ms)" s] on_tcp_rx [OF assms(1)] assms(3-5)
    by auto
  have "kept_bytes tcp = []"
    using assms(3) by (simp add: kept_bytes_def)
  then obtain q1 where q1: "qdp_process qdp_crc32_init q = Some (0, q1, concat (map (deliveries (entries q)) ms))"
      "on_tcp net tcp' q1" "active q1 = active q"
    using process_on_tcp [OF assms(1,2) rx(1,2,4)] rx(3) assms(6) by auto
  have "entries q1 = entries q"
    using q1(3) by (simp add: entries_def)
  then show ?thesis
    using idle_loop [OF q1(2) _ _ assms(6), of n] assms(2,7) q1 rx(5,6) \<open>kept_bytes tcp = []\<close> by auto
qed

text \<open>A socket that delivers the given segments, as far as they fit, and is idle afterwards.\<close>

fun segment_recv :: "byte list list \<Rightarrow> nat \<Rightarrow> received \<times> byte list list" where
  "segment_recv [] n = (RecvError EAGAIN, [])"
| "segment_recv (s # ss) n =
     (if n = 0 then (Shutdown, s # ss)
      else (Received (take n s), if length s \<le> n then ss else drop n s # ss))"

definition segment_net :: "byte list list sockets" where
  "segment_net = \<lparr>sock_send = (\<lambda>ss bs. (int (length bs), ss)), sock_recv = segment_recv\<rparr>"

definition tcp_start :: "byte list list \<Rightarrow> byte list list tcp_context" where
  "tcp_start ss = \<lparr>tcp_sock = ss, partial_buf = replicate QDP_MAX_BUFFER_CAPACITY 0, partial_size = 0\<rparr>"

definition tcp_client_context :: "qdp_subscription list \<Rightarrow> byte list list \<Rightarrow> byte list list tcp_context qdp" where
  "tcp_client_context subs ss =
     \<lparr>q_transport = Some \<lparr>tr_send = Some (tcp_send segment_net), tr_recv = Some (tcp_recv segment_net), tr_ctx = tcp_start ss\<rparr>,
      q_subs = subs @ replicate (QDP_MAX_SUBSCRIPTIONS - length subs) empty_slot,
      q_sub_count = word_of_nat (length subs),
      q_rx = qdp_buffer_create (replicate QDP_MAX_BUFFER_CAPACITY 0) QDP_MAX_BUFFER_CAPACITY,
      q_tx = qdp_buffer_create (replicate QDP_MAX_BUFFER_CAPACITY 0) QDP_MAX_BUFFER_CAPACITY\<rparr>"

lemma tcp_client_context_ok:
  assumes "length subs \<le> 64" and "\<forall>s \<in> set subs. slot_ok s"
  shows "on_tcp segment_net (tcp_start ss) (tcp_client_context subs ss)" and "active (tcp_client_context subs ss) = subs"
  using assms by (auto simp: on_tcp_def tcp_ok_def tcp_start_def tcp_client_context_def qdp_ok_def active_def
      slot_ok_def empty_slot_def buffer_ok_def qdp_buffer_create_def)

theorem consumer_repeats_messages_witness:
  "\<exists>q'. message_loop qdp_crc32_init 3 (tcp_client_context [demo_slot] [wire a_msg]) =
     Some (0, q', replicate 3 (Call 1 2 (c_message a_msg zero_message)))"
proof -
  let ?q = "tcp_client_context [demo_slot] [wire a_msg]"
  have q: "on_tcp segment_net (tcp_start [wire a_msg]) ?q" "active ?q = [demo_slot]" "entries ?q = [entry demo_slot]"
    using tcp_client_context_ok [of "[demo_slot]"] demo_slot_ok(2) by (simp_all add: entries_def)
  have "sock_recv segment_net (tcp_sock (tcp_start [wire a_msg])) 10240 = (Received (concat (map wire [a_msg])), [])"
    using demo_messages(2) by (simp add: segment_net_def tcp_start_def del: length_wire)
  moreover have "length (concat (map wire [a_msg])) \<le> 10240" "\<forall>n. sock_recv segment_net [] n = (RecvError EAGAIN, [])"
    "partial_size (tcp_start [wire a_msg]) = 0"
    using demo_messages(2) by (simp_all add: segment_net_def tcp_start_def del: length_wire)
  ultimately have "\<exists>q'. message_loop qdp_crc32_init (Suc 2) ?q =
      Some (0, q', concat (replicate (Suc 2) (concat (map (deliveries (entries ?q)) [a_msg]))))"
    using q demo_slot_ok(1) demo_messages(1)
    by (intro consumer_repeats_messages [OF q(1), where s = "[]"]) simp_all
  then show ?thesis
    using q(3) demo_deliveries by (simp add: numeral_eq_Suc)
qed

text \<open>The kept bytes only grow. Once they fill the buffer, \<open>recv\<close> is called for zero bytes, which a stream
  socket answers with 0, and the transport reports a closed connection.\<close>

lemma tcp_recv_full:
  assumes "tcp_ok tcp" and "rx_ok buf" and "buf_size buf = 0" and "partial_size tcp = 10240"
    and "sock_recv net (tcp_sock tcp) 0 = (Shutdown, s)"
  shows "\<exists>buf'. tcp_recv net buf tcp = Some (- 1, buf', tcp\<lparr>tcp_sock := s, partial_size := 0\<rparr>)"
proof -
  obtain buf' where "restore_partial buf tcp = Some buf'" "rx_ok buf'" "buf_size buf' = 10240"
    using restore_partial_ok [OF assms(1-3)] assms(4) by auto
  then show ?thesis
    using assms(5) by (auto simp: tcp_recv_def rx_ok_def)
qed

end
