(* ===== verification/Qdp_Interop.thy ===== *)
theory Qdp_Interop
  imports Qdp_C_Tcp
begin

text \<open>
  The C library at one end of a connection that carries one frame per segment: a sequence of publications
  leaves the frames of the Go library on the line, and polling a line that holds such frames dispatches
  their messages. The two directions between a C and a Go program are put together from this in the
  theory \<open>Spec2Isabelle\<close>.
\<close>

section \<open>Publishing a sequence\<close>

fun c_publish_all :: "u32 list \<Rightarrow> (byte list \<times> byte list) list \<Rightarrow> 't qdp \<Rightarrow> (int \<times> 't qdp) option" where
  "c_publish_all tab [] q = Some (0, q)"
| "c_publish_all tab ((topic, data) # ps) q = do {
     (err, q) \<leftarrow> qdp_publish_bytes tab topic data (length data) q;
     if err \<noteq> 0 then Some (err, q) else c_publish_all tab ps q
   }"

definition c_publishable :: "byte list \<times> byte list \<Rightarrow> bool" where
  "c_publishable p \<longleftrightarrow> terminated (fst p) \<and> length (cstr (fst p)) < 256 \<and> length (snd p) \<le> 512"

definition c_published :: "byte list \<times> byte list \<Rightarrow> message" where
  "c_published p = published (fst p) (snd p)"

lemma line_publish:
  assumes "qdp_ok q" and "q_transport q = Some (line_transport ss)" and "c_publishable (topic, data)"
  shows "\<exists>q'. qdp_publish_bytes qdp_crc32_init topic data (length data) q = Some (0, q') \<and> qdp_ok q' \<and>
     q_transport q' = Some (line_transport (ss @ [wire (published topic data)]))"
proof -
  have p: "terminated topic" "length (cstr topic) < 256" "length data \<le> 512"
    using assms(3) by (simp_all add: c_publishable_def)
  let ?w = "wire (published topic data)" and ?q = "q\<lparr>q_tx := appended (qdp_buffer_reset (q_tx q)) (wire (published topic data))\<rparr>"
  have w: "length ?w \<le> 10240"
    using c_limits_published [OF p(2,3)] by (simp add: c_limits_def)
  have "qdp_publish_bytes qdp_crc32_init topic data (length data) q = send_tx ?q"
    using publish_bytes_outgoing [OF p(1,3), of data qdp_crc32_init q] publish_frame [OF assms(1) p(2,3)] by simp
  also have "\<dots> = Some (0, ?q\<lparr>q_transport := Some (line_transport (ss @ [?w]))\<rparr>)"
    using assms(2) contents_sent [OF assms(1) w] by (simp add: send_tx_def line_transport_def line_send_def)
  finally show ?thesis
    using assms(1) w by (simp add: qdp_ok_def buffer_ok_def qdp_buffer_reset_def)
qed

lemma line_publish_all:
  assumes "qdp_ok q" and "q_transport q = Some (line_transport ss)" and "\<forall>p \<in> set ps. c_publishable p"
  shows "\<exists>q'. c_publish_all qdp_crc32_init ps q = Some (0, q') \<and>
     q_transport q' = Some (line_transport (ss @ map (\<lambda>p. wire (c_published p)) ps))"
  using assms
proof (induction ps arbitrary: q ss)
  case (Cons p ps)
  obtain topic data where p: "p = (topic, data)"
    by fastforce
  obtain q1 where "qdp_publish_bytes qdp_crc32_init topic data (length data) q = Some (0, q1)" "qdp_ok q1"
      "q_transport q1 = Some (line_transport (ss @ [wire (published topic data)]))"
    using line_publish [OF Cons.prems(1,2), of topic data] Cons.prems(3) p by auto
  then show ?case
    using Cons.IH [of q1 "ss @ [wire (published topic data)]"] Cons.prems(3) p by (auto simp: c_published_def)
qed simp

section \<open>Polling a line\<close>

lemma line_loop:
  assumes "qdp_ok q" and "callable (active q)" and "q_transport q = Some (line_transport (map wire ms))"
    and "\<forall>m \<in> set ms. c_deliverable m"
  shows "\<exists>q'. message_loop qdp_crc32_init (length ms) q = Some (0, q', concat (map (deliveries (entries q)) ms))"
  using assms
proof (induction ms arbitrary: q)
  case (Cons m ms)
  have w: "length (wire m) \<le> 10240"
    using Cons.prems(4) by (simp add: c_deliverable_def c_limits_def)
  have tr: "q_transport q = Some (line_transport (wire m # map wire ms))"
    using Cons.prems(3) by simp
  note r = line_receives [OF Cons.prems(1) tr w]
  let ?rx = "appended (qdp_buffer_reset (q_rx q)) (wire m)"
  let ?q = "q\<lparr>q_rx := ?rx\<lparr>buf_position := length (wire m)\<rparr>, q_transport := Some (line_transport (map wire ms))\<rparr>"
  have "process_messages qdp_crc32_init (active q) ?rx zero_message =
      Some (?rx\<lparr>buf_position := length (wire m)\<rparr>, deliveries (entries q) m)"
    using process_frames [OF Cons.prems(2), of "[m]" ?rx "drop (length (wire m)) (buf_data (q_rx q))"] r(3,4) Cons.prems(4)
    by (simp add: process_end entries_def qdp_buffer_reset_def)
  then have "qdp_process qdp_crc32_init q = Some (0, ?q, deliveries (entries q) m)"
    by (rule line_process [OF Cons.prems(1) tr])
  moreover have "qdp_ok ?q" "active ?q = active q" "entries ?q = entries q"
    using received_ok [OF Cons.prems(1) r(1)] by (simp_all add: active_def)
  ultimately show ?case
    using Cons.IH [of ?q] Cons.prems(2,4) by auto
qed simp

section \<open>Deliveries in the terms of the Go library\<close>

text \<open>Patterns with wildcards for whole levels and topics with a last level: both libraries choose the
  same subscribers.\<close>

definition regular_topic :: "string \<Rightarrow> bool" where
  "regular_topic t \<longleftrightarrow> last (Split t) \<noteq> ''''"

definition regular_entries :: "c_entry list \<Rightarrow> bool" where
  "regular_entries es \<longleftrightarrow> (\<forall>(p, fn, ctx) \<in> set es. wf_levels (Split p))"

definition go_deliveries :: "c_entry list \<Rightarrow> message \<Rightarrow> c_call list" where
  "go_deliveries es m =
     map (\<lambda>(p, fn, ctx). Call (the fn) ctx (c_message m zero_message)) (filter (\<lambda>(p, fn, ctx). matchTopic p (Topic m)) es)"

lemma c_match_matchTopic:
  assumes "wf_levels (Split p)" and "regular_topic t"
  shows "c_match p t \<longleftrightarrow> matchTopic p t"
proof -
  have "c_match (Join (Split p)) (Join (Split t)) \<longleftrightarrow> level_match (Split p) (Split t)"
    using assms by (intro c_match_levels) (simp_all add: regular_topic_def)
  then show ?thesis
    using matchTopic_wf [OF assms(1)] by (simp add: Join_Split)
qed

lemma deliveries_go:
  assumes "regular_entries es" and "regular_topic (Topic m)"
  shows "deliveries es m = go_deliveries es m"
proof -
  have "filter (\<lambda>(p, fn, ctx). c_match p (Topic m)) es = filter (\<lambda>(p, fn, ctx). matchTopic p (Topic m)) es"
    using assms by (intro filter_cong) (auto simp: regular_entries_def c_match_matchTopic)
  then show ?thesis
    by (simp add: deliveries_def go_deliveries_def)
qed

end
