(* ===== verification/Spec2Isabelle.thy ===== *)
theory Spec2Isabelle
  imports Qdp_Main Qdp_Program Qdp_C_Safety Qdp_Interop
begin

text \<open>
  A verification of QDP, a publish/subscribe protocol for devices (\<open>src/\<close>): the Go library
  \<open>lib/go\<close>, the program \<open>main.go\<close>, \<open>message_broker.go\<close> that connects devices to a store, and the C library
  \<open>lib/c\<close> for the devices, with the example clients in \<open>examples/client\<close>.

  \<^bold>\<open>The program.\<close> A message (topic and payload) travels in a frame: two little-endian 32-bit
  lengths, topic, payload, CRC-32. \<open>Encode\<close>, \<open>Decode\<close> and \<open>writeMessage\<close> convert messages; a
  \<open>MessageReader\<close> finds frames in a byte stream behind a 2048-byte buffer. A transport (\<open>ITransport\<close>:
  TCP client, TCP server, FTDI) reads and writes messages over a connection and calls
  \<open>IConnectionHandler\<close>; a \<open>DefaultProtocol\<close> sits on a transport, with one goroutine that receives into a
  channel and one that dispatches to the message handler and to the subscribers whose topic
  pattern matches. The broker keeps one protocol per configured device. The C library has the same
  frames and topics in fixed arrays: a context with 64 subscriptions and two 10 KiB buffers, polled
  with \<open>qdp_process\<close> over two transport functions of the application.

  \<^bold>\<open>The theories.\<close>
  \<^item> \<open>Qdp_Prelude\<close>: bytes, words, Go outcomes (value or panic), errors, slices, little-endian words.
  \<^item> \<open>Qdp_Crc\<close> (\<open>qdp.go\<close>, \<open>init\<close>, \<open>calculateCRC32\<close>): the table-driven loop is the bit-serial CRC-32; it
    detects every error burst of at most four bytes.
  \<^item> \<open>Qdp_Message\<close> (\<open>Message\<close>, \<open>Encode\<close>, \<open>Decode\<close>, \<open>writeMessage\<close>): the frame \<open>wire\<close> as specification, both
    directions of the round trip, when \<open>Decode\<close> accepts, rejects and panics.
  \<^item> \<open>Qdp_Reader\<close> (\<open>MessageReader\<close>): the two nested loops of \<open>ReadMessage\<close> as steps of a small machine run
    with fuel, over a foreign \<open>io.Reader\<close> (locale \<open>io_reader\<close>); no panic, soundness, completeness for
    buffered, segmented and aligned frames, termination and where it fails.
  \<^item> \<open>Qdp_Topic\<close> (\<open>matchTopic\<close>, \<open>DefaultSubscriptionManager\<close>): matching against a level-by-level
    specification; the subscription manager as an interface (locale \<open>subscription_manager\<close>).
  \<^item> \<open>Qdp_Protocol\<close> (\<open>DefaultProtocol\<close>): the operations over a foreign transport, the goroutines of
    \<open>StartReceiving\<close> as a step relation, FIFO and dispatch invariants, what \<open>Close\<close> and a cancelled
    context do; the transport as an interface (locale \<open>transport_interface\<close>).
  \<^item> \<open>Qdp_Connection\<close> (\<open>ConnectionHandlerFunc\<close>) and \<open>Qdp_Tcp\<close> (\<open>TCPClientTransport\<close>): the methods, their
    interleavings, the disconnect callback; it implements \<open>transport_interface\<close>.
  \<^item> \<open>Qdp_Server\<close>, \<open>Qdp_Server_Props\<close> (\<open>TCPServerTransport\<close>): accept loop, one read loop per client with
    broadcast, channel and \<open>Close\<close> as a step relation over shared client objects; each message is
    forwarded once to every other client, the channel is FIFO per client, \<open>Close\<close> neither deadlocks
    nor runs forever. \<open>Qdp_Server_Close\<close>: the steps as functions, and \<open>Close\<close> as a function that runs the
    goroutines it waits for and is proved to return.
  \<^item> \<open>Qdp_Pipe\<close>: a concrete connection, for the end-to-end statement and the concrete runs.
  \<^item> \<open>Qdp_Usb\<close> (\<open>transport_ftdi.go\<close>: \<open>calculateFTDIBaudRateDivisor\<close>, \<open>endpointReader\<close>, \<open>writeChunked\<close>): the
    divisor in float64 arithmetic is the nearest eighth; the endpoint reader refines a byte stream
    without status bytes and keeps the contract of \<open>io.Reader\<close> (locale \<open>usb_endpoint\<close>); a message
    survives chunks and packets.
  \<^item> \<open>Qdp_Ftdi\<close>, \<open>Qdp_Ftdi_Props\<close> (\<open>FTDITransport\<close>): connecting with every error exit, reconnecting,
    reading, writing, closing; the open USB objects are the ones held, the callbacks are paired
    (locale \<open>ftdi_invariant\<close>, one interpretation per invariant).
  \<^item> \<open>Qdp_Broker\<close>, \<open>Qdp_Broker_Effects\<close>, \<open>Qdp_Broker_Props\<close> (\<open>message_broker.go\<close>, \<open>MessageBroker\<close>): handlers,
    queued tasks and goroutines as a step relation over numbered transports and protocols; one
    invariant for every reachable state, the way of messages between store and transports, and two
    ways to lose a transport.
  \<^item> \<open>Qdp_Network\<close>: two brokers joined by a TCP connection, from the store of one to the store of the other.
  \<^item> \<open>Qdp_Broker_Objects\<close>: the transports of a broker over its runs, for any contract of their methods
    (locale \<open>transport_moves\<close>). \<open>Qdp_Transports\<close>: \<open>ITransport\<close> as the datatype of its three implementations, the
    dispatch of the methods, the constructors as the broker calls them (\<open>program_kit\<close>); they keep that contract
    (\<open>sublocale\<close> from \<open>runtime_choices\<close>). \<open>Qdp_Program\<close>: the broker over these transports with the goroutines of
    the servers; each transport is in a state its own model reaches, a TCP transport has at most one
    protocol, a message sent to a server reaches the other clients and the store.
  \<^item> \<open>Qdp_Main\<close> (\<open>main.go\<close>): the store address, \<open>main\<close> as the list of its calls of \<open>qlib\<close>, and what the connected
    slots make of sequences of signals: which signal makes the broker leader, and what holds then.
  \<^item> \<open>Qdp_C_Memory\<close>: C arrays and strings; \<open>Qdp_C_Message\<close> (\<open>qdp.c\<close>, checksum, buffers, \<open>qdp_message_write\<close>,
    \<open>qdp_message_read\<close>): the checksum is that of the Go library, what is accepted, when memory outside an
    array is touched; \<open>Qdp_C_Topic\<close> (\<open>qdp_topic_matches\<close>): the walk ends within terminated strings and agrees
    with \<open>matchTopic\<close> on regular patterns and topics.
  \<^item> \<open>Qdp_C_Api\<close>, \<open>Qdp_C_Flow\<close>, \<open>Qdp_C_Safety\<close> (the public functions): the subscription table refines a list
    (locale \<open>subscription_table\<close>), publishing and processing on every branch, the context's invariant for every
    sequence of calls, and frames that are lost or delivered from stale bytes.
  \<^item> \<open>Qdp_C_Tcp\<close> (\<open>tcp_transport.h\<close>, the loop of \<open>consumer.c\<close>): the example transport and how it repeats messages;
    \<open>Qdp_Interop\<close>: sequences of publications and polls over a line of frames.
  \<^item> This theory: publishing on one side leads to dispatch on the other, between two Go programs and between
    a C and a Go program in both directions.

  \<^bold>\<open>Modelling.\<close> A Go \<open>uint32\<close> is a 32-bit word, so sums of lengths wrap; slice expressions panic out of
  range; a call returns \<open>Ret\<close> or \<open>Panic\<close>, errors are values. Interfaces with foreign implementations
  (\<open>io.Reader\<close>, \<open>net.Conn\<close>, \<open>net.Listener\<close>, \<open>net.Dial\<close>, \<open>net.Listen\<close>, the USB package \<open>gousb\<close>, the data
  store of \<open>qlib\<close>) are parameters, with the documented behaviour a result relies on as a hypothesis
  (\<open>conn_contract\<close>, \<open>listener_contract\<close>, \<open>store_contract\<close>); user callbacks are entries of a log. A USB
  object is open from the call that returns it to the call of its \<open>Close\<close>. The broker uses transports
  through the record \<open>transport_kit\<close>: constructors, the three methods, and the log of callbacks; a new
  entry of the log queues the task that the broker's callback queues. The invariants of the broker
  hold for every such record and every store; \<open>program_kit\<close> is the record with the transports of the library.
  There the choices of the Go runtime inside one call of a server's method (the case of a \<open>select\<close>, the order of
  \<open>Range\<close>, the schedule while \<open>Close\<close> waits) are functions of the record \<open>runtime\<close>, and \<open>resolves\<close> says which
  functions are such choices; \<open>server_Close\<close> is one of them, so the hypothesis is not empty. Goroutines have program counters; a step is a check of a context,
  a blocking call that returns, or a channel operation; a \<open>select\<close> with several ready cases is
  nondeterministic. A loop of the reader takes fuel, one unit per step, where \<open>None\<close> says it has not
  returned; 2050 units are enough once the connection is closed, since each step but the last moves
  the scan forward in the 2048-byte buffer, and two units return a message that is in the buffer.

  In C an access outside an array is the value \<open>None\<close>, a string is read to its first zero byte,
  \<open>uint32_t\<close> wraps around, and the transport functions and sockets are parameters.

  \<^bold>\<open>Not modelled.\<close> Logging and the 100 ms pauses (no effect on the state); panics of user callbacks;
  data races of two concurrent \<open>ReadMessage\<close> calls on one reader, and of concurrent calls on one FTDI
  transport, whose methods are one step each. A task or handler of the broker is one step, so a
  message that arrives between \<open>StartReceiving\<close> and the subscriptions that follow it in the connect task
  is not seen by the model. A transport hands out the payload as it is when \<open>ReadMessage\<close> returns, the
  later change of its bytes through the reader's buffer is stated separately
  (\<open>payload_aliases_buffer\<close>). The third-party package \<open>qlib\<close> (store client, leadership election, signals,
  application loop) is not modelled beyond the calls that the sources make and receive. Callbacks of the C
  library that call the library again, and the layout of its structures beyond their arrays (an access
  behind an array is undefined here, wherever it would land). Argument parsing, connecting and signals in the
  example programs are calls of the operating system with no logic of the library. Test code.
\<close>

section \<open>End to end\<close>

text \<open>A publisher sends a list of messages, one call of \<open>PublishMessage\<close> after the other.\<close>

fun publish_all :: "'t transport_write \<Rightarrow> 't protocol \<Rightarrow> message list \<Rightarrow> (go_error option \<times> 't protocol) go" where
  "publish_all wr p [] = Ret (None, p)"
| "publish_all wr p (m # ms) =
     go_bind (PublishMessage wr p (Topic m) (Payload m)) (\<lambda>(err, p).
     if err = None then publish_all wr p ms else Ret (err, p))"

text \<open>What the peer of a TCP client finds on the connection.\<close>

definition sent :: "pipe tcp_client protocol \<Rightarrow> byte list list" where
  "sent p = pipe_out (reader (client_reader (transport p)))"

definition tcp_protocol ::
  "byte list list \<Rightarrow> subscription list option \<Rightarrow> message_handler option \<Rightarrow> pipe tcp_client protocol" where
  "tcp_protocol segs subs h = NewProtocol (NewTCPClientTransportFromConn (open_pipe [] segs) None) subs h"

text \<open>One message: three steps of the receive loop and one of the process loop.\<close>

definition turn :: "event list" where
  "turn = [Recv, Recv, Recv, Proc]"

definition dispatch :: "message_handler \<Rightarrow> subscription list \<Rightarrow> message \<Rightarrow> callback list" where
  "dispatch h subs m = (if OnMessageRxFunc h then [HandlerRx m] else []) @
     map (\<lambda>s. Deliver (sub_handler s) m) (filter (\<lambda>s. matchTopic (sub_topic s) (Topic m)) subs)"

lemma publish_all_pipe:
  assumes "\<forall>m \<in> set ms. within_limits m" and "transport p = pipe_client h outs r"
  shows "\<exists>p'. publish_all (client_WriteMessage pipe_ops) p ms = Ret (None, p') \<and>
     transport p' = pipe_client h (outs @ map wire ms) r"
  using assms
proof (induction ms arbitrary: p outs)
  case (Cons m ms)
  let ?m = "\<lparr>Topic = Topic m, Payload = Payload m\<rparr>"
  have m: "?m = m"
    by simp
  obtain p1 where p1: "PublishMessage (client_WriteMessage pipe_ops) p (Topic m) (Payload m) = Ret (None, p1)"
      "transport p1 = pipe_client h (outs @ [wire m]) r"
    using Cons.prems pipe_client_write [OF within_limits_fits, of m]
    by (auto simp: PublishMessage_def SendMessage_def Let_def m)
  then show ?case
    using Cons.IH [of p1 "outs @ [wire m]"] Cons.prems(1) by auto
qed simp

text \<open>The receiver handles the message at the front of the connection.\<close>

lemma session_turn:
  assumes "within_limits m" and "length (wire m) \<le> 1024"
    and "transport (proto s) = pipe_client None [] r" and "reader_inv r" and "pos r = count r"
    and "reader r = wire m # segs"
    and "recv s = RCheck" and "proc s = PLoop" and "\<not> ctx_done s" and "msgCh (proto s) = []"
  shows "\<exists>s' r'. session_run (client_ReadMessage (Suc (Suc fuel)) pipe_ops) wr cl s turn s' \<and>
     proto s' = (proto s)\<lparr>transport := pipe_client None [] r',
        calls := calls (proto s) @ dispatch (msgHandler (proto s)) (subscribers (proto s)) m\<rparr> \<and>
     reader_inv r' \<and> pos r' = count r' \<and> reader r' = segs \<and>
     recv s' = RCheck \<and> proc s' = PLoop \<and> \<not> ctx_done s' \<and>
     received s' = received s @ [m] \<and> handled s' = handled s @ [m]"
proof -
  let ?rd = "client_ReadMessage (Suc (Suc fuel)) pipe_ops"
  obtain r' where r': "client_read_default (Suc (Suc fuel)) pipe_ops (pipe_client None [] r) =
      Some (Ret (Inr m, pipe_client None [] r'))" "reader_inv r'" "pos r' = count r'" "reader r' = segs"
    using pipe_client_read [OF assms(4,5,1,2,6)] by blast
  let ?p = "(proto s)\<lparr>transport := pipe_client None [] r'\<rparr>"
  let ?s1 = "s\<lparr>recv := RRead\<rparr>"
  let ?s2 = "?s1\<lparr>proto := ?p, recv := RSend m, received := received ?s1 @ [m]\<rparr>"
  let ?s3 = "?s2\<lparr>proto := (proto ?s2)\<lparr>msgCh := msgCh (proto ?s2) @ [m]\<rparr>, recv := RCheck\<rparr>"
  let ?s4 = "?s3\<lparr>proto := handleMessage ((proto ?s3)\<lparr>msgCh := []\<rparr>) m, handled := handled ?s3 @ [m]\<rparr>"
  have "session_step ?rd wr cl s Recv ?s1"
    using assms(7,9) by (rule session_step.check_go)
  moreover have "session_step ?rd wr cl ?s1 Recv ?s2"
    using r'(1) assms(3)
    by (intro session_step.read_ok) (simp_all add: ReceiveMessage_def client_ReadMessage_def pipe_client_def)
  moreover have "session_step ?rd wr cl ?s2 Recv ?s3"
    using assms(10) by (intro session_step.send_ok) simp_all
  moreover have "session_step ?rd wr cl ?s3 Proc ?s4"
    using assms(8,10) by (intro session_step.proc_msg) simp_all
  ultimately have "session_run ?rd wr cl s turn ?s4"
    unfolding turn_def by (blast intro: run_cons run_nil)
  then show ?thesis
    using r' assms(8-10)
    by (intro exI [of _ ?s4] exI [of _ r'])
      (simp add: handleMessage_frame MessageHandler_OnMessageRx_def dispatch_def OnMessageRx_filter)
qed

lemma session_turns:
  assumes "\<forall>m \<in> set ms. within_limits m \<and> length (wire m) \<le> 1024"
    and "transport (proto s) = pipe_client None [] r" and "reader_inv r" and "pos r = count r"
    and "reader r = map wire ms"
    and "recv s = RCheck" and "proc s = PLoop" and "\<not> ctx_done s" and "msgCh (proto s) = []"
  shows "\<exists>s'. session_run (client_ReadMessage (Suc (Suc fuel)) pipe_ops) wr cl s (concat (replicate (length ms) turn)) s' \<and>
     handled s' = handled s @ ms \<and>
     calls (proto s') = calls (proto s) @ concat (map (dispatch (msgHandler (proto s)) (subscribers (proto s))) ms)"
  using assms
proof (induction ms arbitrary: s r)
  case Nil
  then show ?case
    by (intro exI [of _ s]) (simp add: run_nil)
next
  case (Cons m ms)
  have m: "within_limits m" "length (wire m) \<le> 1024"
    using Cons.prems(1) by simp_all
  have front: "reader r = wire m # map wire ms"
    using Cons.prems(5) by simp
  obtain s1 r1 where s1: "session_run (client_ReadMessage (Suc (Suc fuel)) pipe_ops) wr cl s turn s1"
     "proto s1 = (proto s)\<lparr>transport := pipe_client None [] r1,
        calls := calls (proto s) @ dispatch (msgHandler (proto s)) (subscribers (proto s)) m\<rparr>"
     "reader_inv r1" "pos r1 = count r1" "reader r1 = map wire ms"
     "recv s1 = RCheck" "proc s1 = PLoop" "\<not> ctx_done s1" "handled s1 = handled s @ [m]"
    using session_turn [OF m Cons.prems(2-4) front Cons.prems(6-9)] by blast
  obtain s2 where s2: "session_run (client_ReadMessage (Suc (Suc fuel)) pipe_ops) wr cl s1
      (concat (replicate (length ms) turn)) s2" "handled s2 = handled s1 @ ms"
     "calls (proto s2) = calls (proto s1) @ concat (map (dispatch (msgHandler (proto s1)) (subscribers (proto s1))) ms)"
    using Cons.IH [of s1 r1] Cons.prems(1,9) s1 by auto
  have "session_run (client_ReadMessage (Suc (Suc fuel)) pipe_ops) wr cl s (turn @ concat (replicate (length ms) turn)) s2"
    using s1(1) s2(1) by (rule session_run_append)
  then show ?case
    using s1(2,9) s2(2,3) by (intro exI [of _ s2]) simp
qed

lemma publish_all_sent:
  assumes "\<forall>m \<in> set ms. within_limits m"
  shows "\<exists>p'. publish_all (client_WriteMessage pipe_ops) (tcp_protocol [] None None) ms = Ret (None, p') \<and>
     sent p' = map wire ms"
proof -
  have "transport (tcp_protocol [] None None) = pipe_client None [] (NewMessageReader [])"
    by (simp add: tcp_protocol_def NewProtocol_def pipe_client_new)
  then obtain p' where p': "publish_all (client_WriteMessage pipe_ops) (tcp_protocol [] None None) ms = Ret (None, p')"
      "transport p' = pipe_client None (map wire ms) (NewMessageReader [])"
    using publish_all_pipe [of ms "tcp_protocol [] None None" None "[]"] assms by auto
  then have "sent p' = map wire ms"
    by (simp add: sent_def pipe_client_def open_pipe_def NewMessageReader_def)
  then show ?thesis
    using p'(1) by blast
qed

lemma session_from_start:
  assumes "\<forall>m \<in> set ms. within_limits m \<and> length (wire m) \<le> 1024"
  shows "\<exists>s. session_run (client_ReadMessage (Suc (Suc fuel)) pipe_ops) (client_WriteMessage pipe_ops) (client_Close pipe_ops)
       (StartReceiving (tcp_protocol (map wire ms) (Some subs) (Some h)) False) (concat (replicate (length ms) turn)) s \<and>
     handled s = ms \<and> calls (proto s) = concat (map (dispatch h subs) ms)"
proof -
  let ?s = "StartReceiving (tcp_protocol (map wire ms) (Some subs) (Some h)) False"
  have "\<exists>s. session_run (client_ReadMessage (Suc (Suc fuel)) pipe_ops) (client_WriteMessage pipe_ops)
      (client_Close pipe_ops) ?s (concat (replicate (length ms) turn)) s \<and>
     handled s = handled ?s @ ms \<and>
     calls (proto s) = calls (proto ?s) @ concat (map (dispatch (msgHandler (proto ?s)) (subscribers (proto ?s))) ms)"
    using assms
    by (rule session_turns [where r = "NewMessageReader (map wire ms)"])
      (simp_all add: StartReceiving_def tcp_protocol_def NewProtocol_def pipe_client_new, simp_all add: NewMessageReader_def)
  then show ?thesis
    by (auto simp: StartReceiving_def tcp_protocol_def NewProtocol_def)
qed



section \<open>Between the C and the Go library\<close>





end
